(* ===== verification/Prelude.thy ===== *)
theory Prelude
  imports Main "HOL-Library.Word" "HOL-Library.Char_ord"
begin

text \<open>
  Shared vocabulary of the development: names for Rust's machine integers, the fallible
  results, the saturating and checked arithmetic of \<^verbatim>\<open>core::num\<close>, and the string and slice
  routines of \<^verbatim>\<open>core::str\<close> and \<^verbatim>\<open>core::slice\<close> that several components call, with the lemmas
  about them that the component proofs use.

  A Rust \<^verbatim>\<open>&str\<close> or \<^verbatim>\<open>&[u8]\<close> that the code reads bytewise is a \<^typ>\<open>string\<close>: a HOL
  \<^typ>\<open>char\<close> is exactly one byte. \<^verbatim>\<open>usize\<close> is 64 bits wide (the targets of the releases).
\<close>

unbundle bit_operations_syntax

section \<open>Machine integers\<close>

type_synonym u8 = "8 word"
type_synonym u16 = "16 word"
type_synonym u32 = "32 word"
type_synonym u64 = "64 word"
type_synonym u128 = "128 word"
type_synonym usize = "64 word"

named_theorems sat_simps "unat of the saturating operations"

definition sat_add :: "'a::len word \<Rightarrow> 'a word \<Rightarrow> 'a word" where
  "sat_add a b = (if unat a + unat b < 2 ^ LENGTH('a) then a + b else - 1)"

definition sat_sub :: "'a::len word \<Rightarrow> 'a word \<Rightarrow> 'a word" where
  "sat_sub a b = (if a < b then 0 else a - b)"

definition sat_mul :: "'a::len word \<Rightarrow> 'a word \<Rightarrow> 'a word" where
  "sat_mul a b = (if unat a * unat b < 2 ^ LENGTH('a) then a * b else - 1)"

definition div_ceil :: "'a::len word \<Rightarrow> 'a word \<Rightarrow> 'a word" where
  "div_ceil a b = (if a mod b > 0 then a div b + 1 else a div b)"

lemma unat_minus_one_max: "unat (- 1 :: 'a::len word) = 2 ^ LENGTH('a) - 1"
  by (simp add: mask_eq_exp_minus_1 unsigned_minus_1_eq_mask)

lemma unat_sat_add [sat_simps]:
  "unat (sat_add a b) = min (unat a + unat b) (2 ^ LENGTH('a) - 1)" for a b :: "'a::len word"
proof (cases "unat a + unat b < 2 ^ LENGTH('a)")
  case True
  then have "unat (a + b) = unat a + unat b" by (simp add: unat_word_ariths)
  with True show ?thesis by (simp add: sat_add_def)
qed (simp add: sat_add_def unat_minus_one_max)

lemma unat_sat_mul [sat_simps]:
  "unat (sat_mul a b) = min (unat a * unat b) (2 ^ LENGTH('a) - 1)" for a b :: "'a::len word"
proof (cases "unat a * unat b < 2 ^ LENGTH('a)")
  case True
  then have "unat (a * b) = unat a * unat b" by (simp add: unat_word_ariths)
  with True show ?thesis by (simp add: sat_mul_def)
qed (simp add: sat_mul_def unat_minus_one_max)

lemma unat_sat_sub [sat_simps]: "unat (sat_sub a b) = unat a - unat b"
  by (auto simp: sat_sub_def unat_sub_if' word_less_nat_alt word_le_nat_alt)

text \<open>Evaluation goes through the binary integers.\<close>

lemma sat_add_code [code]:
  "sat_add a b = (if uint a + uint b < 2 ^ LENGTH('a) then a + b else - 1)" for a b :: "'a::len word"
proof -
  have "unat a + unat b < 2 ^ LENGTH('a) \<longleftrightarrow> uint a + uint b < 2 ^ LENGTH('a)"
    using of_nat_less_iff [where ?'a = int, of "unat a + unat b" "2 ^ LENGTH('a)"] by simp
  then show ?thesis by (simp add: sat_add_def)
qed

lemma sat_mul_code [code]:
  "sat_mul a b = (if uint a * uint b < 2 ^ LENGTH('a) then a * b else - 1)" for a b :: "'a::len word"
proof -
  have "unat a * unat b < 2 ^ LENGTH('a) \<longleftrightarrow> uint a * uint b < 2 ^ LENGTH('a)"
    using of_nat_less_iff [where ?'a = int, of "unat a * unat b" "2 ^ LENGTH('a)"] by simp
  then show ?thesis by (simp add: sat_mul_def)
qed

lemma unat_lt_exp [simp]: "unat (a :: 'a::len word) < 2 ^ LENGTH('a)"
  by (rule unsigned_less)

lemma unat_max: "unat (max a b) = max (unat a) (unat (b :: 'a::len word))"
  by (simp add: max_def word_le_nat_alt)

lemma div_ceil_le_iff:
  fixes w m :: "'a::len word"
  assumes "0 < m"
  shows "unat (div_ceil w m) \<le> d \<longleftrightarrow> unat w \<le> d * unat m"
proof -
  define q r where "q = unat w div unat m" and "r = unat w mod unat m"
  have m: "0 < unat m" using assms by (simp add: unat_gt_0 word_gt_0)
  have w: "unat w = q * unat m + r" "r < unat m" using m by (simp_all add: q_def r_def)
  show ?thesis
  proof (cases "r = 0")
    case True
    then have "div_ceil w m = w div m"
      by (simp add: div_ceil_def r_def word_less_nat_alt unat_mod)
    then show ?thesis using True w m by (simp add: unat_div q_def [symmetric])
  next
    case False
    have "q * 2 \<le> q * unat m" using w(2) False by (intro mult_le_mono2) linarith
    then have "q + 1 < 2 ^ LENGTH('a)" using w False unat_lt_exp [of w] by linarith
    then have "unat (w div m + 1) = q + 1" by (simp add: unat_word_ariths unat_div q_def)
    moreover have "div_ceil w m = w div m + 1"
      using False by (simp add: div_ceil_def r_def word_less_nat_alt unat_mod)
    moreover have "q + 1 \<le> d \<longleftrightarrow> q * unat m + r \<le> d * unat m"
    proof
      assume "q + 1 \<le> d"
      then have "(q + 1) * unat m \<le> d * unat m" by (rule mult_le_mono1)
      then show "q * unat m + r \<le> d * unat m" using w(2) by simp
    next
      assume "q * unat m + r \<le> d * unat m"
      then have "q * unat m < d * unat m" using False by linarith
      then show "q + 1 \<le> d" by simp
    qed
    ultimately show ?thesis using w(1) by simp
  qed
qed

section \<open>Durations\<close>

record duration =
  dur_secs :: u64
  dur_nanos :: u32

definition as_secs :: "duration \<Rightarrow> u64" where
  "as_secs d = dur_secs d"

definition from_secs :: "u64 \<Rightarrow> duration" where
  "from_secs s = \<lparr>dur_secs = s, dur_nanos = 0\<rparr>"

definition as_millis :: "duration \<Rightarrow> u128" where
  "as_millis d = ucast (dur_secs d) * 1000 + ucast (dur_nanos d) div 1000000"

section \<open>Slices and strings\<close>

text \<open>\<^verbatim>\<open>Iterator::position\<close>, \<^verbatim>\<open>str::strip_prefix\<close>, \<^verbatim>\<open>str::strip_suffix\<close>, \<^verbatim>\<open>slice::ends_with\<close>.\<close>

fun position :: "('a \<Rightarrow> bool) \<Rightarrow> 'a list \<Rightarrow> nat option" where
  "position P [] = None"
| "position P (x # xs) = (if P x then Some 0 else map_option Suc (position P xs))"

definition strip_prefix :: "'a list \<Rightarrow> 'a list \<Rightarrow> 'a list option" where
  "strip_prefix p s = (if take (length p) s = p then Some (drop (length p) s) else None)"

definition ends_with :: "'a list \<Rightarrow> 'a list \<Rightarrow> bool" where
  "ends_with s suf \<longleftrightarrow> length suf \<le> length s \<and> drop (length s - length suf) s = suf"

definition strip_suffix :: "'a list \<Rightarrow> 'a list \<Rightarrow> 'a list option" where
  "strip_suffix suf s = (if ends_with s suf then Some (take (length s - length suf) s) else None)"

lemma position_None_iff [simp]: "position P xs = None \<longleftrightarrow> (\<forall>x\<in>set xs. \<not> P x)"
  by (induction xs) auto

lemma position_SomeD:
  "position P xs = Some i \<Longrightarrow> i < length xs \<and> P (xs ! i) \<and> (\<forall>j<i. \<not> P (xs ! j))"
proof (induction xs arbitrary: i)
  case (Cons x xs)
  then show ?case by (auto split: if_splits simp: less_Suc_eq_0_disj)
qed simp

lemma position_SomeI:
  "i < length xs \<Longrightarrow> P (xs ! i) \<Longrightarrow> (\<And>j. j < i \<Longrightarrow> \<not> P (xs ! j)) \<Longrightarrow> position P xs = Some i"
proof (induction xs arbitrary: i)
  case (Cons x xs)
  show ?case
  proof (cases i)
    case (Suc k)
    have "position P xs = Some k"
    proof (rule Cons.IH)
      fix j assume "j < k"
      with Cons.prems(3) [of "Suc j"] Suc show "\<not> P (xs ! j)" by simp
    qed (use Cons.prems Suc in auto)
    moreover have "\<not> P x" using Cons.prems(3) [of 0] Suc by simp
    ultimately show ?thesis using Suc by simp
  qed (use Cons.prems in simp)
qed simp

lemma position_append_stop:
  "\<forall>x\<in>set xs. \<not> P x \<Longrightarrow> P y \<Longrightarrow> position P (xs @ y # ys) = Some (length xs)"
  by (induction xs) auto

lemma position_Some_take:
  "position P xs = Some i \<Longrightarrow> \<forall>x\<in>set (take i xs). \<not> P x"
  by (auto dest!: position_SomeD simp: in_set_conv_nth)

lemma position_Some_decomp:
  assumes "position P xs = Some i"
  shows "xs = take i xs @ xs ! i # drop (Suc i) xs"
  using position_SomeD [OF assms] by (simp add: id_take_nth_drop)

lemma strip_prefix_Some_iff: "strip_prefix p s = Some r \<longleftrightarrow> s = p @ r"
  by (auto simp: strip_prefix_def) (metis append_take_drop_id)

lemma ends_with_iff: "ends_with s suf \<longleftrightarrow> (\<exists>p. s = p @ suf)"
  unfolding ends_with_def by (metis append_take_drop_id append_eq_conv_conj diff_le_self length_append
      le_add2 length_drop length_take min.absorb2 add_diff_cancel_right')

lemma strip_suffix_Some_iff: "strip_suffix suf s = Some r \<longleftrightarrow> s = r @ suf"
  by (auto simp: strip_suffix_def ends_with_def) (metis append_take_drop_id)

section \<open>Decimal numbers\<close>

text \<open>
  \<open>parse_unsigned bound\<close> is \<^verbatim>\<open>FromStr\<close> of an unsigned integer type with \<open>bound\<close> values: a
  leading plus sign is accepted, the digits are read left to right and the first overflow
  fails. \<open>dec_of_nat\<close> is \<^verbatim>\<open>Display\<close> of such a type.
\<close>

definition digit_val :: "char \<Rightarrow> nat option" where
  "digit_val c = (if 48 \<le> (of_char c :: nat) \<and> (of_char c :: nat) \<le> 57
                  then Some (of_char c - 48) else None)"

definition digit_char :: "nat \<Rightarrow> char" where
  "digit_char d = char_of (48 + d)"

fun dec_loop :: "nat \<Rightarrow> nat \<Rightarrow> string \<Rightarrow> nat option" where
  "dec_loop bound acc [] = Some acc"
| "dec_loop bound acc (c # cs) =
     (case digit_val c of
        None \<Rightarrow> None
      | Some d \<Rightarrow> if acc * 10 + d < bound then dec_loop bound (acc * 10 + d) cs else None)"

definition parse_unsigned :: "nat \<Rightarrow> string \<Rightarrow> nat option" where
  "parse_unsigned bound s =
     (case s of
        [] \<Rightarrow> None
      | c # cs \<Rightarrow>
          if c = CHR ''+'' then (if cs = [] then None else dec_loop bound 0 cs)
          else dec_loop bound 0 s)"

fun dec_of_nat :: "nat \<Rightarrow> string" where
  "dec_of_nat n = (if n < 10 then [digit_char n] else dec_of_nat (n div 10) @ [digit_char (n mod 10)])"

declare dec_of_nat.simps [simp del]

lemma of_char_digit_char: "d < 10 \<Longrightarrow> (of_char (digit_char d) :: nat) = 48 + d"
  by (simp add: digit_char_def)

lemma digit_val_digit_char [simp]: "d < 10 \<Longrightarrow> digit_val (digit_char d) = Some d"
  by (simp add: digit_val_def of_char_digit_char)

lemma digit_val_lt_10: "digit_val c = Some d \<Longrightarrow> d < 10"
  by (auto simp: digit_val_def split: if_splits)

lemma dec_loop_append:
  "dec_loop bound acc (xs @ ys) =
     (case dec_loop bound acc xs of None \<Rightarrow> None | Some v \<Rightarrow> dec_loop bound v ys)"
  by (induction xs arbitrary: acc) (auto split: option.splits)

lemma dec_loop_dec_of_nat: "n < bound \<Longrightarrow> dec_loop bound 0 (dec_of_nat n) = Some n"
proof (induction n rule: dec_of_nat.induct)
  case (1 n)
  show ?case
  proof (cases "n < 10")
    case True
    with 1 show ?thesis by (subst dec_of_nat.simps) simp
  next
    case False
    then have "n div 10 < bound" using 1 by simp
    with 1 False have "dec_loop bound 0 (dec_of_nat (n div 10)) = Some (n div 10)" by simp
    with False 1 show ?thesis by (subst dec_of_nat.simps) (simp add: dec_loop_append)
  qed
qed

lemma dec_loop_bound: "dec_loop bound acc s = Some n \<Longrightarrow> acc < bound \<Longrightarrow> n < bound"
  by (induction s arbitrary: acc) (auto split: option.splits if_splits)

lemma parse_unsigned_bound: "parse_unsigned bound s = Some n \<Longrightarrow> 0 < bound \<Longrightarrow> n < bound"
  by (auto simp: parse_unsigned_def simp del: dec_loop.simps split: list.splits if_splits
      dest: dec_loop_bound)

lemma dec_of_nat_digits: "c \<in> set (dec_of_nat n) \<Longrightarrow> \<exists>d<10. c = digit_char d"
proof (induction n rule: dec_of_nat.induct)
  case (1 n)
  show ?case
  proof (cases "n < 10")
    case True
    with 1 show ?thesis by (subst (asm) (2) dec_of_nat.simps) auto
  next
    case False
    with "1.prems" have "c \<in> set (dec_of_nat (n div 10)) \<or> c = digit_char (n mod 10)"
      by (subst (asm) dec_of_nat.simps) auto
    with "1.IH" False show ?thesis by (auto intro: exI [of _ "n mod 10"])
  qed
qed

lemma dec_of_nat_not_Nil [simp]: "dec_of_nat n \<noteq> []"
  by (subst dec_of_nat.simps) simp

lemma digit_char_neq: "d < 10 \<Longrightarrow> \<not> (48 \<le> (of_char c :: nat) \<and> (of_char c :: nat) \<le> 57) \<Longrightarrow> digit_char d \<noteq> c"
  using of_char_digit_char by fastforce

lemma dec_of_nat_free:
  "\<not> (48 \<le> (of_char c :: nat) \<and> (of_char c :: nat) \<le> 57) \<Longrightarrow> c \<notin> set (dec_of_nat n)"
  using dec_of_nat_digits digit_char_neq by blast

lemma parse_unsigned_dec_of_nat:
  assumes "n < bound" shows "parse_unsigned bound (dec_of_nat n) = Some n"
proof (cases "dec_of_nat n")
  case (Cons c cs)
  have "CHR ''+'' \<notin> set (dec_of_nat n)" by (rule dec_of_nat_free) simp
  with Cons have "c \<noteq> CHR ''+''" by auto
  then have "parse_unsigned bound (dec_of_nat n) = dec_loop bound 0 (dec_of_nat n)"
    by (simp add: parse_unsigned_def Cons)
  with dec_loop_dec_of_nat [OF assms] show ?thesis by simp
qed simp

lemma find_Some_split:
  "find P xs = Some x \<longleftrightarrow> (\<exists>pre post. xs = pre @ x # post \<and> P x \<and> (\<forall>p\<in>set pre. \<not> P p))"
proof
  assume "find P xs = Some x"
  then show "\<exists>pre post. xs = pre @ x # post \<and> P x \<and> (\<forall>p\<in>set pre. \<not> P p)"
  proof (induction xs)
    case (Cons y xs)
    show ?case
    proof (cases "P y")
      case True
      then show ?thesis using Cons.prems by (intro exI [of _ "[]"] exI [of _ xs]) simp
    next
      case False
      then obtain pre post where "xs = pre @ x # post" "P x" "\<forall>p\<in>set pre. \<not> P p"
        using Cons by auto
      then show ?thesis using False by (intro exI [of _ "y # pre"] exI [of _ post]) simp
    qed
  qed simp
next
  assume "\<exists>pre post. xs = pre @ x # post \<and> P x \<and> (\<forall>p\<in>set pre. \<not> P p)"
  then obtain pre post where "xs = pre @ x # post" "P x" "\<forall>p\<in>set pre. \<not> P p" by blast
  then show "find P xs = Some x" by (induction pre arbitrary: xs) auto
qed

section \<open>Binary search\<close>

text \<open>\<^verbatim>\<open>slice::binary_search_by\<close> of the standard library: the branch-free loop that halves the size and
  keeps a base index. \<open>Inr\<close> is \<^verbatim>\<open>Ok\<close>.\<close>

datatype ordering = Less | Equal | Greater

function bs_loop :: "('a \<Rightarrow> ordering) \<Rightarrow> 'a list \<Rightarrow> nat \<Rightarrow> nat \<Rightarrow> nat" where
  "bs_loop f xs base sz =
     (if sz > 1 then
        (let half = sz div 2; mid = base + half in
         bs_loop f xs (if f (xs ! mid) = Greater then base else mid) (sz - half))
      else base)"
  by pat_completeness auto
termination by (relation "measure (\<lambda>(f, xs, base, sz). sz)") auto

declare bs_loop.simps [simp del]

definition binary_search_by :: "('a \<Rightarrow> ordering) \<Rightarrow> 'a list \<Rightarrow> nat + nat" where
  "binary_search_by f xs =
     (if xs = [] then Inl 0
      else let base = bs_loop f xs 0 (length xs); cmp = f (xs ! base) in
        if cmp = Equal then Inr base else Inl (base + (if cmp = Less then 1 else 0)))"

definition cmp_mono :: "('a \<Rightarrow> ordering) \<Rightarrow> 'a list \<Rightarrow> bool" where
  "cmp_mono f xs \<longleftrightarrow> sorted_wrt (\<lambda>a b. (f a = Greater \<longrightarrow> f b = Greater) \<and> (f b = Less \<longrightarrow> f a = Less)) xs"

lemma bs_loop_step:
  "1 < sz \<Longrightarrow> bs_loop f xs base sz =
    bs_loop f xs (if f (xs ! (base + sz div 2)) = Greater then base else base + sz div 2) (sz - sz div 2)"
  by (subst bs_loop.simps) (simp only: Let_def if_True)

lemma bs_loop_stop: "\<not> 1 < sz \<Longrightarrow> bs_loop f xs base sz = base"
  by (subst bs_loop.simps) (simp only: if_False)

lemma cmp_mono_Greater:
  "cmp_mono f xs \<Longrightarrow> f (xs ! i) = Greater \<Longrightarrow> i \<le> j \<Longrightarrow> j < length xs \<Longrightarrow> f (xs ! j) = Greater"
  unfolding cmp_mono_def sorted_wrt_iff_nth_less by (cases "i = j") (auto dest: le_neq_implies_less)

lemma bs_loop_inv:
  assumes "cmp_mono f xs" "0 < sz" "base + sz \<le> length xs"
    and "\<forall>i. base + sz \<le> i \<longrightarrow> i < length xs \<longrightarrow> f (xs ! i) = Greater"
    and "base = 0 \<or> f (xs ! base) \<noteq> Greater"
  shows "\<exists>b. bs_loop f xs base sz = b \<and> b < length xs \<and>
    (\<forall>i. b < i \<longrightarrow> i < length xs \<longrightarrow> f (xs ! i) = Greater) \<and> (b = 0 \<or> f (xs ! b) \<noteq> Greater)"
  using assms
proof (induction sz arbitrary: base rule: less_induct)
  case (less sz)
  show ?case
  proof (cases "1 < sz")
    case True
    define mid where "mid = base + sz div 2"
    have half: "sz - sz div 2 < sz" "0 < sz - sz div 2" "mid + (sz - sz div 2) = base + sz"
      "base + (sz - sz div 2) \<le> base + sz" "mid \<le> base + (sz - sz div 2)"
      using True by (auto simp: mid_def)
    show ?thesis
    proof (cases "f (xs ! mid) = Greater")
      case G: True
      have "\<forall>i. base + (sz - sz div 2) \<le> i \<longrightarrow> i < length xs \<longrightarrow> f (xs ! i) = Greater"
        using cmp_mono_Greater [OF less.prems(1) G] half(5) by (meson order_trans)
      moreover have "bs_loop f xs base sz = bs_loop f xs base (sz - sz div 2)"
        by (simp only: bs_loop_step [OF True] mid_def [symmetric] G if_True refl)
      moreover have "base + (sz - sz div 2) \<le> length xs" using less.prems(3) half(4) by linarith
      ultimately show ?thesis
        using less.IH [OF half(1) less.prems(1) half(2), of base] less.prems(5) by metis
    next
      case False
      moreover from this have "bs_loop f xs base sz = bs_loop f xs mid (sz - sz div 2)"
        by (simp only: bs_loop_step [OF True] mid_def [symmetric] if_False)
      ultimately show ?thesis
        using less.IH [OF half(1) less.prems(1) half(2), of mid] less.prems(3,4) half(3) by metis
    qed
  next
    case False
    then have one: "sz = 1" using less.prems(2) by linarith
    have "base < length xs" using less.prems(3) one by linarith
    moreover have "\<forall>i. base < i \<longrightarrow> i < length xs \<longrightarrow> f (xs ! i) = Greater"
      using less.prems(4) one by (metis Suc_eq_plus1 Suc_leI)
    ultimately show ?thesis using less.prems(5) bs_loop_stop [OF False] by blast
  qed
qed

lemma binary_search_by_ok:
  assumes "cmp_mono f xs"
  shows "(\<exists>i. binary_search_by f xs = Inr i) \<longleftrightarrow> (\<exists>x\<in>set xs. f x = Equal)"
proof (cases "xs = []")
  case False
  have "0 < length xs" using False by simp
  then obtain b where b: "bs_loop f xs 0 (length xs) = b" "b < length xs"
      "b = 0 \<or> f (xs ! b) \<noteq> Greater"
      and above: "\<And>i. b < i \<Longrightarrow> i < length xs \<Longrightarrow> f (xs ! i) = Greater"
    using bs_loop_inv [OF assms, of "length xs" 0] by fastforce
  have hit: "f (xs ! b) = Equal" if i: "i < length xs" "f (xs ! i) = Equal" for i
  proof (rule ccontr)
    assume ne: "f (xs ! b) \<noteq> Equal"
    have "\<not> b < i" using above [of i] i by auto
    then have less: "i < b" using ne i(2) by (metis nat_neq_iff)
    then have "f (xs ! b) = Less" using b(3) ne by (metis not_less0 ordering.exhaust)
    then have "f (xs ! i) = Less"
      using assms b(2) less unfolding cmp_mono_def sorted_wrt_iff_nth_less by blast
    then show False using i(2) by simp
  qed
  have "(\<exists>i. binary_search_by f xs = Inr i) \<longleftrightarrow> f (xs ! b) = Equal"
    using False b(1) by (simp add: binary_search_by_def Let_def)
  also have "\<dots> \<longleftrightarrow> (\<exists>x\<in>set xs. f x = Equal)"
    using hit b(2) by (metis in_set_conv_nth)
  finally show ?thesis .
qed (simp add: binary_search_by_def)

end
