(* ===== verification/Ip_Text.thy ===== *)
theory Ip_Text
  imports Prelude
begin

text \<open>
  IP addresses and their text form, as \<^verbatim>\<open>core::net\<close> defines them: addresses are the words
  \<^verbatim>\<open>u32::from\<close> and \<^verbatim>\<open>u128::from\<close> give (most significant octet first); parsing follows the
  reader of \<^verbatim>\<open>core::net::parser\<close>, where every reader returns the value and the rest of the
  text. These are definitions of the standard library that the components below call.
\<close>

datatype ip_addr = V4 u32 | V6 u128

text \<open>The derived \<^verbatim>\<open>Ord\<close>: every IPv4 address is below every IPv6 address.\<close>

instantiation ip_addr :: linorder
begin

fun less_eq_ip_addr :: "ip_addr \<Rightarrow> ip_addr \<Rightarrow> bool" where
  "V4 a \<le> V4 b \<longleftrightarrow> a \<le> b"
| "V4 a \<le> V6 b \<longleftrightarrow> True"
| "V6 a \<le> V4 b \<longleftrightarrow> False"
| "V6 a \<le> V6 b \<longleftrightarrow> a \<le> b"

definition less_ip_addr :: "ip_addr \<Rightarrow> ip_addr \<Rightarrow> bool" where
  "a < b \<longleftrightarrow> a \<le> b \<and> \<not> b \<le> (a :: ip_addr)"

instance
proof
  fix a b c :: ip_addr
  show "a \<le> a" by (cases a) auto
  show "a < b \<longleftrightarrow> a \<le> b \<and> \<not> b \<le> a" by (simp add: less_ip_addr_def)
  show "a \<le> b \<Longrightarrow> b \<le> a \<Longrightarrow> a = b" by (cases a; cases b) auto
  show "a \<le> b \<Longrightarrow> b \<le> c \<Longrightarrow> a \<le> c" by (cases a; cases b; cases c) auto
  show "a \<le> b \<or> b \<le> a" by (cases a; cases b) auto
qed

end

definition v4_of_octets :: "u8 \<Rightarrow> u8 \<Rightarrow> u8 \<Rightarrow> u8 \<Rightarrow> u32" where
  "v4_of_octets a b c d =
     push_bit 24 (ucast a) OR push_bit 16 (ucast b) OR push_bit 8 (ucast c) OR ucast d"

definition v4_octets :: "u32 \<Rightarrow> u8 list" where
  "v4_octets ip = [ucast (drop_bit 24 ip), ucast (drop_bit 16 ip), ucast (drop_bit 8 ip), ucast ip]"

fun v6_of_segments :: "u16 list \<Rightarrow> u128" where
  "v6_of_segments ss = foldl (\<lambda>acc s. push_bit 16 acc OR ucast s) 0 ss"

definition v6_segments :: "u128 \<Rightarrow> u16 list" where
  "v6_segments ip = map (\<lambda>i. ucast (drop_bit (16 * (7 - i)) ip)) [0..<8]"

text \<open>\<^verbatim>\<open>Ipv6Addr::to_ipv4_mapped\<close>: \<^verbatim>\<open>::ffff:a.b.c.d\<close>.\<close>

definition to_ipv4_mapped :: "u128 \<Rightarrow> u32 option" where
  "to_ipv4_mapped ip = (if drop_bit 32 ip = 0xffff then Some (ucast ip) else None)"

section \<open>Readers\<close>

type_synonym 'a reader = "string \<Rightarrow> ('a \<times> string) option"

definition hex_val :: "char \<Rightarrow> nat option" where
  "hex_val c =
     (let n = (of_char c :: nat) in
      if 48 \<le> n \<and> n \<le> 57 then Some (n - 48)
      else if 97 \<le> n \<and> n \<le> 102 then Some (n - 87)
      else if 65 \<le> n \<and> n \<le> 70 then Some (n - 55)
      else None)"

definition digits_value :: "nat \<Rightarrow> (char \<Rightarrow> nat option) \<Rightarrow> string \<Rightarrow> nat" where
  "digits_value radix val ds = foldl (\<lambda>acc c. acc * radix + the (val c)) 0 ds"

definition read_number ::
  "nat \<Rightarrow> (char \<Rightarrow> nat option) \<Rightarrow> nat \<Rightarrow> bool \<Rightarrow> nat \<Rightarrow> nat reader" where
  "read_number radix val max_digits allow_zero_prefix bound s =
     (let ds = takeWhile (\<lambda>c. val c \<noteq> None) s; n = length ds in
      if n = 0 \<or> max_digits < n then None
      else if \<not> allow_zero_prefix \<and> hd ds = CHR ''0'' \<and> 1 < n then None
      else if digits_value radix val ds < bound then Some (digits_value radix val ds, drop n s)
      else None)"

definition read_separator :: "char \<Rightarrow> nat \<Rightarrow> 'a reader \<Rightarrow> 'a reader" where
  "read_separator sep index inner s =
     (if index = 0 then inner s
      else case s of [] \<Rightarrow> None | c # cs \<Rightarrow> if c = sep then inner cs else None)"

abbreviation read_octet :: "nat reader" where
  "read_octet \<equiv> read_number 10 digit_val 3 False 256"

definition read_ipv4_addr :: "u32 reader" where
  "read_ipv4_addr s =
     (case read_separator CHR ''.'' 0 read_octet s of None \<Rightarrow> None | Some (a, s1) \<Rightarrow>
     (case read_separator CHR ''.'' 1 read_octet s1 of None \<Rightarrow> None | Some (b, s2) \<Rightarrow>
     (case read_separator CHR ''.'' 2 read_octet s2 of None \<Rightarrow> None | Some (c, s3) \<Rightarrow>
     (case read_separator CHR ''.'' 3 read_octet s3 of None \<Rightarrow> None | Some (d, s4) \<Rightarrow>
       Some (v4_of_octets (of_nat a) (of_nat b) (of_nat c) (of_nat d), s4)))))"

text \<open>
  \<open>read_groups i limit\<close> reads the groups \<open>i, i+1, ...\<close> of a half of an IPv6 address with
  room for \<open>limit\<close> groups; the flag tells whether it ended in an embedded IPv4 address.
\<close>

function read_groups :: "nat \<Rightarrow> nat \<Rightarrow> string \<Rightarrow> u16 list \<times> bool \<times> string" where
  "read_groups i limit s =
     (if limit \<le> i then ([], False, s)
      else case (if i < limit - 1 then read_separator CHR '':'' i read_ipv4_addr s else None) of
        Some (v4, s') \<Rightarrow> ([ucast (drop_bit 16 v4), ucast v4], True, s')
      | None \<Rightarrow>
         (case read_separator CHR '':'' i (read_number 16 hex_val 4 True 65536) s of
            None \<Rightarrow> ([], False, s)
          | Some (g, s') \<Rightarrow>
              (case read_groups (Suc i) limit s' of (gs, e, r) \<Rightarrow> (of_nat g # gs, e, r))))"
  by pat_completeness auto
termination
  by (relation "measure (\<lambda>(i, limit, s). limit - i)") auto

declare read_groups.simps [simp del]

definition read_ipv6_addr :: "u128 reader" where
  "read_ipv6_addr s =
     (case read_groups 0 8 s of (head, head_ipv4, s1) \<Rightarrow>
        if length head = 8 then Some (v6_of_segments head, s1)
        else if head_ipv4 then None
        else if take 2 s1 = '':'' @ '':'' then
          (case read_groups 0 (7 - length head) (drop 2 s1) of (tl_groups, _, s2) \<Rightarrow>
             Some (v6_of_segments
                     (head @ replicate (8 - length head - length tl_groups) 0 @ tl_groups), s2))
        else None)"

definition read_ip_addr :: "ip_addr reader" where
  "read_ip_addr s =
     (case read_ipv4_addr s of
        Some (v4, r) \<Rightarrow> Some (V4 v4, r)
      | None \<Rightarrow> map_option (\<lambda>(v6, r). (V6 v6, r)) (read_ipv6_addr s))"

definition parse_with :: "'a reader \<Rightarrow> string \<Rightarrow> 'a option" where
  "parse_with rd s = (case rd s of Some (v, []) \<Rightarrow> Some v | _ \<Rightarrow> None)"

definition parse_ipv4 :: "string \<Rightarrow> u32 option" where
  "parse_ipv4 s = (if 15 < length s then None else parse_with read_ipv4_addr s)"

definition parse_ipv6 :: "string \<Rightarrow> u128 option" where
  "parse_ipv6 = parse_with read_ipv6_addr"

definition parse_ip :: "string \<Rightarrow> ip_addr option" where
  "parse_ip = parse_with read_ip_addr"

text \<open>\<^verbatim>\<open>Display for Ipv4Addr\<close>.\<close>

definition show_ipv4 :: "u32 \<Rightarrow> string" where
  "show_ipv4 ip =
     (case v4_octets ip of
        [a, b, c, d] \<Rightarrow>
          dec_of_nat (unat a) @ ''.'' @ dec_of_nat (unat b) @ ''.'' @
          dec_of_nat (unat c) @ ''.'' @ dec_of_nat (unat d)
      | _ \<Rightarrow> [])"

section \<open>The dotted form round-trips\<close>

lemma v4_of_octets_octets: "v4_octets ip = [a, b, c, d] \<Longrightarrow> v4_of_octets a b c d = ip"
proof -
  assume "v4_octets ip = [a, b, c, d]"
  then have eqs: "a = ucast (drop_bit 24 ip)" "b = ucast (drop_bit 16 ip)"
    "c = ucast (drop_bit 8 ip)" "d = ucast ip"
    by (simp_all add: v4_octets_def)
  show ?thesis
  proof (rule bit_word_eqI)
    fix n assume "n < LENGTH(32)"
    then consider "n < 8" | "8 \<le> n" "n < 16" | "16 \<le> n" "n < 24" | "24 \<le> n" "n < 32"
      by fastforce
    then show "bit (v4_of_octets a b c d) n = bit ip n"
      by cases (simp_all add: eqs v4_of_octets_def bit_simps less_diff_conv2)
  qed
qed

lemma takeWhile_dec_of_nat:
  assumes "rest = [] \<or> digit_val (hd rest) = None"
  shows "takeWhile (\<lambda>c. digit_val c \<noteq> None) (dec_of_nat n @ rest) = dec_of_nat n"
proof -
  have "\<forall>c\<in>set (dec_of_nat n). digit_val c \<noteq> None"
    using dec_of_nat_digits by fastforce
  then have "takeWhile (\<lambda>c. digit_val c \<noteq> None) (dec_of_nat n @ rest) =
      dec_of_nat n @ takeWhile (\<lambda>c. digit_val c \<noteq> None) rest"
    by (simp add: takeWhile_append2)
  moreover have "takeWhile (\<lambda>c. digit_val c \<noteq> None) rest = []"
    using assms by (cases rest) auto
  ultimately show ?thesis by simp
qed

lemma digits_value_dec_of_nat: "digits_value 10 digit_val (dec_of_nat n) = n"
proof (induction n rule: dec_of_nat.induct)
  case (1 n)
  show ?case
  proof (cases "n < 10")
    case True
    then show ?thesis by (subst dec_of_nat.simps) (simp add: digits_value_def)
  next
    case False
    with 1 show ?thesis by (subst dec_of_nat.simps) (simp add: digits_value_def)
  qed
qed

lemma length_dec_of_nat: "n < 1000 \<Longrightarrow> length (dec_of_nat n) \<le> 3"
proof -
  assume n: "n < 1000"
  have two: "length (dec_of_nat m) \<le> 2" if "m < 100" for m
    using that
    by (simp add: dec_of_nat.simps [of m] dec_of_nat.simps [of "m div 10"] div_less_iff_less_mult)
  show ?thesis
  proof (cases "n < 10")
    case False
    moreover have "n div 10 < 100" using n by simp
    ultimately show ?thesis using two [of "n div 10"] by (subst dec_of_nat.simps) simp
  qed (subst dec_of_nat.simps, simp)
qed

lemma hd_dec_of_nat_zero: "hd (dec_of_nat n) = CHR ''0'' \<Longrightarrow> n = 0"
proof (induction n rule: dec_of_nat.induct)
  case (1 n)
  show ?case
  proof (cases "n < 10")
    case True
    with "1.prems" have "digit_char n = CHR ''0''" by (subst (asm) dec_of_nat.simps) simp
    then have "(of_char (digit_char n) :: nat) = 48" by simp
    with True show ?thesis by (simp add: of_char_digit_char)
  next
    case False
    with "1.prems" have "hd (dec_of_nat (n div 10)) = CHR ''0''"
      by (subst (asm) dec_of_nat.simps) simp
    with 1 False show ?thesis by simp
  qed
qed

lemma read_octet_dec_of_nat:
  assumes "n < 256" "rest = [] \<or> digit_val (hd rest) = None"
  shows "read_octet (dec_of_nat n @ rest) = Some (n, rest)"
proof -
  have "\<not> (hd (dec_of_nat n) = CHR ''0'' \<and> 1 < length (dec_of_nat n))"
  proof
    assume *: "hd (dec_of_nat n) = CHR ''0'' \<and> 1 < length (dec_of_nat n)"
    then have "n = 0" by (blast intro: hd_dec_of_nat_zero)
    with * show False by (simp add: dec_of_nat.simps)
  qed
  moreover have "length (dec_of_nat n) \<le> 3" using assms by (intro length_dec_of_nat) simp
  ultimately show ?thesis
    using assms
    by (simp add: read_number_def takeWhile_dec_of_nat digits_value_dec_of_nat Let_def
        del: not_None_eq)
qed

lemma digit_val_dot [simp]: "digit_val CHR ''.'' = None"
  by (simp add: digit_val_def)

lemma digit_val_slash [simp]: "digit_val CHR ''/'' = None"
  by (simp add: digit_val_def)

lemma unat_u8_lt [simp]: "unat (a :: u8) < 256"
  using unat_lt_exp [of a] by simp

lemma read_ipv4_addr_show:
  assumes "rest = [] \<or> digit_val (hd rest) = None"
  shows "read_ipv4_addr (show_ipv4 ip @ rest) = Some (ip, rest)"
proof -
  obtain a b c d where oct: "v4_octets ip = [a, b, c, d]" by (simp add: v4_octets_def)
  show ?thesis
    using assms
    by (simp add: show_ipv4_def oct read_ipv4_addr_def read_separator_def read_octet_dec_of_nat
        v4_of_octets_octets [OF oct])
qed

lemma length_show_ipv4: "length (show_ipv4 ip) \<le> 15"
proof -
  obtain a b c d where oct: "v4_octets ip = [a, b, c, d]" by (simp add: v4_octets_def)
  have three: "length (dec_of_nat (unat x)) \<le> 3" for x :: u8
    using unat_u8_lt [of x] by (intro length_dec_of_nat) linarith
  show ?thesis
    using three [of a] three [of b] three [of c] three [of d] by (simp add: show_ipv4_def oct)
qed

lemma parse_ipv4_show: "parse_ipv4 (show_ipv4 ip) = Some ip"
  using read_ipv4_addr_show [of "[]" ip] length_show_ipv4 [of ip]
  by (simp add: parse_ipv4_def parse_with_def)

lemma parse_ip_show_v4: "parse_ip (show_ipv4 ip) = Some (V4 ip)"
  using read_ipv4_addr_show [of "[]" ip] by (simp add: parse_ip_def parse_with_def read_ip_addr_def)

end
