(* ===== verification/Ipnet.thy ===== *)
theory Ipnet
  imports Ip_Text
begin

text \<open>
  CIDR networks: \<^verbatim>\<open>shared/flatkit/src/net/ipnet.rs\<close>, and the predefined blocks and the address
  hash of \<^verbatim>\<open>shared/flatkit/src/net/mod.rs\<close>. The records \<open>ipv4net\<close> and \<open>ipv6net\<close> are the structs
  of the same name; their well-formedness is the prefix bound every safe constructor checks.
  The locale \<open>cidr_net\<close> states what a network type promises to its clients (the address set,
  the overlap and the subnet test) and is interpreted on both types.
\<close>

section \<open>Errors and text parts\<close>

text \<open>The \<^verbatim>\<open>AddrParseError\<close> and \<^verbatim>\<open>ParseIntError\<close> payloads of the first two carry no information
  the code reads.\<close>

datatype cidr_parse_error =
    InvalidIp
  | InvalidPrefix
  | MultipleSlashes
  | InvalidPrefixLength u8 u8

definition cidr_parts ::
  "(string \<Rightarrow> 'v option) \<Rightarrow> string \<Rightarrow> cidr_parse_error + ('v \<times> u8 option)" where
  "cidr_parts parse cidr =
     (case position (\<lambda>c. c = CHR ''/'') cidr of
        Some sep \<Rightarrow>
          (let ip = take sep cidr; prefix = drop (Suc sep) cidr in
           if CHR ''/'' \<in> set prefix then Inl MultipleSlashes
           else case parse ip of
             None \<Rightarrow> Inl InvalidIp
           | Some v \<Rightarrow>
               (case parse_unsigned 256 prefix of
                  None \<Rightarrow> Inl InvalidPrefix
                | Some p \<Rightarrow> Inr (v, Some (of_nat p))))
      | None \<Rightarrow>
          (case parse cidr of None \<Rightarrow> Inl InvalidIp | Some v \<Rightarrow> Inr (v, None)))"

section \<open>IPv4 networks\<close>

definition IPV4_BITS :: u8 where "IPV4_BITS = 32"

record ipv4net =
  v4_addr :: u32
  v4_prefix :: u8

definition ipv4net_new :: "u32 \<Rightarrow> u8 \<Rightarrow> cidr_parse_error + ipv4net" where
  "ipv4net_new addr prefix =
     (if prefix > IPV4_BITS then Inl (InvalidPrefixLength prefix IPV4_BITS)
      else Inr \<lparr>v4_addr = addr, v4_prefix = prefix\<rparr>)"

definition ipv4net_mask :: "ipv4net \<Rightarrow> u32" where
  "ipv4net_mask n =
     (if v4_prefix n = 0 then 0 else push_bit (unat (IPV4_BITS - v4_prefix n)) (- 1))"

definition ipv4net_network :: "ipv4net \<Rightarrow> u32" where
  "ipv4net_network n = v4_addr n AND ipv4net_mask n"

definition ipv4net_broadcast :: "ipv4net \<Rightarrow> u32" where
  "ipv4net_broadcast n = v4_addr n OR NOT (ipv4net_mask n)"

definition ipv4net_contains :: "ipv4net \<Rightarrow> u32 \<Rightarrow> bool" where
  "ipv4net_contains n ip =
     (let mask = (ucast (NOT (drop_bit (unat (v4_prefix n)) (0xffffffff :: u64))) :: u32);
          net = v4_addr n AND mask
      in ip AND mask = net)"

definition ipv4net_is_subnet_of :: "ipv4net \<Rightarrow> ipv4net \<Rightarrow> bool" where
  "ipv4net_is_subnet_of n other \<longleftrightarrow>
     v4_addr other \<le> v4_addr n \<and> ipv4net_broadcast other \<ge> ipv4net_broadcast n"

definition ipv4net_is_supernet_of :: "ipv4net \<Rightarrow> ipv4net \<Rightarrow> bool" where
  "ipv4net_is_supernet_of n other \<longleftrightarrow> ipv4net_is_subnet_of other n"

definition ipv4net_overlaps :: "ipv4net \<Rightarrow> ipv4net \<Rightarrow> bool" where
  "ipv4net_overlaps n other \<longleftrightarrow>
     ipv4net_contains other (v4_addr n) \<or> ipv4net_contains other (ipv4net_broadcast n) \<or>
     ipv4net_contains n (v4_addr other) \<or> ipv4net_contains n (ipv4net_broadcast other)"

definition ipv4net_from_str :: "string \<Rightarrow> cidr_parse_error + ipv4net" where
  "ipv4net_from_str s =
     (case cidr_parts parse_ipv4 s of
        Inl e \<Rightarrow> Inl e
      | Inr (v4, prefix) \<Rightarrow>
          (let p = (case prefix of None \<Rightarrow> 32 | Some p \<Rightarrow> p) in
           if p > 32 then Inl (InvalidPrefixLength p 32)
           else Inr \<lparr>v4_addr = v4, v4_prefix = p\<rparr>))"

definition ipv4net_to_string :: "ipv4net \<Rightarrow> string" where
  "ipv4net_to_string n = show_ipv4 (v4_addr n) @ ''/'' @ dec_of_nat (unat (v4_prefix n))"

definition ipv4net_wf :: "ipv4net \<Rightarrow> bool" where
  "ipv4net_wf n \<longleftrightarrow> v4_prefix n \<le> IPV4_BITS"

section \<open>IPv6 networks\<close>

definition IPV6_BITS :: u8 where "IPV6_BITS = 128"

record ipv6net =
  v6_addr :: u128
  v6_prefix :: u8

definition ipv6net_new :: "u128 \<Rightarrow> u8 \<Rightarrow> cidr_parse_error + ipv6net" where
  "ipv6net_new addr prefix =
     (if prefix > IPV6_BITS then Inl (InvalidPrefixLength prefix IPV6_BITS)
      else Inr \<lparr>v6_addr = addr, v6_prefix = prefix\<rparr>)"

definition ipv6net_mask :: "ipv6net \<Rightarrow> u128" where
  "ipv6net_mask n =
     (if v6_prefix n = 0 then 0 else push_bit (unat (IPV6_BITS - v6_prefix n)) (- 1))"

definition ipv6net_network :: "ipv6net \<Rightarrow> u128" where
  "ipv6net_network n = v6_addr n AND ipv6net_mask n"

definition ipv6net_broadcast :: "ipv6net \<Rightarrow> u128" where
  "ipv6net_broadcast n = v6_addr n OR NOT (ipv6net_mask n)"

definition ipv6net_contains :: "ipv6net \<Rightarrow> u128 \<Rightarrow> bool" where
  "ipv6net_contains n ip =
     (let net = ipv6net_network n; mask = ipv6net_mask n in ip AND mask = net)"

definition ipv6net_is_subnet_of :: "ipv6net \<Rightarrow> ipv6net \<Rightarrow> bool" where
  "ipv6net_is_subnet_of n other \<longleftrightarrow>
     v6_addr other \<le> v6_addr n \<and> ipv6net_broadcast other \<ge> ipv6net_broadcast n"

definition ipv6net_is_supernet_of :: "ipv6net \<Rightarrow> ipv6net \<Rightarrow> bool" where
  "ipv6net_is_supernet_of n other \<longleftrightarrow> ipv6net_is_subnet_of other n"

definition ipv6net_overlaps :: "ipv6net \<Rightarrow> ipv6net \<Rightarrow> bool" where
  "ipv6net_overlaps n other \<longleftrightarrow>
     ipv6net_contains other (v6_addr n) \<or> ipv6net_contains other (ipv6net_broadcast n) \<or>
     ipv6net_contains n (v6_addr other) \<or> ipv6net_contains n (ipv6net_broadcast other)"

definition ipv6net_from_str :: "string \<Rightarrow> cidr_parse_error + ipv6net" where
  "ipv6net_from_str s =
     (case cidr_parts parse_ipv6 s of
        Inl e \<Rightarrow> Inl e
      | Inr (v6, prefix) \<Rightarrow>
          (let p = (case prefix of None \<Rightarrow> 128 | Some p \<Rightarrow> p) in
           if p > 128 then Inl (InvalidPrefixLength p 128)
           else Inr \<lparr>v6_addr = v6, v6_prefix = p\<rparr>))"

definition ipv6net_wf :: "ipv6net \<Rightarrow> bool" where
  "ipv6net_wf n \<longleftrightarrow> v6_prefix n \<le> IPV6_BITS"

section \<open>Networks of either version\<close>

datatype ip_net = V4Net ipv4net | V6Net ipv6net

definition ip_net_new_v4 :: "u32 \<Rightarrow> u8 \<Rightarrow> cidr_parse_error + ip_net" where
  "ip_net_new_v4 addr prefix =
     (case ipv4net_new addr prefix of Inl e \<Rightarrow> Inl e | Inr n \<Rightarrow> Inr (V4Net n))"

definition ip_net_new_v6 :: "u128 \<Rightarrow> u8 \<Rightarrow> cidr_parse_error + ip_net" where
  "ip_net_new_v6 addr prefix =
     (case ipv6net_new addr prefix of Inl e \<Rightarrow> Inl e | Inr n \<Rightarrow> Inr (V6Net n))"

fun ip_net_ip :: "ip_net \<Rightarrow> ip_addr" where
  "ip_net_ip (V4Net n) = V4 (v4_addr n)"
| "ip_net_ip (V6Net n) = V6 (v6_addr n)"

fun ip_net_prefix :: "ip_net \<Rightarrow> u8" where
  "ip_net_prefix (V4Net n) = v4_prefix n"
| "ip_net_prefix (V6Net n) = v6_prefix n"

fun ip_net_network :: "ip_net \<Rightarrow> ip_addr" where
  "ip_net_network (V4Net n) = V4 (ipv4net_network n)"
| "ip_net_network (V6Net n) = V6 (ipv6net_network n)"

fun ip_net_broadcast :: "ip_net \<Rightarrow> ip_addr" where
  "ip_net_broadcast (V4Net n) = V4 (ipv4net_broadcast n)"
| "ip_net_broadcast (V6Net n) = V6 (ipv6net_broadcast n)"

fun ip_net_mask :: "ip_net \<Rightarrow> ip_addr" where
  "ip_net_mask (V4Net n) = V4 (ipv4net_mask n)"
| "ip_net_mask (V6Net n) = V6 (ipv6net_mask n)"

fun ip_net_contains :: "ip_net \<Rightarrow> ip_addr \<Rightarrow> bool" where
  "ip_net_contains (V4Net n) (V4 ip) = ipv4net_contains n ip"
| "ip_net_contains (V6Net n) (V6 ip) = ipv6net_contains n ip"
| "ip_net_contains _ _ = False"

definition ip_net_from_str :: "string \<Rightarrow> cidr_parse_error + ip_net" where
  "ip_net_from_str s =
     (case cidr_parts parse_ip s of
        Inl e \<Rightarrow> Inl e
      | Inr (V4 v4, prefix) \<Rightarrow>
          (let p = (case prefix of None \<Rightarrow> 32 | Some p \<Rightarrow> p) in
           if p > 32 then Inl (InvalidPrefixLength p 32)
           else Inr (V4Net \<lparr>v4_addr = v4, v4_prefix = p\<rparr>))
      | Inr (V6 v6, prefix) \<Rightarrow>
          (let p = (case prefix of None \<Rightarrow> 128 | Some p \<Rightarrow> p) in
           if p > 128 then Inl (InvalidPrefixLength p 128)
           else Inr (V6Net \<lparr>v6_addr = v6, v6_prefix = p\<rparr>)))"

fun ip_net_wf :: "ip_net \<Rightarrow> bool" where
  "ip_net_wf (V4Net n) = ipv4net_wf n"
| "ip_net_wf (V6Net n) = ipv6net_wf n"

section \<open>Predefined blocks and the address hash\<close>

datatype max_cidr_block =
    LocalhostV4 | Private24BitV4 | Private20BitV4 | Private16BitV4 | LinkLocalV4
  | LocalhostV6 | UniqueLocalV6 | LinkLocalV6

definition max_cidr_block_ALL :: "max_cidr_block list" where
  "max_cidr_block_ALL =
     [LocalhostV4, Private24BitV4, Private20BitV4, Private16BitV4, LinkLocalV4,
      LocalhostV6, UniqueLocalV6, LinkLocalV6]"

fun max_cidr_block_as_str :: "max_cidr_block \<Rightarrow> string" where
  "max_cidr_block_as_str LocalhostV4 = ''127.0.0.1/8''"
| "max_cidr_block_as_str Private24BitV4 = ''10.0.0.0/8''"
| "max_cidr_block_as_str Private20BitV4 = ''172.16.0.0/12''"
| "max_cidr_block_as_str Private16BitV4 = ''192.168.0.0/16''"
| "max_cidr_block_as_str LinkLocalV4 = ''169.254.0.0/16''"
| "max_cidr_block_as_str LocalhostV6 = ''::1/128''"
| "max_cidr_block_as_str UniqueLocalV6 = ''fc00::/7''"
| "max_cidr_block_as_str LinkLocalV6 = ''fe80::/10''"

text \<open>The value under the \<^verbatim>\<open>unwrap\<close>: \<open>Inl\<close> would be the panic.\<close>

fun max_cidr_block_network :: "max_cidr_block \<Rightarrow> cidr_parse_error + ip_net" where
  "max_cidr_block_network LocalhostV4 = ip_net_new_v4 (v4_of_octets 127 0 0 1) 8"
| "max_cidr_block_network Private24BitV4 = ip_net_new_v4 (v4_of_octets 10 0 0 0) 8"
| "max_cidr_block_network Private20BitV4 = ip_net_new_v4 (v4_of_octets 172 16 0 0) 12"
| "max_cidr_block_network Private16BitV4 = ip_net_new_v4 (v4_of_octets 192 168 0 0) 16"
| "max_cidr_block_network LinkLocalV4 = ip_net_new_v4 (v4_of_octets 169 254 0 0) 16"
| "max_cidr_block_network LocalhostV6 = ip_net_new_v6 (v6_of_segments [0, 0, 0, 0, 0, 0, 0, 1]) 128"
| "max_cidr_block_network UniqueLocalV6 =
     ip_net_new_v6 (v6_of_segments [0xfc00, 0, 0, 0, 0, 0, 0, 0]) 7"
| "max_cidr_block_network LinkLocalV6 =
     ip_net_new_v6 (v6_of_segments [0xfe80, 0, 0, 0, 0, 0, 0, 0]) 10"

text \<open>\<^verbatim>\<open>u32::from_ne_bytes\<close> on the little-endian targets of the releases.\<close>

definition u32_from_ne_bytes :: "u8 list \<Rightarrow> u32" where
  "u32_from_ne_bytes bs = (case bs of [a, b, c, d] \<Rightarrow> v4_of_octets d c b a | _ \<Rightarrow> 0)"

fun hash_ip :: "ip_addr \<Rightarrow> usize" where
  "hash_ip (V4 v4) =
     (let ip_u32 = u32_from_ne_bytes (v4_octets v4);
          hash = word_rotl 7 (ip_u32 * 0x6d2b79f5)
      in ucast hash)"
| "hash_ip (V6 v6) =
     (let s = v6_segments v6;
          h0 = s ! 0 XOR s ! 1 XOR s ! 2 XOR s ! 3;
          h1 = s ! 4 XOR s ! 5 XOR s ! 6 XOR s ! 7;
          h0 = (ucast ((ucast h0 :: u32) * 0x6d2b79f5) :: u16);
          h1 = (ucast ((ucast h1 :: u32) * 0x2b6ac22e) :: u16);
          combined = (ucast h0 :: u64) XOR push_bit 16 (ucast h1)
      in ucast combined)"

section \<open>Blocks of a word\<close>

lemma and_not_mask_conv: "(a :: 'a::len word) AND NOT (mask k) = push_bit k (drop_bit k a)"
  by (rule bit_word_eqI) (auto simp: bit_simps)

lemma unat_cidr_lo: "unat ((a :: 'a::len word) AND NOT (mask k)) = unat a div 2 ^ k * 2 ^ k"
proof -
  have "unat (push_bit k (drop_bit k a)) = take_bit LENGTH('a) (push_bit k (drop_bit k (unat a)))"
    by (simp only: unsigned_push_bit_eq unsigned_drop_bit_eq) (simp add: take_bit_nat_eq_self)
  moreover have "unat a div 2 ^ k * 2 ^ k < 2 ^ LENGTH('a)"
    by (rule le_less_trans [OF div_times_less_eq_dividend unat_lt_exp])
  ultimately show ?thesis
    by (simp add: and_not_mask_conv take_bit_nat_eq_self push_bit_eq_mult drop_bit_eq_div)
qed

lemma cidr_hi_conv: "(a :: 'a::len word) OR mask k = (a AND NOT (mask k)) + mask k"
proof -
  have "a OR mask k = (a AND NOT (mask k)) OR mask k"
    by (rule bit_word_eqI) (auto simp: bit_simps)
  also have "\<dots> = (a AND NOT (mask k)) + mask k"
    by (rule disjunctive_add [symmetric]) (auto simp: bit_simps)
  finally show ?thesis .
qed

lemma unat_mask_word: "k \<le> LENGTH('a) \<Longrightarrow> unat (mask k :: 'a::len word) = 2 ^ k - 1"
  proof -
  assume "k \<le> LENGTH('a)"
  have "unat (take_bit k (- 1) :: 'a word) = take_bit k (mask LENGTH('a))"
    by (simp only: unsigned_take_bit_eq unsigned_minus_1_eq_mask)
  also have "\<dots> = mask k" using \<open>k \<le> LENGTH('a)\<close> by (simp add: take_bit_of_mask min_def)
  finally show ?thesis by (simp add: mask_eq_exp_minus_1)
qed

lemma unat_cidr_hi:
  assumes "k \<le> LENGTH('a)"
  shows "unat ((a :: 'a::len word) OR mask k) = unat a div 2 ^ k * 2 ^ k + (2 ^ k - 1)"
proof -
  have "unat a div 2 ^ k < 2 ^ (LENGTH('a) - k)"
    using assms by (simp add: div_less_iff_less_mult flip: power_add)
  then have "Suc (unat a div 2 ^ k) * 2 ^ k \<le> 2 ^ (LENGTH('a) - k) * 2 ^ k"
    by (intro mult_right_mono) auto
  also have "\<dots> = 2 ^ LENGTH('a)" using assms by (simp flip: power_add)
  finally have "2 ^ k + unat a div 2 ^ k * 2 ^ k \<le> 2 ^ LENGTH('a)" by simp
  moreover have "0 < (2 :: nat) ^ k" by simp
  ultimately have "unat a div 2 ^ k * 2 ^ k + (2 ^ k - 1) < 2 ^ LENGTH('a)" by linarith
  then show ?thesis
    by (simp add: cidr_hi_conv unat_word_ariths unat_cidr_lo unat_mask_word [OF assms])
qed

lemma cidr_block_iff:
  assumes "k \<le> LENGTH('a)"
  shows "(x :: 'a::len word) AND NOT (mask k) = a AND NOT (mask k) \<longleftrightarrow>
    a AND NOT (mask k) \<le> x \<and> x \<le> a OR mask k"
proof -
  have "x AND NOT (mask k) = a AND NOT (mask k) \<longleftrightarrow> unat x div 2 ^ k = unat a div 2 ^ k"
    by (simp add: unat_cidr_lo word_unat_eq_iff)
  also have "\<dots> \<longleftrightarrow> unat a div 2 ^ k * 2 ^ k \<le> unat x \<and> unat x < Suc (unat a div 2 ^ k) * 2 ^ k"
    by (metis div_nat_eqI div_times_less_eq_dividend dividend_less_div_times mult.commute mult_Suc zero_less_numeral zero_less_power)
  also have "\<dots> \<longleftrightarrow> a AND NOT (mask k) \<le> x \<and> x \<le> a OR mask k"
  proof -
    have "0 < (2 :: nat) ^ k" by simp
    then show ?thesis
      unfolding word_le_nat_alt unat_cidr_lo unat_cidr_hi [OF assms] mult_Suc by linarith
  qed
  finally show ?thesis .
qed


lemma prefix_mask_conv:
  assumes "k \<le> LENGTH('a)"
  shows "push_bit k (- 1 :: 'a::len word) = NOT (mask k)"
  using assms by (intro bit_word_eqI) (auto simp: bit_simps)

section \<open>What a network type promises\<close>

text \<open>\<open>host n\<close> is the number of host bits. The laws are the ones the operations of the source obey
  when the prefix is in bounds; the subnet and overlap tests are kept as the source writes them, on
  the stored address and not on the network address.\<close>

locale cidr_net =
  fixes wf :: "'n \<Rightarrow> bool"
    and addr :: "'n \<Rightarrow> 'a::len word"
    and host :: "'n \<Rightarrow> nat"
    and network broadcast :: "'n \<Rightarrow> 'a word"
    and contains :: "'n \<Rightarrow> 'a word \<Rightarrow> bool"
    and subnet overlaps :: "'n \<Rightarrow> 'n \<Rightarrow> bool"
  assumes host_bound: "host n \<le> LENGTH('a)"
    and network_law: "wf n \<Longrightarrow> network n = addr n AND NOT (mask (host n))"
    and broadcast_law: "wf n \<Longrightarrow> broadcast n = addr n OR mask (host n)"
    and contains_law: "wf n \<Longrightarrow> contains n ip \<longleftrightarrow> ip AND NOT (mask (host n)) = network n"
    and subnet_law: "subnet n m \<longleftrightarrow> addr m \<le> addr n \<and> broadcast n \<le> broadcast m"
    and overlaps_law: "overlaps n m \<longleftrightarrow> contains m (addr n) \<or> contains m (broadcast n) \<or>
      contains n (addr m) \<or> contains n (broadcast m)"
begin

lemma contains_iff_range:
  "wf n \<Longrightarrow> contains n ip \<longleftrightarrow> network n \<le> ip \<and> ip \<le> broadcast n"
  by (simp add: contains_law network_law broadcast_law cidr_block_iff host_bound)

lemma addr_between: "wf n \<Longrightarrow> network n \<le> addr n \<and> addr n \<le> broadcast n"
  using contains_iff_range [of n "addr n"] by (simp add: contains_law network_law)

lemma contains_own: "wf n \<Longrightarrow> contains n (addr n) \<and> contains n (network n) \<and> contains n (broadcast n)"
  using addr_between [of n] by (auto simp: contains_iff_range)

lemma aligned_div:
  assumes "wf n"
  shows "contains n ip \<longleftrightarrow> unat ip div 2 ^ host n = unat (addr n) div 2 ^ host n"
  using assms by (simp add: contains_law network_law unat_cidr_lo word_unat_eq_iff)

lemma contains_nested:
  assumes "wf n" "wf m" "host n \<le> host m" "contains n ip" "contains m ip" "contains n ip'"
  shows "contains m ip'"
proof -
  have *: "x div 2 ^ host m = x div 2 ^ host n div 2 ^ (host m - host n)" for x :: nat
    using assms(3) by (simp add: div_mult2_eq [symmetric] flip: power_add)
  show ?thesis using assms by (simp add: aligned_div *)
qed

lemma overlaps_iff:
  assumes "wf n" "wf m"
  shows "overlaps n m \<longleftrightarrow> (\<exists>ip. contains n ip \<and> contains m ip)"
proof
  assume "overlaps n m"
  then show "\<exists>ip. contains n ip \<and> contains m ip"
    using contains_own [OF assms(1)] contains_own [OF assms(2)] by (auto simp: overlaps_law)
next
  assume "\<exists>ip. contains n ip \<and> contains m ip"
  then obtain ip where "contains n ip" "contains m ip" by blast
  then show "overlaps n m"
    using contains_nested [of n m ip] contains_nested [of m n ip] assms
      contains_own [OF assms(1)] contains_own [OF assms(2)] linear [of "host n" "host m"]
    by (auto simp: overlaps_law)
qed

lemma overlaps_nested:
  assumes "wf n" "wf m" "overlaps n m"
  shows "(\<forall>ip. contains n ip \<longrightarrow> contains m ip) \<or> (\<forall>ip. contains m ip \<longrightarrow> contains n ip)"
  using assms contains_nested linear [of "host n" "host m"] by (auto simp: overlaps_iff)

lemma subnet_iff:
  assumes "wf n" "wf m" "addr n = network n" "addr m = network m"
  shows "subnet n m \<longleftrightarrow> (\<forall>ip. contains n ip \<longrightarrow> contains m ip)"
proof
  assume "subnet n m"
  then show "\<forall>ip. contains n ip \<longrightarrow> contains m ip"
    using assms by (auto simp: subnet_law contains_iff_range)
next
  assume "\<forall>ip. contains n ip \<longrightarrow> contains m ip"
  then have "contains m (network n)" "contains m (broadcast n)"
    using contains_own [OF assms(1)] by auto
  then show "subnet n m" using assms by (auto simp: subnet_law contains_iff_range)
qed

end

section \<open>Both types keep the promise\<close>

lemma unat_IPV4_BITS_minus: "ipv4net_wf n \<Longrightarrow> unat (IPV4_BITS - v4_prefix n) = 32 - unat (v4_prefix n)"
  by (simp add: ipv4net_wf_def IPV4_BITS_def unat_sub)

lemma ipv4net_mask_conv:
  "ipv4net_wf n \<Longrightarrow> ipv4net_mask n = NOT (mask (32 - unat (v4_prefix n)))"
  by (auto simp: ipv4net_mask_def unat_IPV4_BITS_minus prefix_mask_conv mask_eq_exp_minus_1)

lemma ipv4net_shift_mask:
  assumes "p \<le> 32"
  shows "(ucast (NOT (drop_bit p (0xffffffff :: u64))) :: u32) = NOT (mask (32 - p))"
proof -
  have full: "(0xffffffff :: u64) = mask 32" by (simp add: mask_eq_exp_minus_1)
  show ?thesis unfolding full using assms
    by (intro bit_word_eqI) (auto simp: bit_simps simp del: mask_numeral)
qed

lemma unat_IPV6_BITS_minus: "ipv6net_wf n \<Longrightarrow> unat (IPV6_BITS - v6_prefix n) = 128 - unat (v6_prefix n)"
  by (simp add: ipv6net_wf_def IPV6_BITS_def unat_sub)

lemma ipv6net_mask_conv:
  "ipv6net_wf n \<Longrightarrow> ipv6net_mask n = NOT (mask (128 - unat (v6_prefix n)))"
  by (auto simp: ipv6net_mask_def unat_IPV6_BITS_minus prefix_mask_conv mask_eq_exp_minus_1)

lemma ipv4net_wf_unat: "ipv4net_wf n \<Longrightarrow> unat (v4_prefix n) \<le> 32"
  by (simp add: ipv4net_wf_def IPV4_BITS_def word_le_nat_alt)

interpretation v4: cidr_net ipv4net_wf v4_addr "\<lambda>n. 32 - unat (v4_prefix n)"
  ipv4net_network ipv4net_broadcast ipv4net_contains ipv4net_is_subnet_of ipv4net_overlaps
proof unfold_locales
  fix n m :: ipv4net and ip :: u32
  assume wf: "ipv4net_wf n"
  then show "ipv4net_network n = v4_addr n AND NOT (mask (32 - unat (v4_prefix n)))"
    and "ipv4net_broadcast n = v4_addr n OR mask (32 - unat (v4_prefix n))"
    by (simp_all add: ipv4net_network_def ipv4net_broadcast_def ipv4net_mask_conv)
  from wf show "ipv4net_contains n ip \<longleftrightarrow>
      ip AND NOT (mask (32 - unat (v4_prefix n))) = ipv4net_network n"
    by (simp add: ipv4net_contains_def Let_def ipv4net_network_def ipv4net_mask_conv
        ipv4net_shift_mask ipv4net_wf_unat)
qed (auto simp: ipv4net_is_subnet_of_def ipv4net_overlaps_def)

interpretation v6: cidr_net ipv6net_wf v6_addr "\<lambda>n. 128 - unat (v6_prefix n)"
  ipv6net_network ipv6net_broadcast ipv6net_contains ipv6net_is_subnet_of ipv6net_overlaps
  by unfold_locales (simp_all add: ipv6net_network_def ipv6net_broadcast_def ipv6net_contains_def
      ipv6net_mask_conv ipv6net_is_subnet_of_def ipv6net_overlaps_def)


section \<open>Text\<close>

lemma cidr_parts_show:
  assumes "\<forall>c\<in>set ip. c \<noteq> CHR ''/''" "parse ip = Some v"
  shows "cidr_parts parse (ip @ CHR ''/'' # dec_of_nat (unat (p :: u8))) = Inr (v, Some p)"
proof -
  have "unat p < 256" using unat_lt_exp [of p] by simp
  moreover have "position (\<lambda>c. c = CHR ''/'') (ip @ CHR ''/'' # dec_of_nat (unat p)) = Some (length ip)"
    using assms(1) by (subst position_append_stop) auto
  ultimately show ?thesis
    using assms(2) dec_of_nat_free [of "CHR ''/''" "unat p"]
    by (simp add: cidr_parts_def parse_unsigned_dec_of_nat digit_val_slash)
qed

lemma show_ipv4_no_slash: "CHR ''/'' \<notin> set (show_ipv4 a)"
  by (simp add: show_ipv4_def dec_of_nat_free)

lemma cidr_parts_show_v4:
  "cidr_parts parse_ipv4 (show_ipv4 a @ CHR ''/'' # dec_of_nat (unat (p :: u8))) = Inr (a, Some p)"
  "cidr_parts parse_ip (show_ipv4 a @ CHR ''/'' # dec_of_nat (unat p)) = Inr (V4 a, Some p)"
  by (rule cidr_parts_show; use show_ipv4_no_slash parse_ipv4_show parse_ip_show_v4 in auto)+

lemma ip_net_from_str_wf: "ip_net_from_str s = Inr n \<Longrightarrow> ip_net_wf n"
  by (auto simp: ip_net_from_str_def ipv4net_wf_def IPV4_BITS_def ipv6net_wf_def IPV6_BITS_def Let_def
      not_less split: sum.splits prod.splits ip_addr.splits if_splits)

lemma ip_net_contains_range:
  "ip_net_wf n \<Longrightarrow>
   ip_net_contains n ip \<longleftrightarrow> ip_net_network n \<le> ip \<and> ip \<le> ip_net_broadcast n"
  by (cases n; cases ip) (auto simp: v4.contains_iff_range v6.contains_iff_range)

section \<open>Properties\<close>

text \<open>C2. A network that parsed from text contains exactly the addresses from its network address to its
  broadcast address, for both IP versions: the mask the membership test computes (a 64-bit shift
  for IPv4) agrees with the one \<^verbatim>\<open>network\<close> and \<^verbatim>\<open>broadcast\<close> use. Addresses of the other version are
  outside.\<close>

theorem parsed_contains_range:
  assumes "ip_net_from_str s = Inr n"
  shows "ip_net_contains n ip \<longleftrightarrow> ip_net_network n \<le> ip \<and> ip \<le> ip_net_broadcast n"
  by (rule ip_net_contains_range [OF ip_net_from_str_wf [OF assms]])

theorem parsed_contains_range_witness:
  "ip_net_from_str ''10.0.0.1/8'' = Inr (V4Net \<lparr>v4_addr = 0x0A000001, v4_prefix = 8\<rparr>) \<and>
   (ip_net_contains (V4Net \<lparr>v4_addr = 0x0A000001, v4_prefix = 8\<rparr>) (V4 0x0AFFFFFF) \<longleftrightarrow>
    ip_net_network (V4Net \<lparr>v4_addr = 0x0A000001, v4_prefix = 8\<rparr>) \<le> V4 0x0AFFFFFF \<and>
    V4 0x0AFFFFFF \<le> ip_net_broadcast (V4Net \<lparr>v4_addr = 0x0A000001, v4_prefix = 8\<rparr>))"
proof -
  have parsed: "ip_net_from_str ''10.0.0.1/8'' = Inr (V4Net \<lparr>v4_addr = 0x0A000001, v4_prefix = 8\<rparr>)"
    by code_simp
  show ?thesis using parsed parsed_contains_range [OF parsed] by blast
qed

text \<open>C3. \<^verbatim>\<open>overlaps\<close>, which only tests the stored address and the broadcast address of each network
  against the other, decides for both IP versions whether the networks share an address.\<close>

theorem overlaps_iff_common_address:
  "(ipv4net_wf n \<and> ipv4net_wf m \<longrightarrow>
      (ipv4net_overlaps n m \<longleftrightarrow> (\<exists>ip. ipv4net_contains n ip \<and> ipv4net_contains m ip))) \<and>
   (ipv6net_wf n' \<and> ipv6net_wf m' \<longrightarrow>
      (ipv6net_overlaps n' m' \<longleftrightarrow> (\<exists>ip. ipv6net_contains n' ip \<and> ipv6net_contains m' ip)))"
  using v4.overlaps_iff [of n m] v6.overlaps_iff [of n' m'] by blast

theorem overlaps_iff_common_address_witness:
  "ipv4net_overlaps \<lparr>v4_addr = 0x0A000000, v4_prefix = 8\<rparr> \<lparr>v4_addr = 0x0A0A0000, v4_prefix = 16\<rparr> \<and>
   (\<exists>ip. ipv4net_contains \<lparr>v4_addr = 0x0A000000, v4_prefix = 8\<rparr> ip \<and>
      ipv4net_contains \<lparr>v4_addr = 0x0A0A0000, v4_prefix = 16\<rparr> ip)"
  using overlaps_iff_common_address
    [of "\<lparr>v4_addr = 0x0A000000, v4_prefix = 8\<rparr>" "\<lparr>v4_addr = 0x0A0A0000, v4_prefix = 16\<rparr>"]
  by (simp add: ipv4net_wf_def IPV4_BITS_def ipv4net_overlaps_def ipv4net_contains_def)

text \<open>C5. Between networks written with their network address, \<^verbatim>\<open>is_subnet_of\<close> is inclusion of the address
  sets, for both IP versions.\<close>

theorem subnet_iff_inclusion:
  "(ipv4net_wf n \<and> ipv4net_wf m \<and> v4_addr n = ipv4net_network n \<and> v4_addr m = ipv4net_network m \<longrightarrow>
      (ipv4net_is_subnet_of n m \<longleftrightarrow> (\<forall>ip. ipv4net_contains n ip \<longrightarrow> ipv4net_contains m ip))) \<and>
   (ipv6net_wf n' \<and> ipv6net_wf m' \<and> v6_addr n' = ipv6net_network n' \<and> v6_addr m' = ipv6net_network m' \<longrightarrow>
      (ipv6net_is_subnet_of n' m' \<longleftrightarrow> (\<forall>ip. ipv6net_contains n' ip \<longrightarrow> ipv6net_contains m' ip)))"
  using v4.subnet_iff [of n m] v6.subnet_iff [of n' m'] by blast

theorem subnet_iff_inclusion_witness:
  "ipv4net_is_subnet_of \<lparr>v4_addr = 0x0A0A0000, v4_prefix = 16\<rparr> \<lparr>v4_addr = 0x0A000000, v4_prefix = 8\<rparr> \<and>
   ipv4net_contains \<lparr>v4_addr = 0x0A000000, v4_prefix = 8\<rparr> 0x0A0A0101"
proof -
  have sub: "ipv4net_is_subnet_of \<lparr>v4_addr = 0x0A0A0000, v4_prefix = 16\<rparr>
      \<lparr>v4_addr = 0x0A000000, v4_prefix = 8\<rparr>"
    by code_simp
  have "ipv4net_contains \<lparr>v4_addr = 0x0A0A0000, v4_prefix = 16\<rparr> 0x0A0A0101" by code_simp
  with sub show ?thesis
    using subnet_iff_inclusion
      [of "\<lparr>v4_addr = 0x0A0A0000, v4_prefix = 16\<rparr>" "\<lparr>v4_addr = 0x0A000000, v4_prefix = 8\<rparr>"]
    by (simp add: ipv4net_wf_def IPV4_BITS_def ipv4net_network_def ipv4net_mask_def mask_eq_exp_minus_1)
qed

text \<open>C8. \<^verbatim>\<open>is_subnet_of\<close> compares the stored address of the outer network instead of its network address,
  so it denies that \<^verbatim>\<open>127.0.0.0/16\<close> is a subnet of the predefined block \<^verbatim>\<open>127.0.0.1/8\<close>, although every
  address of the first is in the second.\<close>

theorem subnet_of_localhost_block_denied:
  "max_cidr_block_network LocalhostV4 = Inr (V4Net \<lparr>v4_addr = 0x7F000001, v4_prefix = 8\<rparr>) \<and>
   (\<forall>ip. ipv4net_contains \<lparr>v4_addr = 0x7F000000, v4_prefix = 16\<rparr> ip \<longrightarrow>
      ipv4net_contains \<lparr>v4_addr = 0x7F000001, v4_prefix = 8\<rparr> ip) \<and>
   \<not> ipv4net_is_subnet_of \<lparr>v4_addr = 0x7F000000, v4_prefix = 16\<rparr>
       \<lparr>v4_addr = 0x7F000001, v4_prefix = 8\<rparr>"
proof (intro conjI allI impI)
  show "max_cidr_block_network LocalhostV4 = Inr (V4Net \<lparr>v4_addr = 0x7F000001, v4_prefix = 8\<rparr>)"
    by code_simp
next
  fix ip
  assume "ipv4net_contains \<lparr>v4_addr = 0x7F000000, v4_prefix = 16\<rparr> ip"
  then show "ipv4net_contains \<lparr>v4_addr = 0x7F000001, v4_prefix = 8\<rparr> ip"
    by (rule v4.contains_nested [rotated -1, where ip = "0x7F000000"])
      (simp_all add: ipv4net_wf_def IPV4_BITS_def ipv4net_contains_def)
qed (simp add: ipv4net_is_subnet_of_def)

theorem subnet_of_localhost_block_denied_witness:
  "ipv4net_contains \<lparr>v4_addr = 0x7F000001, v4_prefix = 8\<rparr> 0x7F000002 \<and>
   \<not> ipv4net_is_subnet_of \<lparr>v4_addr = 0x7F000000, v4_prefix = 16\<rparr>
       \<lparr>v4_addr = 0x7F000001, v4_prefix = 8\<rparr>"
  using subnet_of_localhost_block_denied by (simp add: ipv4net_contains_def)

text \<open>C7. Printing a valid IPv4 network and parsing the text gives the network back, through the
  IPv4 parser and through the version-independent one.\<close>

theorem ipv4net_text_roundtrip:
  "ipv4net_wf n \<Longrightarrow> ipv4net_from_str (ipv4net_to_string n) = Inr n \<and>
   ip_net_from_str (ipv4net_to_string n) = Inr (V4Net n)"
  by (simp add: ipv4net_from_str_def ip_net_from_str_def ipv4net_to_string_def cidr_parts_show_v4
      ipv4net_wf_def IPV4_BITS_def Let_def)

theorem ipv4net_text_roundtrip_witness:
  "ipv4net_from_str (ipv4net_to_string \<lparr>v4_addr = 0xC0A80000, v4_prefix = 16\<rparr>) =
     Inr \<lparr>v4_addr = 0xC0A80000, v4_prefix = 16\<rparr>"
  using ipv4net_text_roundtrip [of "\<lparr>v4_addr = 0xC0A80000, v4_prefix = 16\<rparr>"]
  by (simp add: ipv4net_wf_def IPV4_BITS_def)

end
