(* ===== verification/Ipset.thy ===== *)
theory Ipset
  imports Ipnet "HOL-Library.Product_Lexorder"
begin

text \<open>
  The read-only address set of \<^verbatim>\<open>shared/flatkit/src/net/ipset.rs\<close>: a builder collects the ranges of
  CIDR networks, \<open>ipset_build\<close> sorts and merges them, and membership is a binary search. The two
  merge functions of the source differ in their integer width only and are two instances of
  \<open>merge_ranges\<close>. The locale \<open>address_filter\<close> is what the firewall and the trusted-proxy list rely on.
\<close>

section \<open>Merging sorted ranges\<close>

definition merge_step :: "('a::len word \<times> 'a word) list \<Rightarrow> 'a word \<times> 'a word \<Rightarrow> ('a word \<times> 'a word) list" where
  "merge_step out r =
     (let (start, end) = r in
      if out = [] then [(start, end)]
      else let (lo, hi) = last out in
        if start \<le> hi \<or> (hi \<noteq> - 1 \<and> start = hi + 1) then
          (if end > hi then butlast out @ [(lo, end)] else out)
        else out @ [(start, end)])"

definition merge_ranges :: "('a::len word \<times> 'a word) list \<Rightarrow> ('a word \<times> 'a word) list" where
  "merge_ranges rs = foldl merge_step [] rs"

definition merge_u32 :: "(u32 \<times> u32) list \<Rightarrow> (u32 \<times> u32) list" where
  "merge_u32 rs = merge_ranges rs"

definition merge_u128 :: "(u128 \<times> u128) list \<Rightarrow> (u128 \<times> u128) list" where
  "merge_u128 rs = merge_ranges rs"

section \<open>The set and its builder\<close>

record ipset =
  set_v4 :: "(u32 \<times> u32) list"
  set_v6 :: "(u128 \<times> u128) list"

record ipset_builder =
  b_v4 :: "(u32 \<times> u32) list"
  b_v6 :: "(u128 \<times> u128) list"

definition ipset_builder_new :: ipset_builder where
  "ipset_builder_new = \<lparr>b_v4 = [], b_v6 = []\<rparr>"

definition ipset_is_empty :: "ipset \<Rightarrow> bool" where
  "ipset_is_empty s \<longleftrightarrow> set_v4 s = [] \<and> set_v6 s = []"

definition range_cmp :: "'a::len word \<Rightarrow> 'a word \<times> 'a word \<Rightarrow> ordering" where
  "range_cmp ip r = (let (start, end) = r in
     if ip < start then Greater else if ip > end then Less else Equal)"

fun ipset_contains_exact :: "ipset \<Rightarrow> ip_addr \<Rightarrow> bool" where
  "ipset_contains_exact s (V4 ip) \<longleftrightarrow>
     (case binary_search_by (range_cmp ip) (set_v4 s) of Inr _ \<Rightarrow> True | Inl _ \<Rightarrow> False)"
| "ipset_contains_exact s (V6 ip) \<longleftrightarrow>
     (case binary_search_by (range_cmp ip) (set_v6 s) of Inr _ \<Rightarrow> True | Inl _ \<Rightarrow> False)"

definition ipset_contains :: "ipset \<Rightarrow> ip_addr \<Rightarrow> bool" where
  "ipset_contains s client_ip \<longleftrightarrow>
     (case client_ip of
        V6 v6 \<Rightarrow> (case to_ipv4_mapped v6 of Some v4 \<Rightarrow> ipset_contains_exact s (V4 v4) | None \<Rightarrow> False)
      | V4 _ \<Rightarrow> False) \<or> ipset_contains_exact s client_ip"

fun insert_network :: "ipset_builder \<Rightarrow> ip_net \<Rightarrow> ipset_builder" where
  "insert_network b (V4Net n) = b\<lparr>b_v4 := b_v4 b @ [(ipv4net_network n, ipv4net_broadcast n)]\<rparr>"
| "insert_network b (V6Net n) = b\<lparr>b_v6 := b_v6 b @ [(ipv6net_network n, ipv6net_broadcast n)]\<rparr>"

definition ipset_insert :: "ipset_builder \<Rightarrow> string \<Rightarrow> cidr_parse_error + ipset_builder" where
  "ipset_insert b cidr =
     (case ip_net_from_str cidr of Inl e \<Rightarrow> Inl e | Inr n \<Rightarrow> Inr (insert_network b n))"

definition ipset_build :: "ipset_builder \<Rightarrow> ipset" where
  "ipset_build b = \<lparr>set_v4 = merge_u32 (sort (b_v4 b)), set_v6 = merge_u128 (sort (b_v6 b))\<rparr>"

fun try_insert_all :: "ipset_builder \<Rightarrow> string list \<Rightarrow> cidr_parse_error + ipset_builder" where
  "try_insert_all b [] = Inr b"
| "try_insert_all b (cidr # cidrs) =
     (case ipset_insert b cidr of Inl e \<Rightarrow> Inl e | Inr b' \<Rightarrow> try_insert_all b' cidrs)"

definition try_from_iter :: "string list \<Rightarrow> cidr_parse_error + ipset" where
  "try_from_iter cidrs =
     (case try_insert_all ipset_builder_new cidrs of Inl e \<Rightarrow> Inl e | Inr b \<Rightarrow> Inr (ipset_build b))"

section \<open>What the merge keeps\<close>

definition in_ranges :: "('a::len word \<times> 'a word) list \<Rightarrow> 'a word \<Rightarrow> bool" where
  "in_ranges rs x \<longleftrightarrow> (\<exists>(lo, hi)\<in>set rs. lo \<le> x \<and> x \<le> hi)"

definition separated :: "('a::len word \<times> 'a word) list \<Rightarrow> bool" where
  "separated rs \<longleftrightarrow> (\<forall>(lo, hi)\<in>set rs. lo \<le> hi) \<and>
     sorted_wrt (\<lambda>r s. unat (snd r) + 1 < unat (fst s)) rs"

lemma adjacent_iff:
  "(start \<le> hi \<or> (hi \<noteq> - 1 \<and> start = hi + 1)) \<longleftrightarrow> unat start \<le> unat (hi :: 'a::len word) + 1"
proof (cases "hi = - 1")
  case True
  then show ?thesis using less_imp_le [OF unat_lt_exp [of start]] by (simp add: unat_minus_one_max)
next
  case False
  then have "unat (hi + 1) = unat hi + 1"
    by (metis Suc_eq_plus1 add.commute add_eq_0_iff unatSuc)
  then have "start = hi + 1 \<longleftrightarrow> unat start = unat hi + 1" by (metis word_unat_eq_iff)
  then show ?thesis using False by (auto simp: word_le_nat_alt)
qed

lemma merge_step_snoc:
  "merge_step (out @ [(lo, hi)]) (s, e) =
     (if unat s \<le> unat hi + 1 then out @ [(lo, max hi e)] else out @ [(lo, hi), (s, e)])"
  by (auto simp: merge_step_def adjacent_iff max_def not_less dest: less_imp_le antisym)

lemma separated_snoc:
  "separated (rs @ [(lo, hi)]) \<longleftrightarrow> separated rs \<and> lo \<le> hi \<and> (\<forall>r\<in>set rs. unat (snd r) + 1 < unat lo)"
  by (auto simp: separated_def sorted_wrt_append)

lemma in_ranges_snoc: "in_ranges (rs @ [(lo, hi)]) x \<longleftrightarrow> in_ranges rs x \<or> lo \<le> x \<and> x \<le> hi"
  by (auto simp: in_ranges_def)

lemma merge_step_inv:
  fixes s e :: "'a::len word"
  assumes "separated out" "s \<le> e" "\<forall>r\<in>set out. fst r \<le> s"
  shows "separated (merge_step out (s, e)) \<and>
    (in_ranges (merge_step out (s, e)) x \<longleftrightarrow> in_ranges out x \<or> s \<le> x \<and> x \<le> e) \<and>
    (\<forall>r\<in>set (merge_step out (s, e)). fst r \<le> s)"
proof (cases out rule: rev_cases)
  case Nil
  then show ?thesis using assms by (simp add: merge_step_def separated_def in_ranges_def split: prod.split)
next
  case (snoc rs r)
  obtain lo hi where r: "r = (lo, hi)" by (cases r)
  have lo: "lo \<le> hi" "lo \<le> s" "separated rs" "\<forall>q\<in>set rs. unat (snd q) + 1 < unat lo"
    using assms snoc r by (simp_all add: separated_snoc)
  show ?thesis
  proof (cases "unat s \<le> unat hi + 1")
    case True
    have "lo \<le> x \<and> x \<le> max hi e \<longleftrightarrow> lo \<le> x \<and> x \<le> hi \<or> s \<le> x \<and> x \<le> e"
      using True lo(1,2) assms(2) unfolding max_def word_le_nat_alt by (cases "unat hi \<le> unat e") auto
    moreover have "separated (rs @ [(lo, max hi e)])"
      using lo order_trans [OF lo(1), of e] by (simp add: separated_snoc max_def)
    ultimately show ?thesis
      using True assms(3) snoc r by (simp add: merge_step_snoc in_ranges_snoc)
  next
    case False
    then have eq: "merge_step out (s, e) = out @ [(s, e)]"
      using snoc r by (simp add: merge_step_snoc)
    have "\<forall>q\<in>set out. unat (snd q) + 1 < unat s"
      using lo False snoc r by (auto simp: word_le_nat_alt)
    then have "separated (out @ [(s, e)])" using assms by (simp add: separated_snoc)
    then show ?thesis using assms(3) by (simp add: eq in_ranges_snoc)
  qed
qed

lemma merge_fold_inv:
  fixes out :: "('a::len word \<times> 'a word) list"
  assumes "separated out" "sorted rs" "\<forall>(s, e)\<in>set rs. s \<le> e" "\<forall>r\<in>set out. \<forall>q\<in>set rs. fst r \<le> fst q"
  shows "separated (foldl merge_step out rs) \<and>
    (in_ranges (foldl merge_step out rs) x \<longleftrightarrow> in_ranges out x \<or> in_ranges rs x)"
  using assms
proof (induction rs arbitrary: out)
  case Nil
  then show ?case by (simp add: in_ranges_def)
next
  case (Cons r rs)
  obtain s e where r: "r = (s, e)" by (cases r)
  have "s \<le> e" "\<forall>p\<in>set out. fst p \<le> s" using Cons.prems r by auto
  note step = merge_step_inv [OF Cons.prems(1) this]
  have le: "\<forall>q\<in>set rs. s \<le> fst q" using Cons.prems(2) r by (auto simp: less_eq_prod_def)
  then have "\<forall>p\<in>set (merge_step out r). \<forall>q\<in>set rs. fst p \<le> fst q"
    using step [of x] r by (meson order_trans)
  then have "separated (foldl merge_step (merge_step out r) rs) \<and>
    (in_ranges (foldl merge_step (merge_step out r) rs) x \<longleftrightarrow>
     in_ranges (merge_step out r) x \<or> in_ranges rs x)"
    using Cons.prems step [of x] r by (intro Cons.IH) auto
  then show ?case using step [of x] r by (simp add: in_ranges_def)
qed

lemma merge_ranges_sort:
  assumes "\<forall>(s, e)\<in>set rs. s \<le> e"
  shows "separated (merge_ranges (sort rs))" "in_ranges (merge_ranges (sort rs)) x \<longleftrightarrow> in_ranges rs x"
proof -
  have "separated []" by (simp add: separated_def)
  then have "separated (foldl merge_step [] (sort rs)) \<and>
    (in_ranges (foldl merge_step [] (sort rs)) x \<longleftrightarrow> in_ranges [] x \<or> in_ranges (sort rs) x)"
    by (rule merge_fold_inv) (use assms in auto)
  then show "separated (merge_ranges (sort rs))"
    "in_ranges (merge_ranges (sort rs)) x \<longleftrightarrow> in_ranges rs x"
    by (simp_all add: merge_ranges_def in_ranges_def)
qed

lemma range_cmp_Equal: "range_cmp ip r = Equal \<longleftrightarrow> fst r \<le> ip \<and> ip \<le> snd r"
  by (auto simp: range_cmp_def split_beta not_less)

lemma range_cmp_Less: "range_cmp ip r = Less \<longleftrightarrow> fst r \<le> ip \<and> snd r < ip"
  by (auto simp: range_cmp_def split_beta not_less)

lemma range_cmp_Greater: "range_cmp ip r = Greater \<longleftrightarrow> ip < fst r"
  by (auto simp: range_cmp_def split_beta not_less)

lemma range_cmp_mono: 
  assumes "separated rs"
  shows "cmp_mono (range_cmp ip) rs"
  unfolding cmp_mono_def
proof (rule sorted_wrt_mono_rel)
  show "sorted_wrt (\<lambda>r s. unat (snd r) + 1 < unat (fst s)) rs" using assms by (simp add: separated_def)
next
  fix r s
  assume "r \<in> set rs" "s \<in> set rs" and gap: "unat (snd r) + 1 < unat (fst s)"
  then have "fst r \<le> snd r" "fst s \<le> snd s" "snd r < fst s"
    using assms by (auto simp: separated_def word_less_nat_alt)
  then show "(range_cmp ip r = Greater \<longrightarrow> range_cmp ip s = Greater) \<and>
      (range_cmp ip s = Less \<longrightarrow> range_cmp ip r = Less)"
    unfolding range_cmp_Less range_cmp_Greater by (intro conjI impI; (elim conjE)?; order)
qed

lemma range_search:
  assumes "separated rs"
  shows "(\<exists>i. binary_search_by (range_cmp ip) rs = Inr i) \<longleftrightarrow> in_ranges rs ip"
  unfolding binary_search_by_ok [OF range_cmp_mono [OF assms]] in_ranges_def range_cmp_Equal split_beta ..

section \<open>Membership\<close>

text \<open>The address a rule of the set sees: itself, or the IPv4 address an IPv4-mapped one carries.\<close>

definition ip_net_matches :: "ip_net \<Rightarrow> ip_addr \<Rightarrow> bool" where
  "ip_net_matches n ip \<longleftrightarrow> ip_net_contains n ip \<or>
     (\<exists>v6 v4. ip = V6 v6 \<and> to_ipv4_mapped v6 = Some v4 \<and> ip_net_contains n (V4 v4))"

definition builder_of :: "ip_net list \<Rightarrow> ipset_builder" where
  "builder_of nets = foldl insert_network ipset_builder_new nets"

lemma foldl_insert_network:
  "foldl insert_network b nets =
     \<lparr>b_v4 = b_v4 b @ [(ipv4net_network n, ipv4net_broadcast n). V4Net n \<leftarrow> nets],
      b_v6 = b_v6 b @ [(ipv6net_network n, ipv6net_broadcast n). V6Net n \<leftarrow> nets]\<rparr>"
proof (induction nets arbitrary: b)
  case (Cons n nets)
  then show ?case by (cases n) simp_all
qed simp

lemma builder_of_v4:
  "in_ranges (b_v4 (builder_of nets)) ip \<longleftrightarrow>
     (\<exists>n. V4Net n \<in> set nets \<and> ipv4net_network n \<le> ip \<and> ip \<le> ipv4net_broadcast n)"
  by (fastforce simp: builder_of_def foldl_insert_network ipset_builder_new_def in_ranges_def
      split: ip_net.splits)

lemma builder_of_v6:
  "in_ranges (b_v6 (builder_of nets)) ip \<longleftrightarrow>
     (\<exists>n. V6Net n \<in> set nets \<and> ipv6net_network n \<le> ip \<and> ip \<le> ipv6net_broadcast n)"
  by (fastforce simp: builder_of_def foldl_insert_network ipset_builder_new_def in_ranges_def
      split: ip_net.splits)

lemma builder_of_ordered:
  assumes "\<forall>n\<in>set nets. ip_net_wf n"
  shows "\<forall>(s, e)\<in>set (b_v4 (builder_of nets)). s \<le> e" "\<forall>(s, e)\<in>set (b_v6 (builder_of nets)). s \<le> e"
proof -
  have "V4Net n \<in> set nets \<Longrightarrow> ipv4net_network n \<le> ipv4net_broadcast n"
    "V6Net m \<in> set nets \<Longrightarrow> ipv6net_network m \<le> ipv6net_broadcast m" for n m
    using assms v4.addr_between [of n] v6.addr_between [of m] by (force dest: order_trans)+
  then show "\<forall>(s, e)\<in>set (b_v4 (builder_of nets)). s \<le> e"
    "\<forall>(s, e)\<in>set (b_v6 (builder_of nets)). s \<le> e"
    by (auto simp: builder_of_def foldl_insert_network ipset_builder_new_def split: ip_net.splits)
qed

lemma sum_case_bool: "(case x of Inr _ \<Rightarrow> True | Inl _ \<Rightarrow> False) \<longleftrightarrow> (\<exists>i. x = Inr i)"
  by (cases x) auto

lemma bex_ip_net:
  "(\<exists>n\<in>set nets. P n) \<longleftrightarrow> (\<exists>n. V4Net n \<in> set nets \<and> P (V4Net n)) \<or> (\<exists>n. V6Net n \<in> set nets \<and> P (V6Net n))"
  by (metis ip_net.exhaust)

lemma contains_exact_build:
  assumes "\<forall>n\<in>set nets. ip_net_wf n"
  shows "ipset_contains_exact (ipset_build (builder_of nets)) ip \<longleftrightarrow> (\<exists>n\<in>set nets. ip_net_contains n ip)"
proof (cases ip)
  case (V4 a)
  note m = merge_ranges_sort [OF builder_of_ordered(1) [OF assms]]
  have "ipset_contains_exact (ipset_build (builder_of nets)) ip \<longleftrightarrow>
      (\<exists>n. V4Net n \<in> set nets \<and> ipv4net_network n \<le> a \<and> a \<le> ipv4net_broadcast n)"
    by (simp add: V4 sum_case_bool ipset_build_def merge_u32_def range_search m builder_of_v4)
  also have "\<dots> \<longleftrightarrow> (\<exists>n. V4Net n \<in> set nets \<and> ipv4net_contains n a)"
    using assms v4.contains_iff_range by force
  also have "\<dots> \<longleftrightarrow> (\<exists>n\<in>set nets. ip_net_contains n ip)"
    by (simp add: V4 bex_ip_net)
  finally show ?thesis .
next
  case (V6 a)
  note m = merge_ranges_sort [OF builder_of_ordered(2) [OF assms]]
  have "ipset_contains_exact (ipset_build (builder_of nets)) ip \<longleftrightarrow>
      (\<exists>n. V6Net n \<in> set nets \<and> ipv6net_network n \<le> a \<and> a \<le> ipv6net_broadcast n)"
    by (simp add: V6 sum_case_bool ipset_build_def merge_u128_def range_search m builder_of_v6)
  also have "\<dots> \<longleftrightarrow> (\<exists>n. V6Net n \<in> set nets \<and> ipv6net_contains n a)"
    using assms v6.contains_iff_range by force
  also have "\<dots> \<longleftrightarrow> (\<exists>n\<in>set nets. ip_net_contains n ip)"
    by (simp add: V6 bex_ip_net)
  finally show ?thesis .
qed

lemma contains_build:
  assumes "\<forall>n\<in>set nets. ip_net_wf n"
  shows "ipset_contains (ipset_build (builder_of nets)) ip \<longleftrightarrow> (\<exists>n\<in>set nets. ip_net_matches n ip)"
  unfolding ipset_contains_def ip_net_matches_def contains_exact_build [OF assms]
  by (auto split: ip_addr.splits option.splits)

lemma not_isl_iff: "\<not> isl r \<longleftrightarrow> (\<exists>n. r = Inr n)"
  by (cases r) auto

lemma try_insert_all_conv:
  "try_insert_all b cidrs =
     (case find (isl \<circ> ip_net_from_str) cidrs of
        Some c \<Rightarrow> Inl (projl (ip_net_from_str c))
      | None \<Rightarrow> Inr (foldl insert_network b (map (projr \<circ> ip_net_from_str) cidrs)))"
proof (induction cidrs arbitrary: b)
  case (Cons c cidrs)
  then show ?case
    by (cases "ip_net_from_str c") (simp_all add: ipset_insert_def comp_def split: option.split)
qed simp

lemma try_from_iter_conv:
  "try_from_iter cidrs =
     (case find (isl \<circ> ip_net_from_str) cidrs of
        Some c \<Rightarrow> Inl (projl (ip_net_from_str c))
      | None \<Rightarrow> Inr (ipset_build (builder_of (map (projr \<circ> ip_net_from_str) cidrs))))"
  by (simp add: try_from_iter_def try_insert_all_conv builder_of_def split: option.split)

lemma try_from_iter_InrD:
  assumes "try_from_iter cidrs = Inr s"
  obtains nets where "map ip_net_from_str cidrs = map Inr nets" "s = ipset_build (builder_of nets)"
    "\<forall>n\<in>set nets. ip_net_wf n"
proof
  let ?nets = "map (projr \<circ> ip_net_from_str) cidrs"
  from assms have none: "find (isl \<circ> ip_net_from_str) cidrs = None"
    and s: "s = ipset_build (builder_of ?nets)"
    by (auto simp: try_from_iter_conv split: option.splits)
  from s show "s = ipset_build (builder_of ?nets)" .
  from none show eq: "map ip_net_from_str cidrs = map Inr ?nets"
    by (auto simp: find_None_iff sum.collapse(2))
  have "ip_net_from_str c = Inr (projr (ip_net_from_str c))" if "c \<in> set cidrs" for c
    using eq that by simp
  then show "\<forall>n\<in>set ?nets. ip_net_wf n" using ip_net_from_str_wf by fastforce
qed

section \<open>What a client of the set relies on\<close>

locale address_filter =
  fixes build :: "ip_net list \<Rightarrow> 's"
    and member :: "'s \<Rightarrow> ip_addr \<Rightarrow> bool"
  assumes member_build:
    "\<forall>n\<in>set nets. ip_net_wf n \<Longrightarrow> member (build nets) ip \<longleftrightarrow> (\<exists>n\<in>set nets. ip_net_matches n ip)"
begin

lemma member_empty: "\<not> member (build []) ip"
  by (simp add: member_build)

lemma member_cong:
  assumes "set nets = set nets'" "\<forall>n\<in>set nets. ip_net_wf n"
  shows "member (build nets) ip \<longleftrightarrow> member (build nets') ip"
  using assms by (simp add: member_build)

lemma member_append:
  assumes "\<forall>n\<in>set nets. ip_net_wf n" "\<forall>n\<in>set nets'. ip_net_wf n"
  shows "member (build (nets @ nets')) ip \<longleftrightarrow> member (build nets) ip \<or> member (build nets') ip"
proof -
  have "\<forall>n\<in>set (nets @ nets'). ip_net_wf n" using assms by auto
  then show ?thesis using assms by (simp add: member_build bex_Un)
qed

end

interpretation set_filter: address_filter "\<lambda>nets. ipset_build (builder_of nets)" ipset_contains
  by unfold_locales (rule contains_build)

section \<open>Properties\<close>

text \<open>C1. An address set built from CIDR texts contains an address exactly when one of the texts denotes a
  network that contains it, or that contains the IPv4 address an IPv4-mapped address carries:
  sorting, merging and the binary search lose and invent nothing.\<close>

theorem try_from_iter_contains:
  assumes "try_from_iter cidrs = Inr s"
  shows "ipset_contains s ip \<longleftrightarrow>
    (\<exists>c\<in>set cidrs. \<exists>n. ip_net_from_str c = Inr n \<and> ip_net_matches n ip)"
proof -
  obtain nets where nets: "map ip_net_from_str cidrs = map Inr nets"
      "s = ipset_build (builder_of nets)" "\<forall>n\<in>set nets. ip_net_wf n"
    by (rule try_from_iter_InrD [OF assms])
  have "(\<exists>c\<in>set cidrs. \<exists>n. ip_net_from_str c = Inr n \<and> ip_net_matches n ip) \<longleftrightarrow>
      (\<exists>r\<in>set (map ip_net_from_str cidrs). \<exists>n. r = Inr n \<and> ip_net_matches n ip)"
    by auto
  also have "\<dots> \<longleftrightarrow> (\<exists>n\<in>set nets. ip_net_matches n ip)" by (auto simp: nets(1))
  finally show ?thesis using set_filter.member_build [OF nets(3)] nets(2) by simp
qed

theorem try_from_iter_contains_witness:
  "try_from_iter [''10.0.0.0/8'', ''10.255.0.0/9''] = Inr \<lparr>set_v4 = [(0x0A000000, 0x0AFFFFFF)], set_v6 = []\<rparr> \<and>
   (ipset_contains \<lparr>set_v4 = [(0x0A000000, 0x0AFFFFFF)], set_v6 = []\<rparr> (V6 0xFFFF0A010203) \<longleftrightarrow>
    (\<exists>c\<in>set [''10.0.0.0/8'', ''10.255.0.0/9'']. \<exists>n. ip_net_from_str c = Inr n \<and>
       ip_net_matches n (V6 0xFFFF0A010203)))"
proof -
  have ok: "try_from_iter [''10.0.0.0/8'', ''10.255.0.0/9''] =
      Inr \<lparr>set_v4 = [(0x0A000000, 0x0AFFFFFF)], set_v6 = []\<rparr>"
    by code_simp
  show ?thesis by (rule conjI [OF ok try_from_iter_contains [OF ok]])
qed

text \<open>C4. A built set is in canonical form: its ranges are non-empty, ascending, disjoint and not even
  adjacent, so the binary search is applied to an ordered list and the list is as short as it can be.\<close>

theorem try_from_iter_separated:
  assumes "try_from_iter cidrs = Inr s"
  shows "separated (set_v4 s) \<and> separated (set_v6 s)"
proof -
  obtain nets where nets: "s = ipset_build (builder_of nets)" "\<forall>n\<in>set nets. ip_net_wf n"
    by (rule try_from_iter_InrD [OF assms])
  show ?thesis
    using merge_ranges_sort(1) [OF builder_of_ordered(1) [OF nets(2)]]
      merge_ranges_sort(1) [OF builder_of_ordered(2) [OF nets(2)]]
    by (simp add: nets(1) ipset_build_def merge_u32_def merge_u128_def)
qed

theorem try_from_iter_separated_witness:
  "try_from_iter [''10.128.0.0/9'', ''10.0.0.0/9''] = Inr \<lparr>set_v4 = [(0x0A000000, 0x0AFFFFFF)], set_v6 = []\<rparr> \<and>
   separated [(0x0A000000 :: u32, 0x0AFFFFFF)]"
proof -
  have ok: "try_from_iter [''10.128.0.0/9'', ''10.0.0.0/9''] =
      Inr \<lparr>set_v4 = [(0x0A000000, 0x0AFFFFFF)], set_v6 = []\<rparr>"
    by code_simp
  show ?thesis using try_from_iter_separated [OF ok] by (simp only: ok ipset.simps simp_thms)
qed

text \<open>C6. Building a set from texts fails exactly when a text does not denote a network, and reports the
  error of the first one.\<close>

theorem try_from_iter_error:
  "try_from_iter cidrs = Inl e \<longleftrightarrow>
     (\<exists>pre c post. cidrs = pre @ c # post \<and> ip_net_from_str c = Inl e \<and>
        (\<forall>p\<in>set pre. \<exists>n. ip_net_from_str p = Inr n))"
proof -
  have "find (isl \<circ> ip_net_from_str) cidrs = Some c \<Longrightarrow>
      ip_net_from_str c = Inl (projl (ip_net_from_str c))" for c
    by (auto simp: find_Some_split)
  then have "try_from_iter cidrs = Inl e \<longleftrightarrow>
      (\<exists>c. find (isl \<circ> ip_net_from_str) cidrs = Some c \<and> ip_net_from_str c = Inl e)"
    by (cases "find (isl \<circ> ip_net_from_str) cidrs") (auto simp: try_from_iter_conv)
  also have "\<dots> \<longleftrightarrow> (\<exists>pre c post. cidrs = pre @ c # post \<and> ip_net_from_str c = Inl e \<and>
        (\<forall>p\<in>set pre. \<exists>n. ip_net_from_str p = Inr n))"
    unfolding find_Some_split comp_def not_isl_iff using sum.disc(1) [of e] by (metis (no_types, lifting))
  finally show ?thesis .
qed

theorem try_from_iter_error_witness:
  "try_from_iter [''10.0.0.0/8'', ''10.0.0.0/33''] = Inl (InvalidPrefixLength 33 32)"
proof -
  have "ip_net_from_str ''10.0.0.0/8'' = Inr (V4Net \<lparr>v4_addr = 0x0A000000, v4_prefix = 8\<rparr>)"
    "ip_net_from_str ''10.0.0.0/33'' = Inl (InvalidPrefixLength 33 32)"
    by code_simp+
  then show ?thesis
    by (subst try_from_iter_error, intro exI [of _ "[''10.0.0.0/8'']"]) simp
qed

end
