(* ===== verification/Limiter_Config.thy ===== *)
theory Limiter_Config
  imports Ascii
begin

text \<open>
  The configuration of the rate limiter, \<^verbatim>\<open>ophan/src/middlewares/limiter/config.rs\<close>, and the result
  type of \<^verbatim>\<open>limiter/algorithm/mod.rs\<close>. The type variable of the record is the type of the compiled
  URL patterns that skip the limiter.
\<close>

record limiter_rate =
  rate_requests :: u64
  rate_per :: duration

definition limiter_rate_of_pair :: "u64 \<times> u64 \<Rightarrow> limiter_rate" where
  "limiter_rate_of_pair v = \<lparr>rate_requests = fst v, rate_per = from_secs (snd v)\<rparr>"

definition pair_of_limiter_rate :: "limiter_rate \<Rightarrow> u64 \<times> u64" where
  "pair_of_limiter_rate v = (rate_requests v, as_secs (rate_per v))"

definition limiter_rate_default :: limiter_rate where
  "limiter_rate_default = \<lparr>rate_requests = 60, rate_per = from_secs 60\<rparr>"

datatype rate_limit_algorithm = SlidingWindow | TokenBucket

datatype limiter_identifier = Ip | Header string | Token string

record 'p limiter_config =
  cfg_rate :: limiter_rate
  cfg_burst :: u64
  cfg_algorithm :: rate_limit_algorithm
  cfg_identifier :: limiter_identifier
  cfg_skip_patterns :: "'p option"
  cfg_scope :: u64

text \<open>The counter behind \<^verbatim>\<open>next_scope\<close> is a static; its value is passed in and out.\<close>

definition next_scope :: "u64 \<Rightarrow> u64 \<times> u64" where
  "next_scope counter = (counter, counter + 1)"

definition cfg_limit :: "'p limiter_config \<Rightarrow> u64" where
  "cfg_limit cfg = rate_requests (cfg_rate cfg)"

definition cfg_window :: "'p limiter_config \<Rightarrow> u64" where
  "cfg_window cfg = as_secs (rate_per (cfg_rate cfg))"

definition bucket_capacity :: "'p limiter_config \<Rightarrow> u64" where
  "bucket_capacity cfg = rate_requests (cfg_rate cfg) + cfg_burst cfg"

definition limiter_config_default :: "u64 \<Rightarrow> 'p limiter_config \<times> u64" where
  "limiter_config_default counter =
     (let (s, counter') = next_scope counter in
      (\<lparr>cfg_rate = limiter_rate_default, cfg_burst = 15, cfg_algorithm = SlidingWindow, cfg_identifier = Ip,
        cfg_skip_patterns = None, cfg_scope = s\<rparr>, counter'))"

definition rate_limit_algorithm_from_str :: "string \<Rightarrow> string + rate_limit_algorithm" where
  "rate_limit_algorithm_from_str v =
     (if v = ''sliding_window'' \<or> v = ''sliding-window'' then Inr SlidingWindow
      else if v = ''token_bucket'' \<or> v = ''token-bucket'' then Inr TokenBucket
      else Inl (''invalid rate limit algorithm '' @ [CHR 0x27] @ v @ [CHR 0x27] @
        '', expected one of: sliding_window, token_bucket''))"

fun rate_limit_algorithm_to_str :: "rate_limit_algorithm \<Rightarrow> string" where
  "rate_limit_algorithm_to_str SlidingWindow = ''sliding_window''"
| "rate_limit_algorithm_to_str TokenBucket = ''token_bucket''"

definition limiter_identifier_from_str :: "string \<Rightarrow> string + limiter_identifier" where
  "limiter_identifier_from_str s =
     (let trimmed = trim s in
      if eq_ignore_ascii_case trimmed ''ip'' then Inr Ip
      else if eq_ignore_ascii_case trimmed ''header'' then Inr (Header ''authorization'')
      else case strip_prefix ''header:'' trimmed of
        Some header_name \<Rightarrow>
          (let name = trim header_name in
           if name = [] then Inl (''Header name cannot be empty after '' @ [CHR 0x27] @ ''header:'' @
             [CHR 0x27] @ '' prefix'')
           else Inr (Header (to_ascii_lowercase name)))
      | None \<Rightarrow>
          (if eq_ignore_ascii_case trimmed ''token'' then Inr (Token ''sub'')
           else case strip_prefix ''token:'' trimmed of
             Some token_path \<Rightarrow>
               (let path = trim token_path in
                if path = [] then Inl (''Token claim path cannot be empty after '' @ [CHR 0x27] @
                  ''token:'' @ [CHR 0x27] @ '' prefix'')
                else Inr (Token path))
           | None \<Rightarrow>
               Inl (''invalid identifier '' @ [CHR 0x27] @ s @ [CHR 0x27] @ '', expected '' @
                 [CHR 0x27] @ ''ip'' @ [CHR 0x27] @ '', '' @ [CHR 0x27] @ ''header'' @ [CHR 0x27] @
                 '', '' @ [CHR 0x27] @ ''header:<name>'' @ [CHR 0x27] @ '', '' @ [CHR 0x27] @ ''token'' @
                 [CHR 0x27] @ '', or '' @ [CHR 0x27] @ ''token:<claim>'' @ [CHR 0x27])))"

section \<open>The result of a check\<close>

record rate_limit_result =
  res_allowed :: bool
  res_remaining :: u64
  res_retry_after :: u64
  res_reset_after :: u64

lemma algorithm_roundtrip: "rate_limit_algorithm_from_str (rate_limit_algorithm_to_str a) = Inr a"
  by (cases a) (simp_all add: rate_limit_algorithm_from_str_def)

lemma limiter_rate_roundtrip: "pair_of_limiter_rate (limiter_rate_of_pair v) = v"
  by (simp add: pair_of_limiter_rate_def limiter_rate_of_pair_def from_secs_def as_secs_def)

section \<open>What the store relies on\<close>

text \<open>A sequence of checks on one state; \<open>None\<close> is a panic.\<close>

fun limiter_run ::
  "('s \<Rightarrow> u64 \<Rightarrow> ('s \<times> rate_limit_result) option) \<Rightarrow> 's \<Rightarrow> u64 list \<Rightarrow>
   (u64 \<times> rate_limit_result) list option" where
  "limiter_run check s [] = Some []"
| "limiter_run check s (now_ms # calls) =
     (case check s now_ms of
        None \<Rightarrow> None
      | Some (s', r) \<Rightarrow> map_option (\<lambda>rs. (now_ms, r) # rs) (limiter_run check s' calls))"

text \<open>The store drops states that are idle. It may, if an idle state answers like a fresh one from then
  on: \<open>like t\<close> relates states that no check at time \<open>t\<close> or later tells apart.\<close>

locale evictable_limiter =
  fixes check :: "'s \<Rightarrow> u64 \<Rightarrow> ('s \<times> rate_limit_result) option"
    and idle :: "'s \<Rightarrow> u64 \<Rightarrow> bool"
    and like :: "u64 \<Rightarrow> 's \<Rightarrow> 's \<Rightarrow> bool"
    and fresh :: "'s \<Rightarrow> 's"
  assumes like_idle: "idle s t \<Longrightarrow> like t s (fresh s)"
    and like_check: "like t s s' \<Longrightarrow> t \<le> t' \<Longrightarrow>
      rel_option (\<lambda>(u, r) (u', r'). like t' u u' \<and> r = r') (check s t') (check s' t')"
begin

lemma like_run:
  "like t s s' \<Longrightarrow> sorted (t # calls) \<Longrightarrow> limiter_run check s calls = limiter_run check s' calls"
proof (induction calls arbitrary: t s s')
  case (Cons c calls)
  have "t \<le> c" "sorted (c # calls)" using Cons.prems(2) by auto
  have rel: "rel_option (\<lambda>(u, r) (u', r'). like c u u' \<and> r = r') (check s c) (check s' c)"
    by (rule like_check [OF Cons.prems(1) \<open>t \<le> c\<close>])
  show ?case
  proof (cases "check s c")
    case None
    then show ?thesis using rel by (simp add: option.rel_sel)
  next
    case (Some p)
    obtain u r where "p = (u, r)" by (cases p)
    moreover from this obtain u' where "check s' c = Some (u', r)" "like c u u'"
      using rel Some by (auto simp: option_rel_Some1)
    ultimately show ?thesis using Some Cons.IH [of c u u'] \<open>sorted (c # calls)\<close> by simp
  qed
qed simp

lemma idle_run:
  "idle s t \<Longrightarrow> sorted (t # calls) \<Longrightarrow> limiter_run check s calls = limiter_run check (fresh s) calls"
  by (rule like_run [OF like_idle])

end

end
