(* ===== verification/Token_Bucket.thy ===== *)
theory Token_Bucket
  imports Limiter_Config
begin

text \<open>
  The token bucket of \<^verbatim>\<open>ophan/src/middlewares/limiter/algorithm/token_bucket.rs\<close>. \<open>tb_attempt\<close> is one
  turn of the compare-and-swap loop; \<open>tb_check\<close> is a check that nobody disturbs, and \<open>tb_step\<close> the
  system of concurrent checks on one bucket, in which a thread's compare-and-swap may fail, for a
  conflict or spuriously, at any turn.
\<close>

record token_bucket =
  emission_ns :: u64
  tolerance_ns :: u64
  tb_window_secs :: u64
  tat_ns :: u64

definition NANOS_PER_MS :: u64 where "NANOS_PER_MS = 1000000"
definition NANOS_PER_SEC :: u64 where "NANOS_PER_SEC = 1000000000"

text \<open>\<open>None\<close> is the failed assertion on an empty window.\<close>

definition token_bucket_new :: "'p limiter_config \<Rightarrow> token_bucket option" where
  "token_bucket_new cfg =
     (let lim = cfg_limit cfg; window_secs = cfg_window cfg in
      if \<not> window_secs > 0 then None
      else
        let window_ns = sat_mul window_secs NANOS_PER_SEC;
            emission = (if lim = 0 then 0 else max (window_ns div lim) 1);
            capacity = sat_add lim (cfg_burst cfg);
            tolerance = sat_mul emission capacity
        in Some \<lparr>emission_ns = emission, tolerance_ns = tolerance, tb_window_secs = window_secs,
             tat_ns = 0\<rparr>)"

definition tb_is_idle :: "token_bucket \<Rightarrow> u64 \<Rightarrow> bool" where
  "tb_is_idle b now_ms \<longleftrightarrow> tat_ns b \<le> sat_mul now_ms NANOS_PER_MS"

text \<open>One turn of the loop: \<open>Inl\<close> is the rejection, \<open>Inr\<close> the new time to install and the result to
  return if the compare-and-swap succeeds.\<close>

definition tb_attempt ::
  "token_bucket \<Rightarrow> u64 \<Rightarrow> u64 \<Rightarrow> rate_limit_result + (u64 \<times> rate_limit_result)" where
  "tb_attempt b now_ms tat =
     (let now = sat_mul now_ms NANOS_PER_MS;
          limit_at = sat_add now (tolerance_ns b);
          new_tat = sat_add (max tat now) (emission_ns b)
      in if new_tat > limit_at then
           (let wait_ns = new_tat - limit_at in
            Inl \<lparr>res_allowed = False, res_remaining = 0,
              res_retry_after = div_ceil wait_ns NANOS_PER_SEC,
              res_reset_after = div_ceil (max tat now - now) NANOS_PER_SEC\<rparr>)
         else
           Inr (new_tat, \<lparr>res_allowed = True, res_remaining = (limit_at - new_tat) div emission_ns b,
             res_retry_after = 0, res_reset_after = div_ceil (new_tat - now) NANOS_PER_SEC\<rparr>))"

definition tb_disabled_result :: "token_bucket \<Rightarrow> rate_limit_result" where
  "tb_disabled_result b =
     \<lparr>res_allowed = False, res_remaining = 0, res_retry_after = tb_window_secs b,
      res_reset_after = tb_window_secs b\<rparr>"

definition tb_check :: "token_bucket \<Rightarrow> u64 \<Rightarrow> token_bucket \<times> rate_limit_result" where
  "tb_check b now_ms =
     (if emission_ns b = 0 then (b, tb_disabled_result b)
      else case tb_attempt b now_ms (tat_ns b) of
        Inl r \<Rightarrow> (b, r)
      | Inr (new_tat, r) \<Rightarrow> (b\<lparr>tat_ns := new_tat\<rparr>, r))"

section \<open>Concurrent checks\<close>

text \<open>A thread is outside, inside the loop with the time it was called at and the arrival time it read
  last, or has returned. \<open>admitted\<close> records the call times of the admitted requests in the order of
  their successful exchanges.\<close>

datatype tb_thread = Outside | Looping u64 u64 | Returned rate_limit_result

record tb_system =
  bucket :: token_bucket
  threads :: "nat \<Rightarrow> tb_thread"
  admitted :: "u64 list"

inductive tb_step :: "tb_system \<Rightarrow> tb_system \<Rightarrow> bool" where
  disabled: "threads s t = Outside \<Longrightarrow> emission_ns (bucket s) = 0 \<Longrightarrow>
    tb_step s (s\<lparr>threads := (threads s)(t := Returned (tb_disabled_result (bucket s)))\<rparr>)"
| load: "threads s t = Outside \<Longrightarrow> emission_ns (bucket s) \<noteq> 0 \<Longrightarrow>
    tb_step s (s\<lparr>threads := (threads s)(t := Looping now_ms (tat_ns (bucket s)))\<rparr>)"
| reject: "threads s t = Looping now_ms tat \<Longrightarrow> tb_attempt (bucket s) now_ms tat = Inl r \<Longrightarrow>
    tb_step s (s\<lparr>threads := (threads s)(t := Returned r)\<rparr>)"
| cas_ok: "threads s t = Looping now_ms tat \<Longrightarrow> tb_attempt (bucket s) now_ms tat = Inr (new_tat, r) \<Longrightarrow>
    tat_ns (bucket s) = tat \<Longrightarrow>
    tb_step s (s\<lparr>bucket := (bucket s)\<lparr>tat_ns := new_tat\<rparr>, threads := (threads s)(t := Returned r),
      admitted := admitted s @ [now_ms]\<rparr>)"
| cas_err: "threads s t = Looping now_ms tat \<Longrightarrow> tb_attempt (bucket s) now_ms tat = Inr (new_tat, r) \<Longrightarrow>
    tb_step s (s\<lparr>threads := (threads s)(t := Looping now_ms (tat_ns (bucket s)))\<rparr>)"
| leave: "threads s t = Returned r \<Longrightarrow>
    tb_step s (s\<lparr>threads := (threads s)(t := Outside)\<rparr>)"

inductive_cases tb_stepE: "tb_step s s'"

definition tb_start :: "token_bucket \<Rightarrow> tb_system" where
  "tb_start b = \<lparr>bucket = b, threads = (\<lambda>_. Outside), admitted = []\<rparr>"

section \<open>One attempt\<close>

abbreviation ns :: "u64 \<Rightarrow> nat" where
  "ns now_ms \<equiv> unat (sat_mul now_ms NANOS_PER_MS)"

lemma attempt_admits:
  assumes "tb_attempt b now_ms tat = Inr (new_tat, r)"
  shows "new_tat = sat_add (max tat (sat_mul now_ms NANOS_PER_MS)) (emission_ns b)"
    and "unat new_tat \<le> ns now_ms + unat (tolerance_ns b)"
    and "new_tat \<le> sat_add (sat_mul now_ms NANOS_PER_MS) (tolerance_ns b)" and "res_allowed r"
proof -
  have eq: "new_tat = sat_add (max tat (sat_mul now_ms NANOS_PER_MS)) (emission_ns b)"
    and le: "new_tat \<le> sat_add (sat_mul now_ms NANOS_PER_MS) (tolerance_ns b)" and r: "res_allowed r"
    using assms by (auto simp: tb_attempt_def Let_def not_less split: if_splits)
  then show "new_tat = sat_add (max tat (sat_mul now_ms NANOS_PER_MS)) (emission_ns b)"
    "new_tat \<le> sat_add (sat_mul now_ms NANOS_PER_MS) (tolerance_ns b)" "res_allowed r" by blast+
  from le show "unat new_tat \<le> ns now_ms + unat (tolerance_ns b)"
    by (simp add: word_le_nat_alt unat_sat_add)
qed

lemma attempt_new_tat:
  assumes "tb_attempt b now_ms tat = Inr (new_tat, r)"
    and room: "ns now_ms + unat (tolerance_ns b) < 2 ^ 64 - 1"
  shows "unat new_tat = max (unat tat) (ns now_ms) + unat (emission_ns b)"
  using attempt_admits [OF assms(1)] room by (simp add: unat_sat_add unat_max min_def split: if_splits)

lemma attempt_tat_mono:
  "tb_attempt b now_ms tat = Inr (new_tat, r) \<Longrightarrow> tat \<le> new_tat"
  using attempt_admits(1) [of b now_ms tat new_tat r] unat_lt_exp [of tat]
  by (simp add: word_le_nat_alt unat_sat_add unat_max)

lemma attempt_reject_mono:
  assumes "tb_attempt b now_ms tat = Inl r" "tat \<le> tat'"
  shows "\<exists>r'. tb_attempt b now_ms tat' = Inl r' \<and> res_allowed r' = res_allowed r"
proof -
  have "sat_add (max tat (sat_mul now_ms NANOS_PER_MS)) (emission_ns b) \<le>
      sat_add (max tat' (sat_mul now_ms NANOS_PER_MS)) (emission_ns b)"
    using assms(2) by (auto simp: word_le_nat_alt unat_sat_add unat_max)
  then show ?thesis using assms(1) by (auto simp: tb_attempt_def Let_def split: if_splits)
qed

lemma attempt_bucket_irrelevant [simp]:
  "tb_attempt (b\<lparr>tat_ns := t\<rparr>) now_ms tat = tb_attempt b now_ms tat"
  by (simp add: tb_attempt_def Let_def)

lemma step_frame:
  "tb_step s s' \<Longrightarrow> emission_ns (bucket s') = emission_ns (bucket s) \<and>
   tolerance_ns (bucket s') = tolerance_ns (bucket s) \<and>
   tb_window_secs (bucket s') = tb_window_secs (bucket s) \<and> tat_ns (bucket s) \<le> tat_ns (bucket s')"
  by (erule tb_stepE) (auto dest: attempt_tat_mono)

lemma steps_frame:
  "tb_step\<^sup>*\<^sup>* s s' \<Longrightarrow> emission_ns (bucket s') = emission_ns (bucket s) \<and>
   tolerance_ns (bucket s') = tolerance_ns (bucket s)"
  by (induction rule: rtranclp_induct) (auto dest: step_frame)

lemma steps_admitted: "tb_step\<^sup>*\<^sup>* s s' \<Longrightarrow> \<exists>new. admitted s' = admitted s @ new"
  by (induction rule: rtranclp_induct) (auto elim!: tb_stepE)

definition tb_window_inv :: "tb_system \<Rightarrow> nat \<Rightarrow> nat \<Rightarrow> u64 list \<Rightarrow> bool" where
  "tb_window_inv s lo hi new \<longleftrightarrow> new = [] \<or>
     lo + length new * unat (emission_ns (bucket s)) \<le> unat (tat_ns (bucket s)) \<and>
     unat (tat_ns (bucket s)) \<le> hi + unat (tolerance_ns (bucket s))"

lemma window_inv_admit:
  assumes "tb_window_inv s lo hi new" "tb_attempt (bucket s) now_ms (tat_ns (bucket s)) = Inr (new_tat, r)"
    and "lo \<le> ns now_ms" "ns now_ms \<le> hi" "hi + unat (tolerance_ns (bucket s)) < 2 ^ 64 - 1"
  shows "tb_window_inv (s\<lparr>bucket := (bucket s)\<lparr>tat_ns := new_tat\<rparr>, threads := th, admitted := ad\<rparr>) lo hi (new @ [now_ms])"
proof -
  have room: "ns now_ms + unat (tolerance_ns (bucket s)) < 2 ^ 64 - 1" using assms(4,5) by linarith
  have new_tat: "unat new_tat = max (unat (tat_ns (bucket s))) (ns now_ms) + unat (emission_ns (bucket s))"
    by (rule attempt_new_tat [OF assms(2) room])
  have "unat new_tat \<le> ns now_ms + unat (tolerance_ns (bucket s))"
    by (rule attempt_admits(2) [OF assms(2)])
  moreover have "lo + length new * unat (emission_ns (bucket s)) \<le> max (unat (tat_ns (bucket s))) (ns now_ms)"
    using assms(1,3) by (auto simp: tb_window_inv_def le_max_iff_disj)
  ultimately show ?thesis using assms(4) by (simp add: tb_window_inv_def new_tat)
qed

lemma steps_window_inv:
  assumes "tb_step\<^sup>*\<^sup>* s s'" "hi + unat (tolerance_ns (bucket s)) < 2 ^ 64 - 1"
  shows "admitted s' = admitted s @ new \<Longrightarrow> \<forall>n\<in>set new. lo \<le> ns n \<and> ns n \<le> hi \<Longrightarrow>
    tb_window_inv s' lo hi new"
  using assms(1)
proof (induction arbitrary: new rule: rtranclp_induct)
  case base
  then show ?case by (simp add: tb_window_inv_def)
next
  case (step y z)
  have frame: "tolerance_ns (bucket y) = tolerance_ns (bucket s)" using steps_frame [OF step(1)] by simp
  from step(2) show ?case
  proof (cases rule: tb_step.cases)
    case (cas_ok t now_ms tat new_tat r)
    obtain new0 where new0: "admitted y = admitted s @ new0" using steps_admitted [OF step(1)] by blast
    then have new: "new = new0 @ [now_ms]" using cas_ok(1) step.prems(1) by simp
    have "tb_window_inv y lo hi new0" using step.IH [OF new0] step.prems(2) new by simp
    then show ?thesis
      unfolding cas_ok(1) new using cas_ok(3,4) step.prems(2) new assms(2) frame
      by (intro window_inv_admit) auto
  qed (use step.IH [of new] step.prems in \<open>simp_all add: tb_window_inv_def\<close>)
qed

lemma tb_rate_bound_aux:
  assumes "tb_step\<^sup>*\<^sup>* s s'" "admitted s' = admitted s @ new" "\<forall>n\<in>set new. lo \<le> ns n \<and> ns n \<le> hi"
    and "hi + unat (tolerance_ns (bucket s)) < 2 ^ 64 - 1"
  shows "length new * unat (emission_ns (bucket s)) \<le> (hi - lo) + unat (tolerance_ns (bucket s))"
  using steps_window_inv [OF assms(1,4,2,3)] steps_frame [OF assms(1)] by (auto simp: tb_window_inv_def)

definition tb_threads_inv :: "tb_system \<Rightarrow> bool" where
  "tb_threads_inv s \<longleftrightarrow>
     (\<forall>t now_ms tat. threads s t = Looping now_ms tat \<longrightarrow>
        tat \<le> tat_ns (bucket s) \<and> emission_ns (bucket s) \<noteq> 0)"

lemma step_threads_inv:
  assumes "tb_step s s'" "tb_threads_inv s"
  shows "tb_threads_inv s'"
  using assms step_frame [OF assms(1)]
  by (cases rule: tb_step.cases) (auto simp: tb_threads_inv_def intro: order_trans)

lemma start_threads_inv: "tb_step\<^sup>*\<^sup>* (tb_start b) s \<Longrightarrow> tb_threads_inv s"
proof (induction rule: rtranclp_induct)
  case base
  then show ?case by (simp add: tb_start_def tb_threads_inv_def)
qed (rule step_threads_inv)

lemma tb_check_attempt:
  "emission_ns b \<noteq> 0 \<Longrightarrow> tb_check b now_ms =
    (case tb_attempt b now_ms (tat_ns b) of Inl r \<Rightarrow> (b, r) | Inr (nt, r) \<Rightarrow> (b\<lparr>tat_ns := nt\<rparr>, r))"
  by (simp add: tb_check_def)

lemma return_linearizes:
  assumes inv: "tb_threads_inv s" and step: "tb_step s s'"
    and "threads s t = Looping now_ms tat" "threads s' t = Returned r"
  shows "bucket s' = fst (tb_check (bucket s) now_ms) \<and>
    res_allowed r = res_allowed (snd (tb_check (bucket s) now_ms)) \<and>
    (res_allowed r \<longrightarrow> r = snd (tb_check (bucket s) now_ms))"
proof -
  have em: "emission_ns (bucket s) \<noteq> 0" and le: "tat \<le> tat_ns (bucket s)"
    using inv assms(3) by (auto simp: tb_threads_inv_def)
  from step show ?thesis
  proof (cases rule: tb_step.cases)
    case (reject t' now' tat' r')
    then have "t' = t" using assms(3,4) by (auto split: if_splits)
    then have r: "tb_attempt (bucket s) now_ms tat = Inl r" using reject assms(3,4) by auto
    then have "\<not> res_allowed r" by (auto simp: tb_attempt_def Let_def split: if_splits)
    then show ?thesis using reject(1) attempt_reject_mono [OF r le] by (auto simp: tb_check_attempt [OF em])
  next
    case (cas_ok t' now' tat' nt r')
    then have "t' = t" using assms(3,4) by (auto split: if_splits)
    then show ?thesis using cas_ok assms(3,4) by (auto simp: tb_check_attempt [OF em])
  qed (use assms(3,4) in \<open>auto split: if_splits\<close>)
qed

text \<open>The steps of the system while thread \<open>t\<close> is inside one call, and the states of that call whose arrival
  time the thread read last.\<close>

definition tb_calling :: "nat \<Rightarrow> u64 \<Rightarrow> tb_system \<Rightarrow> tb_system \<Rightarrow> bool" where
  "tb_calling t now_ms s s' \<longleftrightarrow> tb_step s s' \<and> (\<exists>tat. threads s t = Looping now_ms tat) \<and>
     (\<exists>tat. threads s' t = Looping now_ms tat)"

definition tb_read :: "token_bucket \<Rightarrow> tb_system \<Rightarrow> nat \<Rightarrow> u64 \<Rightarrow> u64 \<Rightarrow> tb_system \<Rightarrow> bool" where
  "tb_read b s t now_ms tat s0 \<longleftrightarrow> tb_step\<^sup>*\<^sup>* (tb_start b) s0 \<and> (tb_calling t now_ms)\<^sup>*\<^sup>* s0 s \<and>
     tat_ns (bucket s0) = tat \<and> (\<exists>tat. threads s0 t = Looping now_ms tat)"

lemma calling_steps: "(tb_calling t now_ms)\<^sup>*\<^sup>* s s' \<Longrightarrow> tb_step\<^sup>*\<^sup>* s s'"
  by (induction rule: rtranclp_induct) (auto simp: tb_calling_def)

lemma step_read:
  assumes "tb_step\<^sup>*\<^sup>* (tb_start b) s" "tb_step s s'" "threads s' t = Looping now_ms tat"
    and "\<And>tat. threads s t = Looping now_ms tat \<Longrightarrow> \<exists>s0. tb_read b s t now_ms tat s0"
  shows "\<exists>s0. tb_read b s' t now_ms tat s0"
proof -
  have run: "tb_step\<^sup>*\<^sup>* (tb_start b) s'" using assms(1,2) by simp
  have "threads s t = Looping now_ms tat \<or> tat_ns (bucket s') = tat"
    using assms(2,3) by (cases rule: tb_step.cases) (auto split: if_splits)
  then show ?thesis
  proof
    assume l: "threads s t = Looping now_ms tat"
    then obtain s0 where s0: "tb_read b s t now_ms tat s0" using assms(4) by blast
    have "tb_calling t now_ms s s'" using assms(2,3) l by (simp add: tb_calling_def)
    with s0 have "tb_read b s' t now_ms tat s0"
      unfolding tb_read_def by (blast intro: rtranclp.rtrancl_into_rtrancl)
    then show ?thesis by blast
  next
    assume "tat_ns (bucket s') = tat"
    then have "tb_read b s' t now_ms tat s'" using run assms(3) by (simp add: tb_read_def)
    then show ?thesis by blast
  qed
qed

lemma looping_read:
  "tb_step\<^sup>*\<^sup>* (tb_start b) s \<Longrightarrow> threads s t = Looping now_ms tat \<Longrightarrow> \<exists>s0. tb_read b s t now_ms tat s0"
proof (induction arbitrary: tat rule: rtranclp_induct)
  case base
  then show ?case by (simp add: tb_start_def)
next
  case (step s s')
  show ?case by (rule step_read [OF step(1,2,4) step.IH])
qed

lemma attempt_frame:
  "emission_ns b = emission_ns b' \<Longrightarrow> tolerance_ns b = tolerance_ns b' \<Longrightarrow> tb_attempt b now_ms tat = tb_attempt b' now_ms tat"
  by (simp add: tb_attempt_def Let_def)

lemma return_reads:
  assumes run: "tb_step\<^sup>*\<^sup>* (tb_start b) s" and step: "tb_step s s'"
    and "threads s t = Looping now_ms tat" "threads s' t = Returned r"
  shows "\<exists>s0. tb_step\<^sup>*\<^sup>* (tb_start b) s0 \<and> (tb_calling t now_ms)\<^sup>*\<^sup>* s0 s \<and>
    (\<exists>tat. threads s0 t = Looping now_ms tat) \<and> r = snd (tb_check (bucket s0) now_ms)"
proof (cases "res_allowed r")
  case True
  then have "r = snd (tb_check (bucket s) now_ms)"
    using return_linearizes [OF start_threads_inv [OF run] step assms(3,4)] by blast
  with run assms(3) show ?thesis by (intro exI [of _ s]) simp
next
  case False
  obtain s0 where s0: "tb_read b s t now_ms tat s0" using looping_read [OF run assms(3)] by blast
  then have fr: "emission_ns (bucket s) = emission_ns (bucket s0)" "tolerance_ns (bucket s) = tolerance_ns (bucket s0)"
    using steps_frame [OF calling_steps, of t now_ms s0 s] by (simp_all add: tb_read_def)
  have "tb_attempt (bucket s) now_ms tat = Inl r"
    using step
  proof (cases rule: tb_step.cases)
    case (cas_ok t' now' tat' nt r')
    then have "t' = t" using assms(3,4) by (auto split: if_splits)
    then show ?thesis using cas_ok(1) assms(4) attempt_admits(4) [OF cas_ok(3)] False by simp
  qed (use assms(3,4) in \<open>auto split: if_splits\<close>)
  then have "tb_attempt (bucket s0) now_ms (tat_ns (bucket s0)) = Inl r"
    using attempt_frame [OF fr] s0 by (simp add: tb_read_def)
  moreover have "emission_ns (bucket s0) \<noteq> 0"
    using start_threads_inv [OF run] assms(3) fr by (auto simp: tb_threads_inv_def)
  ultimately have "r = snd (tb_check (bucket s0) now_ms)" by (simp add: tb_check_attempt)
  with s0 show ?thesis by (intro exI [of _ s0]) (simp add: tb_read_def)
qed

lemma disabled_returns:
  assumes "tb_step s s'" "threads s t = Outside" "threads s' t = Returned r"
  shows "tb_check (bucket s) now_ms = (bucket s', r)"
  using assms by (cases rule: tb_step.cases) (auto simp: tb_check_def split: if_splits)







section \<open>Runs\<close>


definition capacity :: "'p limiter_config \<Rightarrow> nat" where
  "capacity cfg = unat (cfg_limit cfg) + unat (cfg_burst cfg)"

lemma new_bucket:
  assumes "token_bucket_new cfg = Some b" "0 < cfg_limit cfg"
    and "unat (emission_ns b) * capacity cfg < 2 ^ 64 - 1"
  shows "emission_ns b \<noteq> 0" "unat (tolerance_ns b) = unat (emission_ns b) * capacity cfg" "tat_ns b = 0"
proof -
  have em: "emission_ns b = max (sat_mul (cfg_window cfg) NANOS_PER_SEC div cfg_limit cfg) 1"
    and tol: "tolerance_ns b = sat_mul (emission_ns b) (sat_add (cfg_limit cfg) (cfg_burst cfg))"
    and tat: "tat_ns b = 0"
    using assms(1,2) by (auto simp: token_bucket_new_def Let_def split: if_splits)
  have ge: "1 \<le> unat (emission_ns b)" using em by (simp add: unat_max le_max_iff_disj)
  then show "emission_ns b \<noteq> 0" by auto
  have "1 * capacity cfg \<le> unat (emission_ns b) * capacity cfg" using ge by (rule mult_le_mono1)
  then have "capacity cfg < 2 ^ 64 - 1" using assms(3) by linarith
  then have "unat (sat_add (cfg_limit cfg) (cfg_burst cfg)) = capacity cfg"
    by (simp add: unat_sat_add capacity_def)
  then show "unat (tolerance_ns b) = unat (emission_ns b) * capacity cfg"
    using tol assms(3) by (simp add: unat_sat_mul)
  show "tat_ns b = 0" by (rule tat)
qed





section \<open>Idle buckets\<close>

definition tb_like :: "u64 \<Rightarrow> token_bucket \<Rightarrow> token_bucket \<Rightarrow> bool" where
  "tb_like t b b' \<longleftrightarrow> emission_ns b = emission_ns b' \<and> tolerance_ns b = tolerance_ns b' \<and>
     tb_window_secs b = tb_window_secs b' \<and>
     (tat_ns b = tat_ns b' \<or>
      tat_ns b \<le> sat_mul t NANOS_PER_MS \<and> tat_ns b' \<le> sat_mul t NANOS_PER_MS)"

definition tb_fresh :: "token_bucket \<Rightarrow> token_bucket" where
  "tb_fresh b = b\<lparr>tat_ns := 0\<rparr>"

lemma sat_mul_mono: "a \<le> b \<Longrightarrow> sat_mul a c \<le> sat_mul b (c :: 'a::len word)"
  by (simp add: word_le_nat_alt unat_sat_mul min.coboundedI1)

interpretation tb: evictable_limiter "\<lambda>b t. Some (tb_check b t)" tb_is_idle tb_like tb_fresh
proof unfold_locales
  fix b t
  assume "tb_is_idle b t"
  then show "tb_like t b (tb_fresh b)" by (simp add: tb_is_idle_def tb_like_def tb_fresh_def)
next
  fix b b' t t'
  assume like: "tb_like t b b'" and le: "t \<le> t'"
  let ?now = "sat_mul t' NANOS_PER_MS"
  have mono: "sat_mul t NANOS_PER_MS \<le> ?now" by (rule sat_mul_mono [OF le])
  have same: "emission_ns b' = emission_ns b" "tolerance_ns b' = tolerance_ns b"
    "tb_window_secs b' = tb_window_secs b"
    using like by (simp_all add: tb_like_def)
  have tat: "tat_ns b = tat_ns b' \<or> tat_ns b \<le> ?now \<and> tat_ns b' \<le> ?now"
    using like mono by (auto simp: tb_like_def)
  then have "max (tat_ns b) ?now = max (tat_ns b') ?now" by (auto simp: max_absorb2)
  then have att: "tb_attempt b' t' (tat_ns b') = tb_attempt b t' (tat_ns b)"
    by (simp add: tb_attempt_def same Let_def)
  show "rel_option (\<lambda>(u, r) (u', r'). tb_like t' u u' \<and> r = r')
      (Some (tb_check b t')) (Some (tb_check b' t'))"
    using tat by (auto simp: tb_check_def att same tb_disabled_result_def tb_like_def split: sum.split)
qed


section \<open>Properties\<close>

text \<open>C9. However many threads check one bucket at once, the requests admitted with call times in any
  interval of length \<open>hi - lo\<close> nanoseconds are at most the capacity \<^verbatim>\<open>limit + burst\<close> plus one per
  emission interval that fits into it. The hypotheses keep the nanosecond clock and the tolerance
  below the saturation point of the 64-bit arithmetic.\<close>

theorem tb_admissions_bounded:
  assumes "token_bucket_new cfg = Some b" "0 < cfg_limit cfg"
    and "tb_step\<^sup>*\<^sup>* (tb_start b) s" "tb_step\<^sup>*\<^sup>* s s'" "admitted s' = admitted s @ new"
    and "\<forall>n\<in>set new. lo \<le> ns n \<and> ns n \<le> hi"
    and "hi + unat (emission_ns b) * capacity cfg < 2 ^ 64 - 1"
  shows "length new \<le> capacity cfg + (hi - lo) div unat (emission_ns b)"
proof -
  let ?E = "unat (emission_ns b)"
  note nb = new_bucket [OF assms(1,2)]
  have tol: "unat (tolerance_ns b) = ?E * capacity cfg" and "emission_ns b \<noteq> 0"
    using nb(1,2) assms(7) by simp_all
  then have E: "0 < ?E" by (simp add: unat_gt_0)
  have fr: "emission_ns (bucket s) = emission_ns b" "tolerance_ns (bucket s) = tolerance_ns b"
    using steps_frame [OF assms(3)] by (simp_all add: tb_start_def)
  have "length new * ?E \<le> (hi - lo) + capacity cfg * ?E"
    using tb_rate_bound_aux [OF assms(4-6)] assms(7) tol by (simp add: fr mult.commute)
  then have "length new * ?E div ?E \<le> ((hi - lo) + capacity cfg * ?E) div ?E" by (rule div_le_mono)
  then show ?thesis using E by simp
qed

definition tb_example_cfg :: "unit limiter_config" where
  "tb_example_cfg = \<lparr>cfg_rate = limiter_rate_of_pair (2, 1), cfg_burst = 1, cfg_algorithm = TokenBucket,
     cfg_identifier = Ip, cfg_skip_patterns = None, cfg_scope = 1\<rparr>"

definition tb_example :: token_bucket where
  "tb_example = \<lparr>emission_ns = 500000000, tolerance_ns = 1500000000, tb_window_secs = 1, tat_ns = 0\<rparr>"

lemma tb_example_new: "token_bucket_new tb_example_cfg = Some tb_example"
  by code_simp

definition tb_example_system :: tb_system where
  "tb_example_system = \<lparr>bucket = tb_example\<lparr>tat_ns := 1500000000\<rparr>,
     threads = (\<lambda>_. Outside)(0 := Returned (snd (tb_check tb_example 1000))), admitted = [1000]\<rparr>"

lemma tb_example_steps: "tb_step\<^sup>*\<^sup>* (tb_start tb_example) tb_example_system"
proof -
  let ?s = "(tb_start tb_example)\<lparr>threads := (threads (tb_start tb_example))(0 := Looping 1000 0)\<rparr>"
  have "tb_step (tb_start tb_example) ?s"
    using tb_step.load [of "tb_start tb_example" 0 1000] by (simp add: tb_start_def tb_example_def)
  moreover have att: "tb_attempt tb_example 1000 0 = Inr (1500000000, snd (tb_check tb_example 1000))"
    by code_simp
  have "tb_step ?s tb_example_system"
    using tb_step.cas_ok [of ?s 0 1000 0 "1500000000" "snd (tb_check tb_example 1000)"] att
    by (simp add: tb_start_def tb_example_system_def) (simp add: tb_example_def)
  ultimately show ?thesis by auto
qed

theorem tb_admissions_bounded_witness:
  "tb_step\<^sup>*\<^sup>* (tb_start tb_example) tb_example_system \<and> admitted tb_example_system = [1000] \<and>
   length (admitted tb_example_system) \<le> capacity tb_example_cfg + (2000000000 - 0) div unat (emission_ns tb_example)"
  using tb_admissions_bounded [OF tb_example_new _ rtranclp.rtrancl_refl tb_example_steps, of "[1000]" 0 2000000000] tb_example_steps
  by (simp add: tb_example_cfg_def tb_example_def tb_example_system_def tb_start_def capacity_def
      cfg_limit_def limiter_rate_of_pair_def unat_sat_mul NANOS_PER_MS_def)

text \<open>C12. Every check that returns, from the loop or because the limit is disabled, is linearizable. Its whole
  result, with the remaining count and the two delays, is that of an undisturbed check on the bucket of some moment
  during the call; an admission is exact at the step it returns. At that step the call has the effect on the bucket and
  makes the decision of an undisturbed check, also for a rejection, since the stored arrival time never decreases.\<close>

theorem tb_check_linearizable:
  assumes "tb_step\<^sup>*\<^sup>* (tb_start b) s" "tb_step s s'" "threads s' t = Returned r"
  shows "case threads s t of
      Outside \<Rightarrow> (\<forall>now_ms. tb_check (bucket s) now_ms = (bucket s', r))
    | Looping now_ms tat \<Rightarrow>
        bucket s' = fst (tb_check (bucket s) now_ms) \<and>
        res_allowed r = res_allowed (snd (tb_check (bucket s) now_ms)) \<and>
        (res_allowed r \<longrightarrow> r = snd (tb_check (bucket s) now_ms)) \<and>
        (\<exists>s0. tb_step\<^sup>*\<^sup>* (tb_start b) s0 \<and> (tb_calling t now_ms)\<^sup>*\<^sup>* s0 s \<and>
           (\<exists>tat0. threads s0 t = Looping now_ms tat0) \<and> r = snd (tb_check (bucket s0) now_ms))
    | Returned r' \<Rightarrow> r' = r"
proof (cases "threads s t")
  case Outside
  then show ?thesis using disabled_returns [OF assms(2) Outside assms(3)] by simp
next
  case (Looping now_ms tat)
  then show ?thesis
    using return_linearizes [OF start_threads_inv [OF assms(1)] assms(2) Looping assms(3)]
      return_reads [OF assms(1,2) Looping assms(3)] unfolding Looping tb_thread.case by blast
next
  case (Returned r')
  from assms(2) have "r' = r" using Returned assms(3) by (cases rule: tb_step.cases) (auto split: if_splits)
  then show ?thesis by (simp add: Returned)
qed

theorem tb_check_linearizable_witness:
  "\<exists>s s' r. tb_step s s' \<and> threads s 0 = Looping 1000 4500000000 \<and> threads s' 0 = Returned r \<and>
     \<not> res_allowed r \<and> bucket s' = fst (tb_check (bucket s) 1000)"
proof -
  let ?b = "tb_example\<lparr>tat_ns := 4500000000\<rparr>"
  let ?s = "(tb_start ?b)\<lparr>threads := (threads (tb_start ?b))(0 := Looping 1000 4500000000)\<rparr>"
  let ?r = "snd (tb_check ?b 1000)"
  let ?s' = "?s\<lparr>threads := (threads ?s)(0 := Returned ?r)\<rparr>"
  have 1: "tb_step (tb_start ?b) ?s"
    using tb_step.load [of "tb_start ?b" 0 1000] by (simp add: tb_start_def tb_example_def)
  have "tb_attempt (bucket ?s) 1000 4500000000 = Inl ?r"
    by (simp only: tb_start_def tb_system.simps) code_simp
  from tb_step.reject [of ?s 0 1000 4500000000, OF _ this] have 2: "tb_step ?s ?s'" by simp
  from 1 have 3: "tb_step\<^sup>*\<^sup>* (tb_start ?b) ?s" by blast
  have "bucket ?s' = fst (tb_check (bucket ?s) 1000)"
    using tb_check_linearizable [OF 3 2, of 0 ?r] by simp
  moreover have "\<not> res_allowed ?r" by code_simp
  ultimately show ?thesis using 2 by (intro exI [of _ ?s] exI [of _ ?s'] exI [of _ ?r]) simp
qed





end
