(* ===== verification/Sliding_Window.thy ===== *)
theory Sliding_Window
  imports Limiter_Config F64
begin

text \<open>
  The sliding window of \<^verbatim>\<open>ophan/src/middlewares/limiter/algorithm/sliding_window.rs\<close>. \<open>sw_check\<close> is a
  check that no other thread disturbs: the compare-and-swap on the window and the first one on the
  count succeed. \<open>None\<close> is the panic of the division by an empty window.
\<close>

record sliding_window =
  max_requests :: u64
  sw_window_secs :: u64
  current_window :: u64
  current_count :: u64
  previous_window :: u64
  previous_count :: u64

definition sliding_window_new :: "'p limiter_config \<Rightarrow> sliding_window" where
  "sliding_window_new cfg =
     \<lparr>max_requests = cfg_limit cfg, sw_window_secs = cfg_window cfg, current_window = 0,
      current_count = 0, previous_window = 0, previous_count = 0\<rparr>"

definition sw_is_idle :: "sliding_window \<Rightarrow> u64 \<Rightarrow> bool option" where
  "sw_is_idle w now_ms =
     (if sw_window_secs w * 1000 = 0 then None
      else let window = now_ms div (sw_window_secs w * 1000) in
        Some (sat_add (current_window w) 1 < window))"

definition sw_rollover :: "sliding_window \<Rightarrow> u64 \<Rightarrow> sliding_window" where
  "sw_rollover w window =
     (if current_window w \<noteq> window then
        w\<lparr>current_window := window, current_count := 0, previous_count := current_count w,
          previous_window := current_window w\<rparr>
      else w)"

definition sw_previous :: "sliding_window \<Rightarrow> u64 \<Rightarrow> u64" where
  "sw_previous w window = (if previous_window w + 1 = window then previous_count w else 0)"

definition sw_effective :: "u64 \<Rightarrow> u64 \<Rightarrow> u64 \<Rightarrow> u64 \<Rightarrow> u128" where
  "sw_effective prev count window_size_ms elapsed =
     (ucast prev * ucast (window_size_ms - elapsed)) + (ucast count + 1) * ucast window_size_ms"

definition sw_retry_after_ms :: "sliding_window \<Rightarrow> u64 \<Rightarrow> u64 \<Rightarrow> u64 \<Rightarrow> u64" where
  "sw_retry_after_ms w prev window_size_ms elapsed =
     (let weight = f64_div (f64_of_u64 (window_size_ms - elapsed)) (f64_of_u64 window_size_ms) in
      if prev > 0 then
        (let needed_weight =
           f64_div (f64_sub (f64_of_u64 (max_requests w)) (f64_of_u64 (current_count w))) (f64_of_u64 prev)
         in if needed_weight < weight then
              (let target_elapsed = f64_mul (f64_of_u64 window_size_ms) (f64_sub 1 needed_weight) in
               u64_of_f64 (max (f64_sub target_elapsed (f64_of_u64 elapsed)) 0))
            else window_size_ms - elapsed)
      else window_size_ms - elapsed)"

definition sw_check :: "sliding_window \<Rightarrow> u64 \<Rightarrow> (sliding_window \<times> rate_limit_result) option" where
  "sw_check w now_ms =
     (let window_size_ms = sw_window_secs w * 1000 in
      if window_size_ms = 0 then None
      else
        let window = now_ms div window_size_ms;
            w = sw_rollover w window;
            elapsed = now_ms mod window_size_ms;
            prev = sw_previous w window;
            limit = (ucast (max_requests w) :: u128) * ucast window_size_ms;
            reset = div_ceil (window_size_ms - elapsed) 1000;
            effective = sw_effective prev (current_count w) window_size_ms elapsed
        in if effective > limit then
             Some (w, \<lparr>res_allowed = False, res_remaining = 0,
               res_retry_after = div_ceil (sw_retry_after_ms w prev window_size_ms elapsed) 1000,
               res_reset_after = reset\<rparr>)
           else
             Some (w\<lparr>current_count := current_count w + 1\<rparr>,
               \<lparr>res_allowed = True, res_remaining = ucast ((limit - effective) div ucast window_size_ms),
                res_retry_after = 0, res_reset_after = reset\<rparr>))"

section \<open>The decision in exact arithmetic\<close>

definition window_ms :: "sliding_window \<Rightarrow> nat" where
  "window_ms w = unat (sw_window_secs w) * 1000"

text \<open>A window that fits: its length in milliseconds is not zero and does not wrap, and the products of
  counts and lengths stay below the 128-bit bound.\<close>

definition sw_sane :: "sliding_window \<Rightarrow> bool" where
  "sw_sane w \<longleftrightarrow> 0 < sw_window_secs w \<and> unat (sw_window_secs w) * 1000 < 2 ^ 62"

lemma unat_window_ms: "sw_sane w \<Longrightarrow> unat (sw_window_secs w * 1000) = window_ms w"
  by (simp add: sw_sane_def window_ms_def unat_word_ariths)

lemma window_ms_pos: "sw_sane w \<Longrightarrow> 0 < window_ms w"
  by (simp add: sw_sane_def window_ms_def unat_gt_0 word_gt_0)

lemma unat_ucast_128: "unat (ucast (a :: u64) :: u128) = unat a"
  by (simp add: unsigned_ucast_eq take_bit_nat_eq_self order_less_trans [OF unat_lt_exp])

lemma unat_mult_128:
  "unat (a :: u64) * unat (b :: u64) < 2 ^ 128"
proof -
  have "unat a * unat b \<le> (2 ^ 64 - 1) * (2 ^ 64 - 1)"
    using unat_lt_exp [of a] unat_lt_exp [of b] by (intro mult_le_mono) auto
  then show ?thesis by simp
qed

lemma unat_effective:
  assumes "unat W < 2 ^ 62" "el \<le> W"
  shows "unat (sw_effective P c W el) = unat P * (unat W - unat el) + (unat c + 1) * unat W"
proof -
  let ?p = "unat P * (unat W - unat el)" and ?c = "(unat c + 1) * unat W"
  have 1: "?p \<le> (2 ^ 64 - 1) * 2 ^ 62"
    using assms(1) unat_lt_exp [of P] by (intro mult_le_mono) auto
  have 2: "?c \<le> 2 ^ 64 * 2 ^ 62" using assms(1) unat_lt_exp [of c] by (intro mult_le_mono) auto
  have sub: "unat (W - el) = unat W - unat el" using assms(2) by (rule unat_sub)
  have u1: "unat (ucast c + 1 :: u128) = unat c + 1"
    using unat_lt_exp [of c] by (simp add: unat_word_ariths unat_ucast_128)
  have "unat (ucast P * ucast (W - el) :: u128) = ?p"
    using 1 by (simp add: unat_word_ariths unat_ucast_128 sub)
  moreover have "unat ((ucast c + 1) * ucast W :: u128) = ?c"
    using 2 by (simp only: unat_word_ariths(2) u1 unat_ucast_128) simp
  ultimately show ?thesis using 1 2
    by (simp only: sw_effective_def unat_word_ariths(1)) simp
qed

lemma sw_rollover_simps [simp]:
  "max_requests (sw_rollover w k) = max_requests w" "sw_window_secs (sw_rollover w k) = sw_window_secs w"
  "current_window (sw_rollover w k) = k"
  "current_count (sw_rollover w k) = (if current_window w = k then current_count w else 0)"
  "sw_rollover (sw_rollover w k) k = sw_rollover w k"
  by (simp_all add: sw_rollover_def)

lemma window_ms_rollover [simp]: "window_ms (sw_rollover w k) = window_ms w" 
   "window_ms (w\<lparr>current_count := c\<rparr>) = window_ms w"
  by (simp_all add: window_ms_def)

lemma sw_sane_rollover [simp]: "sw_sane (sw_rollover w k) = sw_sane w"
   "sw_sane (w\<lparr>current_count := c\<rparr>) = sw_sane w"
  by (simp_all add: sw_sane_def)

definition sw_index :: "sliding_window \<Rightarrow> u64 \<Rightarrow> u64" where
  "sw_index w now_ms = now_ms div (sw_window_secs w * 1000)"

definition sw_fits :: "sliding_window \<Rightarrow> u64 \<Rightarrow> bool" where
  "sw_fits w now_ms \<longleftrightarrow>
     (let w' = sw_rollover w (sw_index w now_ms); W = window_ms w; el = unat now_ms mod W in
      unat (sw_previous w' (sw_index w now_ms)) * (W - el) + (unat (current_count w') + 1) * W
        \<le> unat (max_requests w) * W)"

lemma sw_check_cases:
  assumes "sw_sane w"
  obtains r where "sw_check w now_ms = Some ((sw_rollover w (sw_index w now_ms))
      \<lparr>current_count := current_count (sw_rollover w (sw_index w now_ms)) + 1\<rparr>, r)"
      "res_allowed r" "sw_fits w now_ms"
    | r where "sw_check w now_ms = Some (sw_rollover w (sw_index w now_ms), r)"
      "\<not> res_allowed r" "\<not> sw_fits w now_ms"
proof -
  let ?W = "sw_window_secs w * 1000" and ?w = "sw_rollover w (sw_index w now_ms)"
  let ?P = "sw_previous ?w (sw_index w now_ms)" and ?el = "now_ms mod ?W"
  have W: "unat ?W = window_ms w" "unat ?W < 2 ^ 62" "0 < unat ?W"
    using assms unat_window_ms [OF assms] window_ms_pos [OF assms]
    by (simp_all add: sw_sane_def window_ms_def)
  then have nz: "?W \<noteq> 0" by auto
  have el: "unat ?el = unat now_ms mod window_ms w" "?el \<le> ?W"
    using W by (simp_all add: unat_mod word_le_nat_alt less_imp_le)
  have "unat (ucast (max_requests w) * ucast ?W :: u128) = unat (max_requests w) * window_ms w"
    using unat_mult_128 [of "max_requests w" ?W] W(1) by (simp add: unat_word_ariths unat_ucast_128)
  then have fits: "sw_fits w now_ms \<longleftrightarrow>
      \<not> ucast (max_requests w) * ucast ?W < sw_effective ?P (current_count ?w) ?W ?el"
    unfolding word_less_nat_alt unat_effective [OF W(2) el(2)]
    by (simp add: sw_fits_def Let_def W(1) el(1) not_less)
  show ?thesis
  proof (cases "sw_fits w now_ms")
    case True
    then have "\<exists>r. sw_check w now_ms = Some (?w\<lparr>current_count := current_count ?w + 1\<rparr>, r) \<and> res_allowed r"
      using nz fits by (simp add: sw_check_def Let_def sw_index_def)
    with True that(1) show ?thesis by blast
  next
    case False
    then have "\<exists>r. sw_check w now_ms = Some (?w, r) \<and> \<not> res_allowed r"
      using nz fits by (simp add: sw_check_def Let_def sw_index_def)
    with False that(2) show ?thesis by blast
  qed
qed

definition admitted_in :: "nat \<Rightarrow> nat \<Rightarrow> (u64 \<times> rate_limit_result) list \<Rightarrow> nat" where
  "admitted_in W k rs = length (filter (\<lambda>(t, r). res_allowed r \<and> unat t div W = k) rs)"

definition sw_room :: "sliding_window \<Rightarrow> nat \<Rightarrow> nat" where
  "sw_room w k =
     (if unat (current_window w) = k then unat (max_requests w) - unat (current_count w)
      else if k < unat (current_window w) then 0 else unat (max_requests w))"

lemma unat_sw_index: "sw_sane w \<Longrightarrow> unat (sw_index w t) = unat t div window_ms w"
  by (simp add: sw_index_def unat_div unat_window_ms)

lemma fits_count:
  assumes "sw_sane w" "sw_fits w t"
  shows "unat (current_count (sw_rollover w (sw_index w t))) + 1 \<le> unat (max_requests w)"
proof -
  have "(unat (current_count (sw_rollover w (sw_index w t))) + 1) * window_ms w \<le> unat (max_requests w) * window_ms w"
    using assms(2) by (simp only: sw_fits_def Let_def)
  then show ?thesis using window_ms_pos [OF assms(1)] by (simp only: mult_le_cancel2)
qed

lemma room_rollover:
  assumes "unat (current_window w) \<le> unat j"
  shows "sw_room (sw_rollover w j) k \<le> sw_room w k"
  using assms by (auto simp: sw_room_def word_unat_eq_iff)

lemma room_admit:
  assumes "current_window w = j" "unat (current_count w) + 1 \<le> unat (max_requests w)"
  shows "(if unat j = k then 1 else 0) + sw_room (w\<lparr>current_count := current_count w + 1\<rparr>) k \<le> sw_room w k"
proof -
  have "unat (current_count w + 1) = unat (current_count w) + 1"
    using assms(2) unat_lt_exp [of "max_requests w"] by (simp add: unat_word_ariths)
  then show ?thesis using assms by (auto simp: sw_room_def)
qed

lemma sw_run_admitted:
  assumes "sw_sane w" "sorted (map unat calls)"
    and "\<forall>t\<in>set calls. unat (current_window w) \<le> unat t div window_ms w"
  shows "\<exists>rs. limiter_run sw_check w calls = Some rs \<and> admitted_in (window_ms w) k rs \<le> sw_room w k"
  using assms
proof (induction calls arbitrary: w)
  case Nil
  then show ?case by (simp add: admitted_in_def)
next
  case (Cons t calls)
  let ?j = "sw_index w t"
  let ?w = "sw_rollover w ?j"
  have j: "unat ?j = unat t div window_ms w" by (rule unat_sw_index [OF Cons.prems(1)])
  have later: "\<forall>t'\<in>set calls. unat ?j \<le> unat t' div window_ms w"
    using Cons.prems(2) j by (auto intro: div_le_mono)
  have roll: "sw_room ?w k \<le> sw_room w k"
    using room_rollover [of w ?j k] Cons.prems(3) j by simp
  show ?case
  proof (cases rule: sw_check_cases [OF Cons.prems(1), of t])
    case (1 r)
    let ?w' = "?w\<lparr>current_count := current_count ?w + 1\<rparr>"
    obtain rs where rs: "limiter_run sw_check ?w' calls = Some rs" "admitted_in (window_ms w) k rs \<le> sw_room ?w' k"
      using Cons.IH [of ?w'] Cons.prems(1,2) later by auto
    have "(if unat ?j = k then 1 else 0) + sw_room ?w' k \<le> sw_room ?w k"
      using room_admit [of ?w ?j k] fits_count [OF Cons.prems(1) 1(3)] by simp
    then show ?thesis using 1 rs roll j by (auto simp: admitted_in_def)
  next
    case (2 r)
    obtain rs where rs: "limiter_run sw_check ?w calls = Some rs" "admitted_in (window_ms w) k rs \<le> sw_room ?w k"
      using Cons.IH [of ?w] Cons.prems(1,2) later by auto
    then show ?thesis using 2 roll by (auto simp: admitted_in_def)
  qed
qed


section \<open>Idle windows\<close>

definition sw_like :: "u64 \<Rightarrow> sliding_window \<Rightarrow> sliding_window \<Rightarrow> bool" where
  "sw_like t w w' \<longleftrightarrow> max_requests w = max_requests w' \<and> sw_window_secs w = sw_window_secs w' \<and>
     (unat (current_window w) + 1 < unat (sw_index w t) \<and> unat (current_window w') + 1 < unat (sw_index w t) \<or>
      current_window w = current_window w' \<and> current_count w = current_count w' \<and>
      sw_previous w (current_window w) = sw_previous w' (current_window w'))"

definition sw_fresh :: "sliding_window \<Rightarrow> sliding_window" where
  "sw_fresh w = w\<lparr>current_window := 0, current_count := 0, previous_window := 0, previous_count := 0\<rparr>"

lemma sw_index_mono: "t \<le> t' \<Longrightarrow> sw_index w t \<le> sw_index w t'"
  by (simp add: sw_index_def word_le_nat_alt unat_div div_le_mono)

lemma previous_stale:
  assumes "unat (current_window w) + 1 < unat j"
  shows "sw_previous (sw_rollover w j) j = 0"
proof -
  have "unat (current_window w + 1) = unat (current_window w) + 1"
    using assms unat_lt_exp [of j] by (simp add: unat_word_ariths)
  then have "current_window w + 1 \<noteq> j" using assms by (metis less_irrefl)
  moreover have "current_window w \<noteq> j" using assms by auto
  ultimately show ?thesis by (simp add: sw_rollover_def sw_previous_def)
qed

lemma sw_like_rollover:
  assumes "sw_like t w w'" "t \<le> t'"
  shows "sw_like t' (sw_rollover w (sw_index w t')) (sw_rollover w' (sw_index w t'))"
    and "current_count (sw_rollover w (sw_index w t')) = current_count (sw_rollover w' (sw_index w t'))"
    and "sw_previous (sw_rollover w (sw_index w t')) (sw_index w t') =
      sw_previous (sw_rollover w' (sw_index w t')) (sw_index w t')"
proof -
  let ?j = "sw_index w t'"
  have mono: "unat (sw_index w t) \<le> unat ?j" using sw_index_mono [OF assms(2)] by (simp add: word_le_nat_alt)
  consider "unat (current_window w) + 1 < unat ?j" "unat (current_window w') + 1 < unat ?j"
    | "current_window w = current_window w'" "current_count w = current_count w'"
      "sw_previous w (current_window w) = sw_previous w' (current_window w')"
    using assms(1) mono by (auto simp: sw_like_def)
  then have *: "current_count (sw_rollover w ?j) = current_count (sw_rollover w' ?j) \<and>
      sw_previous (sw_rollover w ?j) ?j = sw_previous (sw_rollover w' ?j) ?j"
  proof cases
    case 1
    then have "current_window w \<noteq> ?j" "current_window w' \<noteq> ?j" by auto
    then show ?thesis using previous_stale [OF 1(1)] previous_stale [OF 1(2)] by simp
  next
    case 2
    then show ?thesis by (auto simp: sw_rollover_def sw_previous_def)
  qed
  then show "current_count (sw_rollover w ?j) = current_count (sw_rollover w' ?j)"
    "sw_previous (sw_rollover w ?j) ?j = sw_previous (sw_rollover w' ?j) ?j" by blast+
  show "sw_like t' (sw_rollover w ?j) (sw_rollover w' ?j)"
    using * assms(1) by (simp add: sw_like_def)
qed

lemma sw_like_count:
  "sw_like t w w' \<Longrightarrow> current_window w = current_window w' \<Longrightarrow>
   sw_like t (w\<lparr>current_count := c\<rparr>) (w'\<lparr>current_count := c\<rparr>)"
  by (auto simp: sw_like_def sw_previous_def sw_index_def)

interpretation sw: evictable_limiter sw_check "\<lambda>w t. sw_is_idle w t = Some True" sw_like sw_fresh
proof unfold_locales
  fix w t
  assume "sw_is_idle w t = Some True"
  then have "unat (current_window w) + 1 < unat (sw_index w t)"
    using unat_lt_exp [of "t div (sw_window_secs w * 1000)"]
    by (auto simp: sw_is_idle_def sw_index_def Let_def word_less_nat_alt unat_sat_add min_def
        split: if_splits)
  then show "sw_like t w (sw_fresh w)" by (simp add: sw_like_def sw_fresh_def)
next
  fix w w' t t'
  assume like: "sw_like t w w'" and le: "t \<le> t'"
  note roll = sw_like_rollover [OF like le]
  have same: "max_requests w' = max_requests w" "sw_window_secs w' = sw_window_secs w"
    using like by (simp_all add: sw_like_def)
  have retry: "sw_retry_after_ms (sw_rollover w' (sw_index w t')) P W el =
      sw_retry_after_ms (sw_rollover w (sw_index w t')) P W el" for P W el
    using roll(2) same by (simp add: sw_retry_after_ms_def)
  show "rel_option (\<lambda>(u, r) (u', r'). sw_like t' u u' \<and> r = r') (sw_check w t') (sw_check w' t')"
    using roll retry sw_like_count [OF roll(1)]
    by (simp add: sw_check_def Let_def same flip: sw_index_def)
qed


section \<open>Properties\<close>

text \<open>C13. The integer comparison of the sliding window decides exactly the documented formula: a request is
  admitted when the previous window's count, weighted by the part of it the sliding window still
  covers, plus the current count plus one is at most the limit.\<close>

theorem sw_check_exact:
  assumes "sw_sane w" "sw_check w now_ms = Some (w', r)"
  shows "res_allowed r \<longleftrightarrow>
    (let W = of_nat (window_ms w) :: rat; elapsed = of_nat (unat now_ms mod window_ms w);
         rolled = sw_rollover w (sw_index w now_ms); weight = (W - elapsed) / W in
     of_nat (unat (sw_previous rolled (sw_index w now_ms))) * weight + of_nat (unat (current_count rolled)) + 1
       \<le> of_nat (unat (max_requests w)))"
proof -
  let ?W = "window_ms w" and ?el = "unat now_ms mod window_ms w"
  let ?c = "unat (current_count (sw_rollover w (sw_index w now_ms)))"
  let ?P = "unat (sw_previous (sw_rollover w (sw_index w now_ms)) (sw_index w now_ms))"
  have W: "0 < ?W" by (rule window_ms_pos [OF assms(1)])
  then have el: "?el \<le> ?W" by (simp add: less_imp_le)
  have "res_allowed r \<longleftrightarrow> sw_fits w now_ms"
    using assms(2) by (cases rule: sw_check_cases [OF assms(1), of now_ms]) auto
  also have "\<dots> \<longleftrightarrow> ?P * (?W - ?el) + (?c + 1) * ?W \<le> unat (max_requests w) * ?W"
    by (simp only: sw_fits_def Let_def)
  also have "\<dots> \<longleftrightarrow> (of_nat (?P * (?W - ?el) + (?c + 1) * ?W) :: rat) \<le> of_nat (unat (max_requests w) * ?W)"
    by (simp only: of_nat_le_iff)
  also have "\<dots> \<longleftrightarrow> (of_nat ?P * ((of_nat ?W - of_nat ?el) / of_nat ?W) + of_nat ?c + 1) * of_nat ?W
      \<le> (of_nat (unat (max_requests w)) * of_nat ?W :: rat)"
    using W el by (simp add: of_nat_diff distrib_right add_ac)
  also have "\<dots> \<longleftrightarrow> of_nat ?P * ((of_nat ?W - of_nat ?el) / of_nat ?W) + of_nat ?c + 1
      \<le> (of_nat (unat (max_requests w)) :: rat)"
    using W by (simp only: mult_le_cancel_right) simp
  finally show ?thesis by (simp only: Let_def)
qed

definition sw_example :: sliding_window where
  "sw_example = \<lparr>max_requests = 10, sw_window_secs = 60, current_window = 3, current_count = 4,
     previous_window = 2, previous_count = 8\<rparr>"

theorem sw_check_exact_witness:
  "\<exists>w' r. sw_check sw_example 195000 = Some (w', r) \<and>
     (res_allowed r \<longleftrightarrow> (8 :: rat) * ((60000 - 15000) / 60000) + 4 + 1 \<le> 10)"
proof -
  have sane: "sw_sane sw_example" by (simp add: sw_sane_def sw_example_def)
  obtain w' r where "sw_check sw_example 195000 = Some (w', r)"
    by (cases rule: sw_check_cases [OF sane, of 195000]) auto
  with sw_check_exact [OF sane this] show ?thesis
    by (auto simp: Let_def sw_example_def sw_index_def sw_rollover_def sw_previous_def window_ms_def)
qed

text \<open>C20. Whatever checks come in at non-decreasing times, a fresh sliding window answers all of them and
  admits at most \<^verbatim>\<open>limit\<close> requests in every fixed window.\<close>

theorem sw_window_bounded:
  assumes "sw_sane (sliding_window_new cfg)" "sorted (map unat calls)"
  shows "\<exists>rs. limiter_run sw_check (sliding_window_new cfg) calls = Some rs \<and>
    admitted_in (window_ms (sliding_window_new cfg)) k rs \<le> unat (cfg_limit cfg)"
proof -
  obtain rs where "limiter_run sw_check (sliding_window_new cfg) calls = Some rs"
      "admitted_in (window_ms (sliding_window_new cfg)) k rs \<le> sw_room (sliding_window_new cfg) k"
    using sw_run_admitted [OF assms, of k] by (auto simp: sliding_window_new_def)
  moreover have "sw_room (sliding_window_new cfg) k \<le> unat (cfg_limit cfg)"
    by (simp add: sw_room_def sliding_window_new_def)
  ultimately show ?thesis using order_trans by blast
qed

definition sw_example_cfg :: "unit limiter_config" where
  "sw_example_cfg = \<lparr>cfg_rate = limiter_rate_of_pair (2, 1), cfg_burst = 0, cfg_algorithm = SlidingWindow,
     cfg_identifier = Ip, cfg_skip_patterns = None, cfg_scope = 1\<rparr>"

theorem sw_window_bounded_witness:
  "\<exists>rs. limiter_run sw_check (sliding_window_new sw_example_cfg) [5, 6, 7, 1500] = Some rs \<and>
    admitted_in 1000 0 rs \<le> 2"
  using sw_window_bounded [of sw_example_cfg "[5, 6, 7, 1500]" 0]
  by (simp add: sw_sane_def window_ms_def sliding_window_new_def sw_example_cfg_def limiter_rate_of_pair_def
      cfg_limit_def cfg_window_def as_secs_def from_secs_def)

end
