(* ===== verification/Limiter_Store.thy ===== *)
theory Limiter_Store
  imports Token_Bucket Sliding_Window Ip_Text "HOL-Library.AList"
begin

text \<open>
  The in-memory store of the rate limiter, \<^verbatim>\<open>ophan/src/middlewares/limiter/store.rs\<close>: the state of
  one client under one policy, the keys, \<open>consume\<close> and \<open>evict_idle\<close>. The concurrent hash map is an
  association list with distinct keys; the time since the start of the process is an argument, and
  so is the seeded hash \<^verbatim>\<open>KEY_HASHER\<close> of an external crate.
\<close>

definition IPV6_PREFIX_MASK :: u128 where "IPV6_PREFIX_MASK = push_bit 64 (- 1)"
definition MAX_TRACKED_CLIENTS :: usize where "MAX_TRACKED_CLIENTS = push_bit 20 1"
definition OVERFLOW_KEY :: u64 where "OVERFLOW_KEY = - 1"

section \<open>Keys\<close>

definition prehashed_write_u64 :: "u64 \<Rightarrow> u64 \<Rightarrow> u64" where
  "prehashed_write_u64 h v = word_rotl 29 h XOR v"

definition prehashed_write :: "u64 \<Rightarrow> u8 list \<Rightarrow> u64" where
  "prehashed_write h bytes = foldl (\<lambda>h b. word_rotl 8 h XOR ucast b) h bytes"

record limiter_key =
  key_hash :: u64
  key_scope :: u64

fun to_canonical :: "ip_addr \<Rightarrow> ip_addr" where
  "to_canonical (V4 v4) = V4 v4"
| "to_canonical (V6 v6) = (case to_ipv4_mapped v6 of Some v4 \<Rightarrow> V4 v4 | None \<Rightarrow> V6 v6)"

definition key_from_ip :: "(ip_addr \<Rightarrow> u64) \<Rightarrow> ip_addr \<Rightarrow> u64 \<Rightarrow> limiter_key" where
  "key_from_ip hash_one ip scope =
     (let ip = (case to_canonical ip of V6 v6 \<Rightarrow> V6 (v6 AND IPV6_PREFIX_MASK) | V4 v4 \<Rightarrow> V4 v4)
      in \<lparr>key_hash = hash_one ip, key_scope = scope\<rparr>)"

definition key_from_raw_hash :: "u64 \<Rightarrow> u64 \<Rightarrow> limiter_key" where
  "key_from_raw_hash hash scope = \<lparr>key_hash = hash, key_scope = scope\<rparr>"

section \<open>The state of one client\<close>

datatype limiter_state = Sliding sliding_window | Bucket token_bucket

definition limiter_state_new :: "'p limiter_config \<Rightarrow> limiter_state option" where
  "limiter_state_new cfg =
     (case cfg_algorithm cfg of
        SlidingWindow \<Rightarrow> Some (Sliding (sliding_window_new cfg))
      | TokenBucket \<Rightarrow> map_option Bucket (token_bucket_new cfg))"

fun limiter_state_check :: "limiter_state \<Rightarrow> u64 \<Rightarrow> (limiter_state \<times> rate_limit_result) option" where
  "limiter_state_check (Sliding w) now_ms = map_option (map_prod Sliding id) (sw_check w now_ms)"
| "limiter_state_check (Bucket b) now_ms = Some (map_prod Bucket id (tb_check b now_ms))"

fun limiter_state_is_idle :: "limiter_state \<Rightarrow> u64 \<Rightarrow> bool option" where
  "limiter_state_is_idle (Sliding w) now_ms = sw_is_idle w now_ms"
| "limiter_state_is_idle (Bucket b) now_ms = Some (tb_is_idle b now_ms)"

section \<open>The store\<close>

record memory_rate_limiter =
  states :: "(limiter_key \<times> limiter_state) list"
  tracked :: usize
  max_tracked :: usize

definition memory_rate_limiter_new :: memory_rate_limiter where
  "memory_rate_limiter_new = \<lparr>states = [], tracked = 0, max_tracked = MAX_TRACKED_CLIENTS\<rparr>"

definition check_entry ::
  "memory_rate_limiter \<Rightarrow> limiter_key \<Rightarrow> limiter_state \<Rightarrow> u64 \<Rightarrow>
   (memory_rate_limiter \<times> rate_limit_result) option" where
  "check_entry m key st now_ms =
     map_option (\<lambda>(st', r). (m\<lparr>states := AList.update key st' (states m)\<rparr>, r)) (limiter_state_check st now_ms)"

definition consume ::
  "memory_rate_limiter \<Rightarrow> u64 \<Rightarrow> limiter_key \<Rightarrow> 'p limiter_config \<Rightarrow>
   (memory_rate_limiter \<times> rate_limit_result) option" where
  "consume m now_ms key cfg =
     (case map_of (states m) key of
        Some st \<Rightarrow> check_entry m key st now_ms
      | None \<Rightarrow>
          (let key = (if tracked m \<ge> max_tracked m then key\<lparr>key_hash := OVERFLOW_KEY\<rparr> else key) in
           case map_of (states m) key of
             Some st \<Rightarrow> check_entry m key st now_ms
           | None \<Rightarrow>
               (case limiter_state_new cfg of
                  None \<Rightarrow> None
                | Some st \<Rightarrow> check_entry (m\<lparr>tracked := tracked m + 1\<rparr>) key st now_ms)))"

definition evict_idle :: "memory_rate_limiter \<Rightarrow> u64 \<Rightarrow> (memory_rate_limiter \<times> usize) option" where
  "evict_idle m now_ms =
     (if \<exists>e\<in>set (states m). limiter_state_is_idle (snd e) now_ms = None then None
      else
        let left = filter (\<lambda>e. limiter_state_is_idle (snd e) now_ms \<noteq> Some True) (states m);
            len = of_nat (length left)
        in Some (m\<lparr>states := left, tracked := len\<rparr>, len))"

definition limiter_len :: "memory_rate_limiter \<Rightarrow> nat" where
  "limiter_len m = length (states m)"

section \<open>States that answer alike\<close>

fun ls_like :: "u64 \<Rightarrow> limiter_state \<Rightarrow> limiter_state \<Rightarrow> bool" where
  "ls_like t (Sliding w) (Sliding w') = sw_like t w w'"
| "ls_like t (Bucket b) (Bucket b') = tb_like t b b'"
| "ls_like t _ _ = False"

fun ls_fresh :: "limiter_state \<Rightarrow> limiter_state" where
  "ls_fresh (Sliding w) = Sliding (sw_fresh w)"
| "ls_fresh (Bucket b) = Bucket (tb_fresh b)"

interpretation ls: evictable_limiter limiter_state_check "\<lambda>s t. limiter_state_is_idle s t = Some True"
  ls_like ls_fresh
proof unfold_locales
  fix s t
  assume "limiter_state_is_idle s t = Some True"
  then show "ls_like t s (ls_fresh s)"
    using sw.like_idle tb.like_idle by (cases s) auto
next
  fix s s' t t'
  assume like: "ls_like t s s'" and le: "t \<le> t'"
  from like consider w w' where "s = Sliding w" "s' = Sliding w'" "sw_like t w w'"
    | b b' where "s = Bucket b" "s' = Bucket b'" "tb_like t b b'"
    by (cases s; cases s') auto
  then show "rel_option (\<lambda>(u, r) (u', r'). ls_like t' u u' \<and> r = r')
      (limiter_state_check s t') (limiter_state_check s' t')"
  proof cases
    case 1
    then show ?thesis
      using sw.like_check [OF 1(3) le] by (auto simp: option.rel_map split_beta elim: option.rel_mono_strong)
  next
    case 2
    then show ?thesis using tb.like_check [OF 2(3) le] by (auto simp: split_beta)
  qed
qed

lemma sw_like_refl: "sw_like t w w"
  by (simp add: sw_like_def)

lemma tb_like_refl: "tb_like t b b"
  by (simp add: tb_like_def)

lemma ls_like_refl: "ls_like t s s"
  by (cases s) (simp_all add: sw_like_refl tb_like_refl)

lemma ls_fresh_check: "limiter_state_check s t = Some (s', r) \<Longrightarrow> ls_fresh s' = ls_fresh s"
  by (cases s) (auto simp: sw_check_def tb_check_def tb_fresh_def sw_fresh_def sw_rollover_def Let_def
      split: if_splits sum.splits)

lemma ls_fresh_new: "limiter_state_new cfg = Some s \<Longrightarrow> ls_fresh s = s"
  by (auto simp: limiter_state_new_def sliding_window_new_def token_bucket_new_def sw_fresh_def tb_fresh_def Let_def
      split: rate_limit_algorithm.splits if_splits)

section \<open>The store as a map from keys to states\<close>

definition store_wf :: "(u64 \<Rightarrow> 'p limiter_config) \<Rightarrow> memory_rate_limiter \<Rightarrow> bool" where
  "store_wf cfgs m \<longleftrightarrow> distinct (map fst (states m)) \<and>
     (\<forall>k s. map_of (states m) k = Some s \<longrightarrow> limiter_state_new (cfgs (key_scope k)) = Some (ls_fresh s))"

definition view :: "(u64 \<Rightarrow> 'p limiter_config) \<Rightarrow> memory_rate_limiter \<Rightarrow> limiter_key \<Rightarrow> limiter_state option" where
  "view cfgs m k = (case map_of (states m) k of Some s \<Rightarrow> Some s | None \<Rightarrow> limiter_state_new (cfgs (key_scope k)))"

lemma consume_view:
  assumes "tracked m < max_tracked m"
  shows "map_option snd (consume m now_ms key (cfgs (key_scope key))) =
      (case view cfgs m key of None \<Rightarrow> None | Some s \<Rightarrow> map_option snd (limiter_state_check s now_ms))"
    and "consume m now_ms key (cfgs (key_scope key)) = Some (m', r) \<Longrightarrow>
      (\<exists>s s'. view cfgs m key = Some s \<and> limiter_state_check s now_ms = Some (s', r) \<and>
         view cfgs m' = (view cfgs m)(key \<mapsto> s')) \<and>
      unat (tracked m') \<le> unat (tracked m) + 1 \<and> max_tracked m' = max_tracked m"
proof -
  let ?m = "if map_of (states m) key = None then m\<lparr>tracked := tracked m + 1\<rparr> else m"
  have eq: "consume m now_ms key (cfgs (key_scope key)) =
      (case view cfgs m key of None \<Rightarrow> None | Some s \<Rightarrow> check_entry ?m key s now_ms)"
    using assms by (auto simp: consume_def view_def Let_def not_le split: option.split)
  show "map_option snd (consume m now_ms key (cfgs (key_scope key))) =
      (case view cfgs m key of None \<Rightarrow> None | Some s \<Rightarrow> map_option snd (limiter_state_check s now_ms))"
    by (auto simp: eq check_entry_def option.map_comp split_beta comp_def split: option.split)
  assume "consume m now_ms key (cfgs (key_scope key)) = Some (m', r)"
  then obtain s s' where s: "view cfgs m key = Some s" "limiter_state_check s now_ms = Some (s', r)"
      and m': "m' = ?m\<lparr>states := AList.update key s' (states ?m)\<rparr>"
    by (auto simp: eq check_entry_def split: option.splits)
  have "view cfgs m' = (view cfgs m)(key \<mapsto> s')"
    by (auto simp: m' view_def update_conv' fun_eq_iff)
  moreover have "unat (tracked m + 1) = unat (tracked m) + 1"
    using assms unat_lt_exp [of "max_tracked m"] by (simp add: word_less_nat_alt unat_word_ariths)
  ultimately show "(\<exists>s s'. view cfgs m key = Some s \<and> limiter_state_check s now_ms = Some (s', r) \<and>
         view cfgs m' = (view cfgs m)(key \<mapsto> s')) \<and>
      unat (tracked m') \<le> unat (tracked m) + 1 \<and> max_tracked m' = max_tracked m"
    using s m' by simp
qed

fun consume_run ::
  "(u64 \<Rightarrow> 'p limiter_config) \<Rightarrow> memory_rate_limiter \<Rightarrow> (u64 \<times> limiter_key) list \<Rightarrow>
   rate_limit_result list option" where
  "consume_run cfgs m [] = Some []"
| "consume_run cfgs m ((now_ms, key) # calls) =
     (case consume m now_ms key (cfgs (key_scope key)) of
        None \<Rightarrow> None
      | Some (m', r) \<Rightarrow> map_option ((#) r) (consume_run cfgs m' calls))"

definition stores_like :: "(u64 \<Rightarrow> 'p limiter_config) \<Rightarrow> u64 \<Rightarrow> memory_rate_limiter \<Rightarrow> memory_rate_limiter \<Rightarrow> bool" where
  "stores_like cfgs t m m' \<longleftrightarrow> (\<forall>k. rel_option (ls_like t) (view cfgs m k) (view cfgs m' k))"

lemma ls_like_mono:
  assumes "ls_like t s s'" "t \<le> t'"
  shows "ls_like t' s s'"
proof (cases s)
  case (Sliding w)
  then show ?thesis using assms(1) sw_index_mono [OF assms(2), of w]
    by (cases s') (auto simp: sw_like_def word_le_nat_alt)
next
  case (Bucket b)
  then show ?thesis using assms(1) sat_mul_mono [OF assms(2), of NANOS_PER_MS]
    by (cases s') (auto simp: tb_like_def)
qed

lemma stores_like_run:
  assumes "stores_like cfgs t m m'" "sorted (t # map fst calls)"
    and "unat (tracked m) + length calls \<le> unat (max_tracked m)"
    and "unat (tracked m') + length calls \<le> unat (max_tracked m')"
  shows "consume_run cfgs m calls = consume_run cfgs m' calls"
  using assms
proof (induction calls arbitrary: t m m')
  case (Cons c calls)
  obtain now key where c: "c = (now, key)" by (cases c)
  have le: "t \<le> now" and sorted: "sorted (now # map fst calls)" using Cons.prems(2) c by auto
  have room: "tracked m < max_tracked m" "tracked m' < max_tracked m'"
    using Cons.prems(3,4) by (simp_all add: word_less_nat_alt)
  note v = consume_view [OF room(1), of now key cfgs] consume_view [OF room(2), of now key cfgs]
  have "rel_option (ls_like t) (view cfgs m key) (view cfgs m' key)"
    using Cons.prems(1) by (simp add: stores_like_def)
  then have rel: "rel_option (\<lambda>p p'. ls_like now (fst p) (fst p') \<and> snd p = snd p')
      (case view cfgs m key of None \<Rightarrow> None | Some s \<Rightarrow> limiter_state_check s now)
      (case view cfgs m' key of None \<Rightarrow> None | Some s \<Rightarrow> limiter_state_check s now)"
    using ls.like_check [OF _ le, unfolded split_beta]
    by (cases "view cfgs m key"; cases "view cfgs m' key") auto
  show ?case
  proof (cases "consume m now key (cfgs (key_scope key))")
    case None
    then have "consume m' now key (cfgs (key_scope key)) = None"
      using v(1,3) rel by (cases "view cfgs m key"; cases "view cfgs m' key") (auto simp: option.rel_sel)
    then show ?thesis using None c by simp
  next
    case (Some p)
    obtain n r where p: "p = (n, r)" by (cases p)
    then obtain s u where s: "view cfgs m key = Some s" "limiter_state_check s now = Some (u, r)"
        "view cfgs n = (view cfgs m)(key \<mapsto> u)" "unat (tracked n) \<le> unat (tracked m) + 1"
        "max_tracked n = max_tracked m"
      using v(2) Some by blast
    then obtain s' u' where s': "view cfgs m' key = Some s'" "limiter_state_check s' now = Some (u', r)"
        "ls_like now u u'"
      using rel by (cases "view cfgs m' key") (auto simp: option_rel_Some1)
    then obtain n' where n': "consume m' now key (cfgs (key_scope key)) = Some (n', r)"
      using v(3) by auto
    then have n'': "view cfgs n' = (view cfgs m')(key \<mapsto> u')" "unat (tracked n') \<le> unat (tracked m') + 1"
        "max_tracked n' = max_tracked m'"
      using v(4) [OF n'] s' by auto
    have "rel_option (ls_like t) x y \<Longrightarrow> rel_option (ls_like now) x y" for x y
      by (erule option.rel_mono_strong) (rule ls_like_mono [OF _ le])
    then have "stores_like cfgs now n n'"
      using Cons.prems(1) s(3) s'(3) n''(1) by (auto simp: stores_like_def)
    then have "consume_run cfgs n calls = consume_run cfgs n' calls"
      using Cons.IH [OF _ sorted] Cons.prems(3,4) s(4,5) n''(2,3) by simp
    then show ?thesis using Some p n' c by simp
  qed
qed simp

lemma evict_view:
  assumes "store_wf cfgs m" "evict_idle m t = Some (m', n)"
  shows "stores_like cfgs t m m'"
  unfolding stores_like_def
proof
  fix k
  have eq: "states m' = filter (\<lambda>e. limiter_state_is_idle (snd e) t \<noteq> Some True) (states m)"
    using assms(2) by (auto simp: evict_idle_def Let_def split: if_splits)
  have d: "distinct (map fst (states m))" using assms(1) by (simp add: store_wf_def)
  show "rel_option (ls_like t) (view cfgs m k) (view cfgs m' k)"
  proof (cases "map_of (states m) k")
    case None
    then have "map_of (states m') k = None" unfolding eq by (auto simp: map_of_eq_None_iff)
    then show ?thesis using None by (simp add: view_def option.rel_refl ls_like_refl)
  next
    case (Some s)
    then have new: "limiter_state_new (cfgs (key_scope k)) = Some (ls_fresh s)"
      using assms(1) by (simp add: store_wf_def)
    show ?thesis
    proof (cases "limiter_state_is_idle s t = Some True")
      case True
      then have "map_of (states m') k = None"
        using eq_key_imp_eq_value [OF d map_of_SomeD [OF Some]] unfolding eq
        by (auto simp: map_of_eq_None_iff)
      then show ?thesis using Some new ls.like_idle [OF True] by (simp add: view_def)
    next
      case False
      have "(k, s) \<in> set (states m')" using Some False unfolding eq by (auto dest: map_of_SomeD)
      moreover have "distinct (map fst (states m'))" unfolding eq by (rule distinct_map_filter [OF d])
      ultimately have "map_of (states m') k = Some s" by simp
      then show ?thesis using Some by (simp add: view_def ls_like_refl)
    qed
  qed
qed


section \<open>Reachable stores\<close>

inductive store_reach :: "u64 set \<Rightarrow> memory_rate_limiter \<Rightarrow> bool" for scopes where
  start: "store_reach scopes memory_rate_limiter_new"
| consume: "store_reach scopes m \<Longrightarrow> key_scope key \<in> scopes \<Longrightarrow>
    Limiter_Store.consume m now_ms key (cfg :: unit limiter_config) = Some (m', r) \<Longrightarrow> store_reach scopes m'"
| evict: "store_reach scopes m \<Longrightarrow> evict_idle m now_ms = Some (m', n) \<Longrightarrow> store_reach scopes m'"

abbreviation store_keys :: "memory_rate_limiter \<Rightarrow> limiter_key list" where
  "store_keys m \<equiv> map fst (states m)"

definition store_inv :: "u64 set \<Rightarrow> memory_rate_limiter \<Rightarrow> bool" where
  "store_inv scopes m \<longleftrightarrow> distinct (store_keys m) \<and> max_tracked m = MAX_TRACKED_CLIENTS \<and>
     unat (tracked m) = length (states m) \<and> (\<forall>k\<in>set (store_keys m). key_scope k \<in> scopes) \<and>
     length (filter (\<lambda>k. key_hash k \<noteq> OVERFLOW_KEY) (store_keys m)) \<le> unat MAX_TRACKED_CLIENTS"

lemma store_inv_length:
  assumes "store_inv scopes m" "finite scopes"
  shows "length (states m) \<le> unat MAX_TRACKED_CLIENTS + card scopes"
proof -
  let ?o = "filter (\<lambda>k. key_hash k = OVERFLOW_KEY) (store_keys m)"
  have "distinct (map key_scope ?o)"
    using assms(1) by (auto simp: store_inv_def distinct_map inj_on_def intro: distinct_filter)
  from distinct_card [OF this] have "length ?o = card (set (map key_scope ?o))"
    by (simp only: length_map)
  also have "\<dots> \<le> card scopes"
    using assms by (intro card_mono) (auto simp: store_inv_def)
  finally show ?thesis
    using assms(1) sum_length_filter_compl [of "\<lambda>k. key_hash k = OVERFLOW_KEY" "store_keys m"]
    by (simp add: store_inv_def)
qed

lemma check_entry_keys:
  "check_entry m key st now_ms = Some (m', r) \<Longrightarrow>
   store_keys m' = (if key \<in> set (store_keys m) then store_keys m else store_keys m @ [key]) \<and>
   tracked m' = tracked m \<and> max_tracked m' = max_tracked m"
  by (auto simp: check_entry_def update_keys simp del: set_map)

lemma consume_keys:
  assumes "consume m now_ms key cfg = Some (m', r)"
  shows "(store_keys m' = store_keys m \<and> tracked m' = tracked m \<or>
      (\<exists>k. k \<notin> set (store_keys m) \<and> store_keys m' = store_keys m @ [k] \<and> tracked m' = tracked m + 1 \<and>
        key_scope k = key_scope key \<and> (tracked m < max_tracked m \<or> key_hash k = OVERFLOW_KEY))) \<and>
    max_tracked m' = max_tracked m"
proof (cases "map_of (states m) key")
  case (Some st)
  then have "check_entry m key st now_ms = Some (m', r)" using assms by (simp add: consume_def)
  moreover have "key \<in> set (store_keys m)" using map_of_SomeD [OF Some] by force
  ultimately show ?thesis using check_entry_keys [of m key st now_ms m' r] by simp
next
  case None
  define k where "k = (if tracked m \<ge> max_tracked m then key\<lparr>key_hash := OVERFLOW_KEY\<rparr> else key)"
  have k: "key_scope k = key_scope key" "tracked m < max_tracked m \<or> key_hash k = OVERFLOW_KEY"
    by (simp_all add: k_def not_le)
  have eq: "(case map_of (states m) k of
             Some st \<Rightarrow> check_entry m k st now_ms
           | None \<Rightarrow> (case limiter_state_new cfg of None \<Rightarrow> None
                | Some st \<Rightarrow> check_entry (m\<lparr>tracked := tracked m + 1\<rparr>) k st now_ms)) = Some (m', r)"
    using assms None by (simp only: consume_def Let_def k_def [symmetric] option.case)
  show ?thesis
  proof (cases "map_of (states m) k")
    case (Some st)
    then have "check_entry m k st now_ms = Some (m', r)" using eq by simp
    moreover have "k \<in> set (store_keys m)" using map_of_SomeD [OF Some] by force
    ultimately show ?thesis using check_entry_keys [of m k st now_ms m' r] by simp
  next
    case None': None
    then obtain st where "check_entry (m\<lparr>tracked := tracked m + 1\<rparr>) k st now_ms = Some (m', r)"
      using eq by (simp split: option.splits)
    moreover have "k \<notin> set (store_keys m)" using None' by (simp add: map_of_eq_None_iff image_iff)
    ultimately have "store_keys m' = store_keys m @ [k]" "tracked m' = tracked m + 1"
        "max_tracked m' = max_tracked m" "k \<notin> set (store_keys m)"
      using check_entry_keys [of "m\<lparr>tracked := tracked m + 1\<rparr>" k st now_ms m' r] by auto
    with k show ?thesis by blast
  qed
qed

lemma length_filter_map_filter:
  "length (filter P (map f (filter Q xs))) \<le> length (filter P (map f xs))"
  by (induction xs) auto

lemma store_reach_inv:
  assumes "store_reach scopes m" "finite scopes" "card scopes < 2 ^ 63"
  shows "store_inv scopes m"
  using assms(1)
proof induction
  case start
  then show ?case by (simp add: store_inv_def memory_rate_limiter_new_def)
next
  case (consume m key now_ms cfg m' r)
  have len: "length (states m) < 2 ^ 64 - 1"
    using store_inv_length [OF consume.IH assms(2)] assms(3) by (simp add: MAX_TRACKED_CLIENTS_def)
  note inv = consume.IH [unfolded store_inv_def]
  from consume_keys [OF consume.hyps(3)] consider
      "store_keys m' = store_keys m" "tracked m' = tracked m" "max_tracked m' = max_tracked m"
    | k where "k \<notin> set (store_keys m)" "store_keys m' = store_keys m @ [k]" "tracked m' = tracked m + 1"
        "key_scope k = key_scope key" "tracked m < max_tracked m \<or> key_hash k = OVERFLOW_KEY"
        "max_tracked m' = max_tracked m"
    by blast
  then show ?case
  proof cases
    case 1
    moreover have "length (states m') = length (states m)" using arg_cong [OF 1(1), of length] by simp
    ultimately show ?thesis using inv by (simp add: store_inv_def)
  next
    case 2
    have l: "length (states m') = length (states m) + 1" using arg_cong [OF 2(2), of length] by simp
    have "unat (tracked m + 1) = unat (tracked m) + 1"
      using inv len by (simp add: unat_word_ariths)
    moreover have "length (filter (\<lambda>k. key_hash k \<noteq> OVERFLOW_KEY) (store_keys m @ [k])) \<le> unat MAX_TRACKED_CLIENTS"
    proof (cases "tracked m < max_tracked m")
      case True
      have "length (filter (\<lambda>k. key_hash k \<noteq> OVERFLOW_KEY) (store_keys m @ [k])) \<le> length (states m) + 1"
        using length_filter_le [of "\<lambda>k. key_hash k \<noteq> OVERFLOW_KEY" "store_keys m @ [k]"] by simp
      then show ?thesis using True inv by (simp add: word_less_nat_alt)
    next
      case False
      then show ?thesis using 2(5) inv by simp
    qed
    ultimately show ?thesis using inv 2 l consume.hyps(2) by (simp add: store_inv_def)
  qed
next
  case (evict m now_ms m' n)
  have eq: "states m' = filter (\<lambda>e. limiter_state_is_idle (snd e) now_ms \<noteq> Some True) (states m)"
      "tracked m' = of_nat (length (states m'))" "max_tracked m' = max_tracked m"
    using evict.hyps(2) by (auto simp: evict_idle_def Let_def split: if_splits)
  note inv = evict.IH [unfolded store_inv_def]
  have len: "length (states m') \<le> length (states m)" unfolding eq(1) by (rule length_filter_le)
  have "length (states m) < 2 ^ 64" using inv unat_lt_exp [of "tracked m"] by simp
  then have "unat (tracked m') = length (states m')" using len unfolding eq(2) by (simp add: unat_of_nat)
  moreover have "distinct (store_keys m')" using inv unfolding eq(1) by (auto intro: distinct_map_filter)
  moreover have "set (store_keys m') \<subseteq> set (store_keys m)" unfolding eq(1) by auto
  moreover have "length (filter (\<lambda>k. key_hash k \<noteq> OVERFLOW_KEY) (store_keys m')) \<le>
      length (filter (\<lambda>k. key_hash k \<noteq> OVERFLOW_KEY) (store_keys m))"
    unfolding eq(1) by (rule length_filter_map_filter)
  ultimately show ?case using inv eq(3) unfolding store_inv_def by fastforce
qed


text \<open>The client an address stands for, an IPv4 host or an IPv6 /64 network, and the address whose hash is its key.\<close>

definition client_of :: "ip_addr \<Rightarrow> u32 + u64" where
  "client_of ip = (case ip of V4 a \<Rightarrow> Inl a
     | V6 a \<Rightarrow> (case to_ipv4_mapped a of Some v4 \<Rightarrow> Inl v4 | None \<Rightarrow> Inr (ucast (drop_bit 64 a))))"

definition hashed_ip :: "u32 + u64 \<Rightarrow> ip_addr" where
  "hashed_ip c = (case c of Inl a \<Rightarrow> V4 a | Inr p \<Rightarrow> V6 (push_bit 64 (ucast p)))"

lemma prefix_mask: "x AND IPV6_PREFIX_MASK = push_bit 64 (ucast (ucast (drop_bit 64 x) :: u64))" for x :: u128
  unfolding IPV6_PREFIX_MASK_def by (rule bit_word_eqI) (auto simp: bit_simps)

lemma key_from_ip_client: "key_from_ip h ip scope = \<lparr>key_hash = h (hashed_ip (client_of ip)), key_scope = scope\<rparr>"
  by (auto simp: key_from_ip_def client_of_def hashed_ip_def prefix_mask split: ip_addr.split option.split)

lemma hashed_ip_inj: "hashed_ip c = hashed_ip c' \<longleftrightarrow> c = c'"
proof -
  have "drop_bit 64 (push_bit 64 (ucast p :: u128)) = ucast p" for p :: u64
    by (rule bit_word_eqI) (auto simp: bit_simps dest: bit_imp_le_length)
  moreover have "ucast (ucast p :: u128) = p" for p :: u64
    by (rule bit_word_eqI) (auto simp: bit_simps)
  ultimately have "ucast (drop_bit 64 (push_bit 64 (ucast p :: u128))) = p" for p :: u64 by simp
  then have "push_bit 64 (ucast p :: u128) = push_bit 64 (ucast q) \<longleftrightarrow> p = q" for p q :: u64 by metis
  then show ?thesis by (auto simp: hashed_ip_def split: sum.splits)
qed

section \<open>Properties\<close>

text \<open>C11. As long as the store has room, evicting its idle states is unobservable: when the states it has and the
  later requests together stay within the maximum of tracked clients, every sequence of later requests, of any clients
  under any policies, gets the same answers as without the eviction. Both algorithms' idle tests are therefore right to
  call such a state indistinguishable from a fresh one. On a full store an eviction is meant to be seen: it frees places
  for clients that would share the overflow entry.\<close>

theorem evict_idle_unobservable:
  assumes "store_wf cfgs m" "unat (tracked m) = length (states m)" "evict_idle m t = Some (m', n)"
    and "sorted (t # map fst calls)" "length (states m) + length calls \<le> unat (max_tracked m)"
  shows "consume_run cfgs m' calls = consume_run cfgs m calls"
proof -
  have eq: "states m' = filter (\<lambda>e. limiter_state_is_idle (snd e) t \<noteq> Some True) (states m)"
      "tracked m' = of_nat (length (states m'))" "max_tracked m' = max_tracked m"
    using assms(3) by (auto simp: evict_idle_def Let_def split: if_splits)
  have len: "length (states m') \<le> length (states m)" unfolding eq(1) by (rule length_filter_le)
  have "length (states m) < 2 ^ 64" using assms(2) unat_lt_exp [of "tracked m"] by simp
  then have "unat (tracked m') = length (states m')" using len unfolding eq(2) by (simp add: unat_of_nat)
  then show ?thesis
    using stores_like_run [OF evict_view [OF assms(1,3)] assms(4)] assms(2,5) len eq(3) by simp
qed

definition evict_example :: memory_rate_limiter where
  "evict_example = \<lparr>states = [(key_from_raw_hash 7 1, Bucket (tb_example\<lparr>tat_ns := 1500000000\<rparr>))],
     tracked = 1, max_tracked = MAX_TRACKED_CLIENTS\<rparr>"

theorem evict_idle_unobservable_witness:
  "evict_idle evict_example 2000 = Some (evict_example\<lparr>states := [], tracked := 0\<rparr>, 0) \<and>
   consume_run (\<lambda>_. tb_example_cfg) (evict_example\<lparr>states := [], tracked := 0\<rparr>) [(2000, key_from_raw_hash 7 1)] =
   consume_run (\<lambda>_. tb_example_cfg) evict_example [(2000, key_from_raw_hash 7 1)]"
proof -
  have ev: "evict_idle evict_example 2000 = Some (evict_example\<lparr>states := [], tracked := 0\<rparr>, 0)"
    by (simp add: evict_idle_def evict_example_def) (code_simp)
  have new: "limiter_state_new tb_example_cfg = Some (Bucket tb_example)"
    using tb_example_new by (simp add: limiter_state_new_def) (simp add: tb_example_cfg_def)
  have "store_wf (\<lambda>_. tb_example_cfg) evict_example"
    using new by (simp add: store_wf_def evict_example_def tb_fresh_def) (simp add: tb_example_def)
  with ev show ?thesis
    using evict_idle_unobservable [OF _ _ ev, of "\<lambda>_. tb_example_cfg" "[(2000, key_from_raw_hash 7 1)]"]
    by (simp add: evict_example_def MAX_TRACKED_CLIENTS_def)
qed

text \<open>C16. Memory is bounded: a store never holds more than the maximum number of tracked clients plus one
  overflow entry per policy, in any sequence of requests and evictions.\<close>

theorem store_memory_bounded:
  assumes "store_reach scopes m" "finite scopes" "card scopes < 2 ^ 63"
  shows "limiter_len m \<le> 2 ^ 20 + card scopes \<and> unat (tracked m) = limiter_len m"
  using store_inv_length [OF store_reach_inv [OF assms] assms(2)] store_reach_inv [OF assms]
  by (simp add: limiter_len_def store_inv_def MAX_TRACKED_CLIENTS_def)

theorem store_memory_bounded_witness:
  "\<exists>m r. consume memory_rate_limiter_new 1000 (key_from_raw_hash 7 1) tb_example_cfg = Some (m, r) \<and>
     limiter_len m = 1 \<and> limiter_len m \<le> 2 ^ 20 + card {1 :: u64, 2} \<and> unat (tracked m) = limiter_len m"
proof -
  let ?c = "consume memory_rate_limiter_new 1000 (key_from_raw_hash 7 1) tb_example_cfg"
  have "map_option (\<lambda>p. limiter_len (fst p)) ?c = Some 1" by code_simp
  then obtain m r where c: "?c = Some (m, r)" "limiter_len m = 1" by auto
  have "key_scope (key_from_raw_hash 7 1) \<in> {1 :: u64, 2}" by (simp add: key_from_raw_hash_def)
  from store_memory_bounded [OF store_reach.consume [OF store_reach.start this c(1)]] c show ?thesis by simp
qed

text \<open>C25. Two addresses get the same key, whatever the hash function is, exactly when they are the same client under
  the same policy: the same IPv4 host, also written as an IPv4-mapped IPv6 address, or the same IPv6 /64 network.
  Rotating addresses inside the network or switching the notation gives no second budget, and distinct clients are told
  apart by every hash function that tells their addresses apart.\<close>

theorem key_from_ip_groups:
  "(\<forall>h. key_from_ip h x scope = key_from_ip h y scope') \<longleftrightarrow> client_of x = client_of y \<and> scope = scope'"
proof
  assume all: "\<forall>h. key_from_ip h x scope = key_from_ip h y scope'"
  have "(if hashed_ip (client_of x) = hashed_ip (client_of y) then 1 else 0) = (1 :: u64)"
    using spec [OF all, of "\<lambda>ip. if ip = hashed_ip (client_of y) then 1 else 0"] by (simp add: key_from_ip_client)
  then have "hashed_ip (client_of x) = hashed_ip (client_of y)" by (simp split: if_splits)
  then show "client_of x = client_of y \<and> scope = scope'"
    using spec [OF all, of "\<lambda>_. 0"] hashed_ip_inj by (simp add: key_from_ip_client)
qed (simp add: key_from_ip_client)

end
