(* ===== verification/Host_Addr.thy ===== *)
theory Host_Addr
  imports Ascii
begin

text \<open>
  Upstream host addresses, \<^verbatim>\<open>shared/flatkit/src/net/host.rs\<close>: an optional scheme, a host name and an
  optional port. The \<^verbatim>\<open>Bytes\<close> slice of the host is the string itself.
\<close>

definition MAX_DNS_HOST_LEN :: nat where "MAX_DNS_HOST_LEN = 256"

datatype scheme = Http | Https

fun default_port :: "scheme \<Rightarrow> u16" where
  "default_port Http = 80"
| "default_port Https = 443"

definition parse_prefix :: "string \<Rightarrow> scheme \<times> string" where
  "parse_prefix s =
     (case strip_prefix ''https://'' s of
        Some remainder \<Rightarrow> (Https, remainder)
      | None \<Rightarrow>
          (case strip_prefix ''http://'' s of
             Some remainder \<Rightarrow> (Http, remainder)
           | None \<Rightarrow> (Http, s)))"

fun scheme_to_string :: "scheme \<Rightarrow> string" where
  "scheme_to_string Http = ''http''"
| "scheme_to_string Https = ''https''"

datatype host_addr_error = EmptyInput | InvalidPort | HostTooLong

fun host_addr_error_to_string :: "host_addr_error \<Rightarrow> string" where
  "host_addr_error_to_string EmptyInput = ''host address cannot be empty''"
| "host_addr_error_to_string InvalidPort = ''invalid port number after '' @ [CHR 0x27] @ '':'' @ [CHR 0x27]"
| "host_addr_error_to_string HostTooLong = ''host name exceeds the RFC limit of 256 characters''"

record host_addr =
  ha_scheme :: scheme
  ha_host :: string
  ha_port :: u16

definition into_parts :: "host_addr \<Rightarrow> string \<times> u16" where
  "into_parts a = (ha_host a, ha_port a)"

definition sni_name :: "host_addr \<Rightarrow> string" where
  "sni_name a = ha_host a"

definition is_https :: "host_addr \<Rightarrow> bool" where
  "is_https a \<longleftrightarrow> ha_scheme a = Https"

definition is_http :: "host_addr \<Rightarrow> bool" where
  "is_http a \<longleftrightarrow> ha_scheme a = Http"

definition host_addr_try_from :: "string \<Rightarrow> host_addr_error + host_addr" where
  "host_addr_try_from buffer =
     (if \<not> utf8_valid buffer then Inl EmptyInput
      else
        let raw_str = trim buffer in
        if raw_str = [] then Inl EmptyInput
        else
          let (scheme, remainder) = parse_prefix raw_str in
          case (case rposition (\<lambda>c. c = CHR '':'') remainder of
                  Some colon_idx \<Rightarrow>
                    (case parse_unsigned 65536 (drop (Suc colon_idx) remainder) of
                       None \<Rightarrow> Inl InvalidPort
                     | Some p \<Rightarrow> Inr (take colon_idx remainder, of_nat p))
                | None \<Rightarrow> Inr (remainder, default_port scheme)) of
            Inl e \<Rightarrow> Inl e
          | Inr (host_str, port) \<Rightarrow>
              (if host_str = [] then Inl EmptyInput
               else if length host_str > MAX_DNS_HOST_LEN then Inl HostTooLong
               else Inr \<lparr>ha_scheme = scheme, ha_host = host_str, ha_port = port\<rparr>))"

definition host_addr_of_pair :: "string \<times> u16 \<Rightarrow> host_addr" where
  "host_addr_of_pair v = \<lparr>ha_scheme = Http, ha_host = fst v, ha_port = snd v\<rparr>"

definition host_addr_to_string :: "host_addr \<Rightarrow> string" where
  "host_addr_to_string a =
     scheme_to_string (ha_scheme a) @ ''://'' @ ha_host a @ '':'' @ dec_of_nat (unat (ha_port a))"

section \<open>What parses\<close>

definition host_addr_wf :: "host_addr \<Rightarrow> bool" where
  "host_addr_wf a \<longleftrightarrow> ha_host a \<noteq> [] \<and> length (ha_host a) \<le> MAX_DNS_HOST_LEN"

lemma host_addr_try_from_wf: "host_addr_try_from s = Inr a \<Longrightarrow> host_addr_wf a"
  by (auto simp: host_addr_try_from_def host_addr_wf_def Let_def split: if_splits prod.splits sum.splits)

lemma parse_prefix_print:
  "parse_prefix (scheme_to_string sc @ ''://'' @ rest) = (sc, rest)"
  by (cases sc) (simp_all add: parse_prefix_def strip_prefix_def)

lemma dec_digits_range: "c \<in> set (dec_of_nat n) \<Longrightarrow> 48 \<le> (of_char c :: nat) \<and> (of_char c :: nat) \<le> 57"
  using dec_of_nat_free [of c n] by blast

lemma scheme_ascii: "c \<in> set (scheme_to_string sc) \<Longrightarrow> (of_char c :: nat) \<le> 127 \<and> \<not> is_whitespace c"
  by (cases sc) (auto simp: is_whitespace_def)

lemma host_addr_to_string_trim: "trim (host_addr_to_string a) = host_addr_to_string a"
proof (rule trim_id, rule disjI2)
  have "\<not> is_whitespace (hd (host_addr_to_string a))"
    by (cases "ha_scheme a") (simp_all add: host_addr_to_string_def is_whitespace_def)
  moreover have "last (host_addr_to_string a) \<in> set (dec_of_nat (unat (ha_port a)))"
    by (simp add: host_addr_to_string_def dec_of_nat_not_Nil)
  then have "\<not> is_whitespace (last (host_addr_to_string a))"
    by (auto simp: is_whitespace_def dest!: dec_digits_range)
  ultimately show "\<not> is_whitespace (hd (host_addr_to_string a)) \<and>
      \<not> is_whitespace (last (host_addr_to_string a))" by blast
qed

lemma host_addr_to_string_utf8:
  assumes "utf8_valid (ha_host a)"
  shows "utf8_valid (host_addr_to_string a)"
proof -
  have "utf8_valid (scheme_to_string (ha_scheme a))" by (rule utf8_valid_ascii) (use scheme_ascii in blast)
  moreover have "utf8_valid (dec_of_nat (unat (ha_port a)))"
    by (rule utf8_valid_ascii) (fastforce dest: dec_digits_range)
  moreover have "utf8_valid ''://''" "utf8_valid '':''" by (rule utf8_valid_ascii; simp)+
  ultimately show ?thesis
    unfolding host_addr_to_string_def using assms by (intro utf8_valid_append)
qed

text \<open>C21. Printing a host address with a valid name and parsing the text gives the address back: the scheme,
  the name and the port, whether or not the port is the default of the scheme.\<close>

theorem host_addr_roundtrip:
  assumes "host_addr_wf a" "utf8_valid (ha_host a)"
  shows "host_addr_try_from (host_addr_to_string a) = Inr a"
proof -
  let ?rest = "ha_host a @ CHR '':'' # dec_of_nat (unat (ha_port a))"
  have pre: "parse_prefix (host_addr_to_string a) = (ha_scheme a, ?rest)"
    using parse_prefix_print [of "ha_scheme a" ?rest] by (simp add: host_addr_to_string_def)
  have colon: "rposition (\<lambda>c. c = CHR '':'') ?rest = Some (length (ha_host a))"
    by (rule rposition_append_stop) (auto dest!: dec_digits_range)
  have port: "parse_unsigned 65536 (dec_of_nat (unat (ha_port a))) = Some (unat (ha_port a))"
    using unat_lt_exp [of "ha_port a"] by (simp add: parse_unsigned_dec_of_nat)
  have "host_addr_to_string a \<noteq> []" by (simp add: host_addr_to_string_def)
  then show ?thesis
    using assms host_addr_to_string_utf8 [OF assms(2)]
    by (simp add: host_addr_try_from_def host_addr_to_string_trim pre colon port host_addr_wf_def Let_def)
qed

theorem host_addr_roundtrip_witness:
  "host_addr_try_from (host_addr_to_string \<lparr>ha_scheme = Https, ha_host = ''api.local'', ha_port = 8443\<rparr>) =
     Inr \<lparr>ha_scheme = Https, ha_host = ''api.local'', ha_port = 8443\<rparr>"
  by (rule host_addr_roundtrip)
    (simp_all add: host_addr_wf_def MAX_DNS_HOST_LEN_def utf8_valid_def utf8_tails_def byte_in_def)

end
