(* ===== verification/Balancer.thy ===== *)
theory Balancer
  imports Host_Addr Ipnet "HOL-Library.Multiset"
begin

text \<open>
  The load balancer, \<^verbatim>\<open>ophan/src/balancer\<close>: backends with their health and counters, upstreams, the
  three selection strategies, and the decision part of the active health checks. A backend shared
  through an \<^verbatim>\<open>Arc\<close> is identified by its index in the upstream's list. The thread-local ticket is
  passed in and out, the clock and the outcome of a DNS lookup are arguments, and of the peer type
  of the external proxy crate only the settings the code writes are kept.
\<close>

section \<open>Protocols and addresses\<close>

datatype http2_mode = Standard | Grpc

datatype network_protocol = Http1 bool | Http2 http2_mode

definition network_protocol_default :: network_protocol where
  "network_protocol_default = Http1 False"

fun is_http2 :: "network_protocol \<Rightarrow> bool" where
  "is_http2 (Http2 _) = True"
| "is_http2 (Http1 _) = False"

fun is_grpc :: "network_protocol \<Rightarrow> bool" where
  "is_grpc (Http2 Grpc) = True"
| "is_grpc _ = False"

fun allow_websocket_upgrade :: "network_protocol \<Rightarrow> bool" where
  "allow_websocket_upgrade (Http1 allow) = allow"
| "allow_websocket_upgrade (Http2 _) = False"

definition network_protocol_from_str :: "string \<Rightarrow> string + network_protocol" where
  "network_protocol_from_str s =
     (if s = ''http1'' \<or> s = ''h1'' then Inr (Http1 False)
      else if s = ''websocket'' \<or> s = ''ws'' then Inr (Http1 True)
      else if s = ''http2'' \<or> s = ''h2'' then Inr (Http2 Standard)
      else if s = ''grpc'' then Inr (Http2 Grpc)
      else Inl (''invalid protocol '' @ [CHR 0x27] @ s @ [CHR 0x27] @
        '': expected http1, http2, websocket, or grpc''))"

type_synonym socket_addr = "ip_addr \<times> u16"

datatype backend_addr = Tcp socket_addr | Host host_addr | Uds string

section \<open>Peers\<close>

datatype alpn = H1 | H2 | H2H1

record tcp_keepalive_opts =
  ka_idle :: duration
  ka_interval :: duration
  ka_count :: nat
  ka_user_timeout :: duration

record peer_options =
  connection_timeout :: "duration option"
  total_connection_timeout :: "duration option"
  read_timeout :: "duration option"
  write_timeout :: "duration option"
  idle_timeout :: "duration option"
  alpn :: alpn
  tcp_keepalive :: "tcp_keepalive_opts option"
  max_h2_streams :: nat
  h2_ping_interval :: "duration option"

datatype peer_target = ToSocket socket_addr | ToPath string

record http_peer =
  peer_target :: peer_target
  peer_tls :: bool
  peer_sni :: string
  peer_opts :: peer_options

datatype peer_error = NotResolved string | ResolveFailed string | UdsError

record peer_template =
  template_peer :: http_peer
  expires_at :: "nat option"

section \<open>Backends\<close>

record backend =
  be_addr :: backend_addr
  be_protocol :: network_protocol
  be_host_addr :: "host_addr option"
  active_conns :: usize
  total_requests :: u64
  failed_requests :: u64
  weight :: u32
  healthy :: bool
  check_successes :: u32
  check_failures :: u32
  be_template :: "peer_template option"
  host_header :: "string option"

definition backend_new :: "backend_addr \<Rightarrow> u32 \<Rightarrow> backend" where
  "backend_new addr w =
     \<lparr>be_addr = addr, be_protocol = network_protocol_default, be_host_addr = None, active_conns = 0,
      total_requests = 0, failed_requests = 0, weight = w, healthy = True, check_successes = 0,
      check_failures = 0, be_template = None, host_header = None\<rparr>"

definition backend_from_tcp :: "socket_addr \<Rightarrow> u32 \<Rightarrow> backend" where
  "backend_from_tcp addr w = backend_new (Tcp addr) w"

definition backend_from_uds :: "string \<Rightarrow> u32 \<Rightarrow> backend" where
  "backend_from_uds path w = backend_new (Uds path) w"

text \<open>\<^verbatim>\<open>HeaderValue::from_str\<close> accepts visible ASCII and tabs.\<close>

definition header_value_from_str :: "string \<Rightarrow> string option" where
  "header_value_from_str s =
     (if list_all (\<lambda>c. (32 \<le> (of_char c :: nat) \<and> (of_char c :: nat) < 127) \<or> (of_char c :: nat) = 9) s then Some s else None)"

definition backend_from_host :: "host_addr \<Rightarrow> u32 \<Rightarrow> backend" where
  "backend_from_host addr w =
     (let b = (backend_new (Host addr) w)\<lparr>be_host_addr := Some addr\<rparr>;
          (host, port) = into_parts addr;
          dflt = (if is_https addr then 443 else 80)
      in b\<lparr>host_header :=
           (if port = dflt then header_value_from_str host
            else header_value_from_str (host @ '':'' @ dec_of_nat (unat port)))\<rparr>)"

definition set_protocol :: "backend \<Rightarrow> network_protocol \<Rightarrow> backend" where
  "set_protocol b p = b\<lparr>be_protocol := p\<rparr>"

definition set_healthy :: "backend \<Rightarrow> bool \<Rightarrow> backend" where
  "set_healthy b status = (if healthy b \<noteq> status then b\<lparr>healthy := status\<rparr> else b)"

definition set_weight :: "backend \<Rightarrow> u32 \<Rightarrow> backend" where
  "set_weight b w = b\<lparr>weight := w\<rparr>"

definition report_check :: "backend \<Rightarrow> bool \<Rightarrow> u32 \<Rightarrow> u32 \<Rightarrow> backend" where
  "report_check b ok healthy_threshold unhealthy_threshold =
     (if ok then
        (let streak = sat_add (check_successes b) 1;
             b = b\<lparr>check_failures := 0, check_successes := check_successes b + 1\<rparr>
         in if streak \<ge> max healthy_threshold 1 then set_healthy b True else b)
      else
        (let streak = sat_add (check_failures b) 1;
             b = b\<lparr>check_successes := 0, check_failures := check_failures b + 1\<rparr>
         in if streak \<ge> max unhealthy_threshold 1 then set_healthy b False else b))"

definition acquire :: "backend \<Rightarrow> backend" where
  "acquire b = b\<lparr>active_conns := active_conns b + 1\<rparr>"

definition release :: "backend \<Rightarrow> backend" where
  "release b = b\<lparr>active_conns := active_conns b - 1\<rparr>"

definition record_request :: "backend \<Rightarrow> backend" where
  "record_request b = b\<lparr>total_requests := total_requests b + 1\<rparr>"

definition record_failure :: "backend \<Rightarrow> backend" where
  "record_failure b = b\<lparr>failed_requests := failed_requests b + 1\<rparr>"

section \<open>Peer settings and name resolution\<close>

text \<open>\<open>dflt\<close> are the options of a new peer and \<open>uds_ok\<close> tells which socket paths the external crate
  accepts. Times are in nanoseconds.\<close>

definition build_peer ::
  "peer_options \<Rightarrow> (string \<Rightarrow> bool) \<Rightarrow> backend \<Rightarrow> socket_addr option \<Rightarrow> peer_error + http_peer" where
  "build_peer dflt uds_ok b resolved =
     (case (case (be_addr b, resolved) of
              (Tcp addr, _) \<Rightarrow> Inr (ToSocket addr, False, '''')
            | (Host host, Some addr) \<Rightarrow> Inr (ToSocket addr, is_https host, sni_name host)
            | (Host host, None) \<Rightarrow> Inl (NotResolved (ha_host host))
            | (Uds path, _) \<Rightarrow> if uds_ok path then Inr (ToPath path, False, '''') else Inl UdsError) of
        Inl e \<Rightarrow> Inl e
      | Inr (target, peer_tls', sni) \<Rightarrow>
          (let tls = (case be_addr b of Host host \<Rightarrow> is_https host | _ \<Rightarrow> False);
               opts = dflt\<lparr>connection_timeout := Some (from_secs 3),
                 total_connection_timeout := Some (from_secs 5), read_timeout := Some (from_secs 30),
                 write_timeout := Some (from_secs 30), idle_timeout := Some (from_secs 15),
                 alpn := H1,
                 tcp_keepalive := Some \<lparr>ka_idle = from_secs 60, ka_interval = from_secs 10, ka_count = 3,
                   ka_user_timeout = from_secs 0\<rparr>\<rparr>;
               opts = (if is_http2 (be_protocol b) \<or> is_grpc (be_protocol b) then
                   opts\<lparr>alpn := H2, max_h2_streams := 256, h2_ping_interval := Some (from_secs 30)\<rparr>
                 else if tls \<and> \<not> allow_websocket_upgrade (be_protocol b) then
                   opts\<lparr>alpn := H2H1, h2_ping_interval := Some (from_secs 30)\<rparr>
                 else opts);
               opts = (if allow_websocket_upgrade (be_protocol b) then
                   opts\<lparr>alpn := H1, read_timeout := Some (from_secs 86400),
                     write_timeout := Some (from_secs 86400), idle_timeout := Some (from_secs 15)\<rparr>
                 else opts)
           in Inr \<lparr>peer_target = target, peer_tls = peer_tls', peer_sni = sni, peer_opts = opts\<rparr>))"

definition DNS_TTL :: nat where "DNS_TTL = 30 * 1000000000"
definition DNS_NEGATIVE_TTL :: nat where "DNS_NEGATIVE_TTL = 5 * 1000000000"

definition install_template ::
  "peer_options \<Rightarrow> (string \<Rightarrow> bool) \<Rightarrow> backend \<Rightarrow> socket_addr option \<Rightarrow> nat option \<Rightarrow>
   backend \<times> (peer_error + http_peer)" where
  "install_template dflt uds_ok b resolved expires =
     (case build_peer dflt uds_ok b resolved of
        Inl e \<Rightarrow> (b, Inl e)
      | Inr p \<Rightarrow> (b\<lparr>be_template := Some \<lparr>template_peer = p, expires_at = expires\<rparr>\<rparr>, Inr p))"

definition template_fresh :: "peer_template \<Rightarrow> nat \<Rightarrow> bool" where
  "template_fresh t now \<longleftrightarrow> (case expires_at t of None \<Rightarrow> True | Some at \<Rightarrow> at > now)"

text \<open>\<open>lookup\<close> is the first address the resolver returned in time, \<open>None\<close> for every failure; \<open>now\<close> is
  the time of the call and \<open>now'\<close> the time after the lookup.\<close>

definition peer ::
  "peer_options \<Rightarrow> (string \<Rightarrow> bool) \<Rightarrow> backend \<Rightarrow> nat \<Rightarrow> nat \<Rightarrow> socket_addr option \<Rightarrow>
   backend \<times> (peer_error + http_peer)" where
  "peer dflt uds_ok b now now' lookup =
     (case (case be_template b of
              Some t \<Rightarrow> if template_fresh t now then Some (template_peer t) else None
            | None \<Rightarrow> None) of
        Some p \<Rightarrow> (b, Inr p)
      | None \<Rightarrow>
          (case be_addr b of
             Host host \<Rightarrow>
               (case lookup of
                  Some addr \<Rightarrow> install_template dflt uds_ok b (Some addr) (Some (now' + DNS_TTL))
                | None \<Rightarrow>
                    (case be_template b of
                       Some t \<Rightarrow>
                         (b\<lparr>be_template := Some \<lparr>template_peer = template_peer t,
                             expires_at = Some (now' + DNS_NEGATIVE_TTL)\<rparr>\<rparr>, Inr (template_peer t))
                     | None \<Rightarrow> (b, Inl (ResolveFailed (ha_host host)))))
           | _ \<Rightarrow> install_template dflt uds_ok b None None))"

section \<open>Upstreams\<close>

datatype balance_strategy = RoundRobin | LeastConnections | IpHash

definition balance_strategy_from_str :: "string \<Rightarrow> string + balance_strategy" where
  "balance_strategy_from_str v =
     (let s = to_ascii_lowercase (trim v) in
      if s = ''round_robin'' \<or> s = ''round-robin'' then Inr RoundRobin
      else if s = ''least_connections'' \<or> s = ''least-connections'' then Inr LeastConnections
      else if s = ''ip_hash'' \<or> s = ''ip-hash'' then Inr IpHash
      else Inl (''invalid load_balance strategy '' @ [CHR 0x27] @ v @ [CHR 0x27] @
        '', expected one of: round_robin, weighted_round_robin, least_connections, ip_hash''))"

fun balance_strategy_to_str :: "balance_strategy \<Rightarrow> string" where
  "balance_strategy_to_str RoundRobin = ''round_robin''"
| "balance_strategy_to_str LeastConnections = ''least_connections''"
| "balance_strategy_to_str IpHash = ''ip_hash''"

record health_check_config =
  hc_path :: "string option"
  hc_interval :: duration
  hc_timeout :: duration
  unhealthy_threshold :: u32
  healthy_threshold :: u32

record upstream =
  up_id :: usize
  up_name :: string
  up_health :: "health_check_config option"
  servers :: "backend list"
  balance_strategy :: balance_strategy
  last_check_ms :: u64
  up_checking :: bool

definition upstream_new :: "usize \<Rightarrow> string \<Rightarrow> backend list \<Rightarrow> balance_strategy \<Rightarrow> upstream" where
  "upstream_new i name backends lb =
     \<lparr>up_id = i, up_name = name, up_health = None, servers = backends, balance_strategy = lb,
      last_check_ms = 0, up_checking = False\<rparr>"

definition update_backends :: "upstream \<Rightarrow> backend list \<Rightarrow> upstream" where
  "update_backends u backends = u\<lparr>servers := backends\<rparr>"

definition is_due :: "upstream \<Rightarrow> u64 \<Rightarrow> bool" where
  "is_due u now_ms \<longleftrightarrow>
     (case up_health u of
        None \<Rightarrow> False
      | Some health \<Rightarrow>
          last_check_ms u = 0 \<or> sat_sub now_ms (last_check_ms u) \<ge> ucast (as_millis (hc_interval health)))"

definition mark_checked :: "upstream \<Rightarrow> u64 \<Rightarrow> upstream" where
  "mark_checked u now_ms = u\<lparr>last_check_ms := now_ms\<rparr>"

text \<open>The ticket of the calling thread goes in and out.\<close>

definition next_ticket :: "upstream \<Rightarrow> usize \<Rightarrow> usize \<times> usize" where
  "next_ticket u ticket =
     (case balance_strategy u of
        RoundRobin \<Rightarrow> (ticket, ticket + 1)
      | LeastConnections \<Rightarrow> (ticket, ticket + 1)
      | IpHash \<Rightarrow> (0, ticket))"

section \<open>Selection\<close>

abbreviation healthy_at :: "backend list \<Rightarrow> nat \<Rightarrow> bool" where
  "healthy_at bs i \<equiv> healthy (bs ! i)"

fun ip_hash_loop :: "backend list \<Rightarrow> usize \<Rightarrow> nat \<Rightarrow> nat option" where
  "ip_hash_loop bs hash 0 = None"
| "ip_hash_loop bs hash (Suc n) =
     (let idx = unat (hash mod of_nat (length bs)) in
      if healthy_at bs idx then Some idx else ip_hash_loop bs (hash + 1) n)"

fun round_robin_loop :: "backend list \<Rightarrow> usize \<Rightarrow> nat list \<Rightarrow> nat option" where
  "round_robin_loop bs start_idx [] = None"
| "round_robin_loop bs start_idx (i # is) =
     (let next_idx = unat ((start_idx + of_nat i) mod of_nat (length bs)) in
      if healthy_at bs next_idx then Some next_idx else round_robin_loop bs start_idx is)"

definition next_backend :: "upstream \<Rightarrow> backend list \<Rightarrow> ip_addr \<Rightarrow> usize \<Rightarrow> nat option \<times> usize" where
  "next_backend u bs client_ip ticket =
     (let backend_len = (of_nat (length bs) :: usize) in
      if length bs = 1 then (if healthy_at bs 0 then Some 0 else None, ticket)
      else case balance_strategy u of
        IpHash \<Rightarrow> (ip_hash_loop bs (hash_ip client_ip) (length bs), ticket)
      | RoundRobin \<Rightarrow>
          (let (t, ticket') = next_ticket u ticket;
               start_idx = t mod backend_len
           in (if healthy_at bs (unat start_idx) then Some (unat start_idx)
               else round_robin_loop bs start_idx [1..<length bs], ticket'))
      | LeastConnections \<Rightarrow>
          (let (t, ticket') = next_ticket u ticket;
               idx1 = unat (t mod backend_len);
               idx2 = unat ((t + backend_len div 2) mod backend_len)
           in (case (healthy_at bs idx1, healthy_at bs idx2) of
                 (True, True) \<Rightarrow> Some (if active_conns (bs ! idx1) \<le> active_conns (bs ! idx2) then idx1 else idx2)
               | (True, False) \<Rightarrow> Some idx1
               | (False, True) \<Rightarrow> Some idx2
               | (False, False) \<Rightarrow> position healthy bs, ticket')))"

datatype balancer_error = UpstreamNotFound | UpstreamEmpty | AllServersUnhealthy

fun balancer_error_format :: "balancer_error \<Rightarrow> string \<Rightarrow> string" where
  "balancer_error_format UpstreamNotFound name =
     ''Upstream cluster '' @ [CHR 0x27] @ name @ [CHR 0x27] @ '' not found in router registry''"
| "balancer_error_format UpstreamEmpty name =
     ''Upstream cluster '' @ [CHR 0x27] @ name @ [CHR 0x27] @ '' has zero configured backends''"
| "balancer_error_format AllServersUnhealthy name =
     ''All backends in the upstream cluster '' @ [CHR 0x27] @ name @ [CHR 0x27] @ '' are unhealthy''"

fun balancer_error_to_string :: "balancer_error \<Rightarrow> string" where
  "balancer_error_to_string UpstreamNotFound = ''Upstream cluster not found in router registry''"
| "balancer_error_to_string UpstreamEmpty = ''Upstream cluster has zero configured backends''"
| "balancer_error_to_string AllServersUnhealthy = ''All backends in the upstream cluster are unhealthy''"

text \<open>The load balancer is its list of upstreams. The selected backend is returned as its index.\<close>

definition select_backend ::
  "upstream list \<Rightarrow> nat \<Rightarrow> ip_addr \<Rightarrow> usize \<Rightarrow> upstream list \<times> usize \<times> (balancer_error + nat)" where
  "select_backend ups upstream_id client_ip ticket =
     (if upstream_id \<ge> length ups then (ups, ticket, Inl UpstreamNotFound)
      else
        let u = ups ! upstream_id; backends = servers u in
        if backends = [] then (ups, ticket, Inl UpstreamEmpty)
        else case next_backend u backends client_ip ticket of
          (None, ticket') \<Rightarrow> (ups, ticket', Inl AllServersUnhealthy)
        | (Some i, ticket') \<Rightarrow>
            (ups[upstream_id := u\<lparr>servers := backends[i := record_request (acquire (backends ! i))]\<rparr>],
             ticket', Inr i))"

section \<open>Active health checks\<close>

text \<open>The status line of a probe; \<open>probe_ok\<close> is the verdict on the twelve bytes that were read.\<close>

definition parse_status :: "string \<Rightarrow> nat option" where
  "parse_status line =
     (if take 7 line \<noteq> ''HTTP/1.'' \<or> line ! 8 \<noteq> CHR '' '' then None
      else if \<not> utf8_valid (take 3 (drop 9 line)) then None
      else parse_unsigned 65536 (take 3 (drop 9 line)))"

definition probe_ok :: "string \<Rightarrow> bool" where
  "probe_ok line \<longleftrightarrow> (case parse_status line of None \<Rightarrow> False | Some code \<Rightarrow> 200 \<le> code \<and> code < 400)"

text \<open>One run of the checks of an upstream, given the outcome of each probe.\<close>

definition check_upstream :: "upstream \<Rightarrow> bool list \<Rightarrow> upstream" where
  "check_upstream u oks =
     (case up_health u of
        None \<Rightarrow> u
      | Some health \<Rightarrow>
          u\<lparr>servers := map (\<lambda>(b, ok). report_check b ok (healthy_threshold health) (unhealthy_threshold health))
              (zip (servers u) oks)\<rparr>)"

text \<open>\<open>check_due\<close> returns the upstreams and the indices whose checks it started.\<close>

definition start_check :: "u64 \<Rightarrow> upstream \<Rightarrow> upstream \<times> bool" where
  "start_check now_ms u =
     (if \<not> is_due u now_ms then (u, False)
      else if up_checking u then (u\<lparr>up_checking := True\<rparr>, False)
      else (mark_checked (u\<lparr>up_checking := True\<rparr>) now_ms, True))"

definition check_due :: "upstream list \<Rightarrow> u64 \<Rightarrow> upstream list \<times> nat list" where
  "check_due ups now_ms =
     (map (\<lambda>u. fst (start_check now_ms u)) ups,
      filter (\<lambda>i. snd (start_check now_ms (ups ! i))) [0..<length ups])"

definition finish_check :: "upstream \<Rightarrow> bool list \<Rightarrow> upstream" where
  "finish_check u oks = (check_upstream u oks)\<lparr>up_checking := False\<rparr>"

section \<open>Cyclic probing\<close>

lemma unat_mod_len:
  "0 < n \<Longrightarrow> n < 2 ^ 64 \<Longrightarrow> unat ((x :: usize) mod of_nat n) = unat x mod n"
  by (simp add: unat_mod unat_of_nat)

lemma cyclic_inj:
  assumes "(s + i) mod n = (s + j) mod n" "i < n" "j < (n :: nat)"
  shows "i = j"
proof -
  have "x = y" if "x \<le> y" "y < n" "(s + x) mod n = (s + y) mod n" for x y
  proof -
    have "n dvd (s + y) - (s + x)" using that(1,3) mod_eq_dvd_iff_nat [of "s + x" "s + y" n] by simp
    then have "n dvd y - x" by simp
    moreover have "y - x < n" using that(2) by simp
    ultimately show ?thesis using that(1) by (cases "y - x = 0") (auto dest: dvd_imp_le)
  qed
  from this [of i j] this [of j i] assms show ?thesis by (cases "i \<le> j") simp_all
qed

lemma cyclic_distinct: "k \<le> n \<Longrightarrow> distinct (map (\<lambda>j. (s + j) mod n) [0..<k])"
  by (auto simp: distinct_map intro!: inj_onI dest: cyclic_inj)

lemma cyclic_range:
  assumes "0 < n"
  shows "set (map (\<lambda>j. (s + j) mod n) [0..<n]) = {0..<n}"
proof (rule card_subset_eq)
  show "set (map (\<lambda>j. (s + j) mod n) [0..<n]) \<subseteq> {0..<n}" using assms by auto
  show "card (set (map (\<lambda>j. (s + j) mod n) [0..<n])) = card {0..<n}"
    using distinct_card [OF cyclic_distinct [of n n s]] by simp
qed simp

lemma find_cyclic_None:
  assumes "0 < n"
  shows "find P (map (\<lambda>j. (s + j) mod n) [0..<n]) = None \<longleftrightarrow> (\<forall>i<n. \<not> P i)"
  unfolding find_None_iff cyclic_range [OF assms] by auto

lemma find_cyclic_Some:
  assumes "0 < n" "find P (map (\<lambda>j. (s + j) mod n) [0..<n]) = Some i"
  shows "i < n \<and> P i"
proof -
  obtain pre post where "map (\<lambda>j. (s + j) mod n) [0..<n] = pre @ i # post" "P i"
    using assms(2) unfolding find_Some_split by blast
  then have "i \<in> set (map (\<lambda>j. (s + j) mod n) [0..<n])" "P i" by (simp_all only: set_append) simp_all
  then show ?thesis unfolding cyclic_range [OF assms(1)] by simp
qed

lemma upt_shift: "[0..<Suc k] = 0 # map Suc [0..<k]"
  using upt_conv_Cons [of 0 "Suc k"] by (simp add: map_Suc_upt del: upt_Suc)

lemma unat_add_nowrap: "unat (h :: usize) + k < 2 ^ 64 \<Longrightarrow> unat (h + of_nat k) = unat h + k"
  by (simp add: unat_word_ariths unat_of_nat)

lemma ip_hash_loop_find:
  assumes "bs \<noteq> []" "length bs < 2 ^ 64"
  shows "unat h + k \<le> 2 ^ 64 \<Longrightarrow>
    ip_hash_loop bs h k = find (healthy_at bs) (map (\<lambda>j. (unat h + j) mod length bs) [0..<k])"
proof (induction k arbitrary: h)
  case (Suc k)
  have idx: "unat (h mod of_nat (length bs)) = unat h mod length bs"
    using assms by (simp add: unat_mod_len)
  show ?case
  proof (cases "k = 0")
    case False
    then have h1: "unat (h + 1) = unat h + 1" using Suc.prems unat_add_nowrap [of h 1] by simp
    have "ip_hash_loop bs (h + 1) k =
        find (healthy_at bs) (map (\<lambda>j. (unat h + Suc j) mod length bs) [0..<k])"
      using Suc.IH [of "h + 1"] Suc.prems h1 by simp
    then show ?thesis by (simp add: idx comp_def Let_def upt_shift del: upt_Suc)
  qed (simp add: idx Let_def)
qed simp

lemma round_robin_loop_find:
  assumes "bs \<noteq> []" "length bs < 2 ^ 63" "unat start < length bs" "\<forall>i\<in>set is. i < length bs"
  shows "round_robin_loop bs start is =
    find (healthy_at bs) (map (\<lambda>i. (unat start + i) mod length bs) is)"
  using assms(4)
proof (induction "is")
  case (Cons i "is")
  have "unat ((start + of_nat i) mod of_nat (length bs)) = (unat start + i) mod length bs"
    using assms(1-3) Cons.prems unat_add_nowrap [of start i] by (simp add: unat_mod_len)
  then show ?case using Cons by (simp add: Let_def)
qed simp

lemma take_bit_bound:
  assumes "\<And>n. 32 \<le> n \<Longrightarrow> \<not> bit (w :: usize) n"
  shows "unat w < 2 ^ 32"
proof -
  have "take_bit 32 w = w" by (rule bit_word_eqI) (metis assms bit_take_bit_iff not_le)
  then have "unat w = take_bit 32 (unat w)" by (metis unsigned_take_bit_eq)
  then show ?thesis by (metis take_bit_nat_less_exp)
qed

lemma ucast_u32_bound: "unat (ucast (x :: u32) :: usize) < 2 ^ 32"
  by (rule take_bit_bound) (auto simp: bit_simps dest: bit_imp_le_length)

lemma hash_halves_bound: "unat (ucast (ucast (a :: u16) XOR push_bit 16 (ucast (b :: u16)) :: u64) :: usize) < 2 ^ 32"
  by (rule take_bit_bound) (auto simp: bit_simps dest: bit_imp_le_length)

lemma hash_ip_bound: "unat (hash_ip ip) < 2 ^ 32"
  by (cases ip) (simp_all only: hash_ip.simps Let_def ucast_u32_bound hash_halves_bound)


section \<open>Every strategy finds a healthy backend\<close>

lemma round_robin_find:
  assumes "bs \<noteq> []" "length bs < 2 ^ 63"
  shows "(if healthy_at bs (unat (t mod of_nat (length bs))) then Some (unat (t mod of_nat (length bs)))
      else round_robin_loop bs (t mod of_nat (length bs)) [1..<length bs]) =
    find (healthy_at bs) (map (\<lambda>j. (unat t mod length bs + j) mod length bs) [0..<length bs])"
proof -
  let ?n = "length bs" and ?s = "t mod of_nat (length bs)"
  have s: "unat ?s = unat t mod ?n" "unat ?s < ?n" using assms by (simp_all add: unat_mod_len)
  have "round_robin_loop bs ?s [1..<?n] = find (healthy_at bs) (map (\<lambda>i. (unat ?s + i) mod ?n) [1..<?n])"
    using assms s(2) by (intro round_robin_loop_find) auto
  moreover have "[0..<?n] = 0 # [1..<?n]" using assms(1) by (simp add: upt_conv_Cons)
  ultimately show ?thesis
    by (simp only: list.map find.simps s(1) add_0_right mod_mod_trivial)
qed

lemma position_healthy:
  "position healthy bs = None \<longleftrightarrow> (\<forall>i<length bs. \<not> healthy_at bs i)"
  "position healthy bs = Some i \<Longrightarrow> i < length bs \<and> healthy_at bs i"
  by (simp_all add: all_set_conv_all_nth) (use position_SomeD [of healthy bs i] in blast)

definition picks_healthy :: "backend list \<Rightarrow> nat option \<Rightarrow> bool" where
  "picks_healthy bs r \<longleftrightarrow>
     (case r of None \<Rightarrow> \<forall>i<length bs. \<not> healthy_at bs i | Some i \<Rightarrow> i < length bs \<and> healthy_at bs i)"

lemma picks_healthy_find:
  assumes "bs \<noteq> []"
  shows "picks_healthy bs (find (healthy_at bs) (map (\<lambda>j. (s + j) mod length bs) [0..<length bs]))"
    (is "picks_healthy bs ?r")
proof -
  have pos: "0 < length bs" using assms by simp
  show ?thesis
  proof (cases ?r)
    case None
    from iffD1 [OF find_cyclic_None [OF pos] None] show ?thesis
      unfolding None picks_healthy_def by simp
  next
    case (Some i)
    from find_cyclic_Some [OF pos Some] show ?thesis unfolding Some picks_healthy_def by simp
  qed
qed

lemma next_backend_healthy:
  assumes "bs \<noteq> []" "length bs < 2 ^ 32"
  shows "picks_healthy bs (fst (next_backend u bs ip ticket))"
proof (cases "length bs = 1")
  case True
  then show ?thesis by (simp add: next_backend_def picks_healthy_def)
next
  case False
  show ?thesis
  proof (cases "balance_strategy u")
    case RoundRobin
    have "fst (next_backend u bs ip ticket) =
        find (healthy_at bs) (map (\<lambda>j. (unat ticket mod length bs + j) mod length bs) [0..<length bs])"
      using RoundRobin False round_robin_find [OF assms(1), of ticket] assms(2)
      by (simp add: next_backend_def next_ticket_def Let_def)
    then show ?thesis using picks_healthy_find [OF assms(1)] by simp
  next
    case LeastConnections
    let ?i = "unat (ticket mod of_nat (length bs))"
    let ?j = "unat ((ticket + of_nat (length bs) div 2) mod of_nat (length bs))"
    have "?i < length bs" "?j < length bs" using assms by (simp_all add: unat_mod_len)
    then show ?thesis
      using LeastConnections False position_healthy(1) [of bs] position_healthy(2) [of bs]
      by (auto simp: next_backend_def next_ticket_def Let_def picks_healthy_def split: bool.split option.split)
  next
    case IpHash
    have "fst (next_backend u bs ip ticket) =
        find (healthy_at bs) (map (\<lambda>j. (unat (hash_ip ip) + j) mod length bs) [0..<length bs])"
      using IpHash False ip_hash_loop_find [OF assms(1), of "hash_ip ip" "length bs"] assms(2) hash_ip_bound [of ip]
      by (simp add: next_backend_def)
    then show ?thesis using picks_healthy_find [OF assms(1)] by simp
  qed
qed

section \<open>Consecutive selections of one thread\<close>





section \<open>Health check streaks\<close>

definition check_run :: "backend \<Rightarrow> u32 \<Rightarrow> u32 \<Rightarrow> bool list \<Rightarrow> backend" where
  "check_run b ht ut oks = foldl (\<lambda>b ok. report_check b ok ht ut) b oks"

text \<open>The number of results equal to \<open>ok\<close> at the end of the sequence.\<close>

definition streak :: "bool \<Rightarrow> bool list \<Rightarrow> nat" where
  "streak ok oks = length (takeWhile (\<lambda>r. r = ok) (rev oks))"

lemma streak_simps [simp]:
  "streak ok [] = 0" "streak ok (oks @ [r]) = (if r = ok then Suc (streak ok oks) else 0)"
  by (simp_all add: streak_def)

lemma streak_le: "streak ok oks \<le> length oks"
  using length_takeWhile_le [of "\<lambda>r. r = ok" "rev oks"] by (simp add: streak_def)

abbreviation counter :: "bool \<Rightarrow> backend \<Rightarrow> u32" where
  "counter ok b \<equiv> (if ok then check_successes b else check_failures b)"

lemma report_check_counter:
  "counter ok (report_check b r ht ut) = (if r = ok then counter ok b + 1 else 0)"
  by (auto simp: report_check_def set_healthy_def Let_def)

lemma report_check_healthy:
  "healthy (report_check b r ht ut) =
     (if sat_add (counter r b) 1 \<ge> max (if r then ht else ut) 1 then r else healthy b)"
  by (auto simp: report_check_def set_healthy_def Let_def)

lemma unat_add_one_le: "unat (c + 1) \<le> unat (c :: 'a::len word) + 1"
  by (simp add: unat_word_ariths)

lemma check_run_snoc: "check_run b ht ut (oks @ [r]) = report_check (check_run b ht ut oks) r ht ut"
  by (simp add: check_run_def)

lemma counter_le_streak:
  assumes "check_successes b = 0" "check_failures b = 0"
  shows "unat (counter ok (check_run b ht ut oks)) \<le> streak ok oks"
proof (induction oks rule: rev_induct)
  case Nil
  then show ?case using assms by (simp add: check_run_def)
next
  case (snoc r oks)
  then show ?case
    using unat_add_one_le [of "counter ok (check_run b ht ut oks)"]
    unfolding check_run_snoc report_check_counter streak_simps by (simp del: streak_simps split: if_splits)
qed

lemma counter_eq_streak:
  assumes "check_successes b = 0" "check_failures b = 0" "length oks < 2 ^ 32"
  shows "unat (counter ok (check_run b ht ut oks)) = streak ok oks"
  using assms(3)
proof (induction oks rule: rev_induct)
  case Nil
  then show ?case using assms(1,2) by (simp add: check_run_def)
next
  case (snoc r oks)
  have "unat (counter ok (check_run b ht ut oks)) = streak ok oks" using snoc by simp
  moreover have "streak ok oks + 1 < 2 ^ 32" using snoc.prems streak_le [of ok oks] by simp
  ultimately have "unat (counter ok (check_run b ht ut oks) + 1) = streak ok oks + 1"
    by (simp add: unat_word_ariths)
  then show ?case unfolding check_run_snoc report_check_counter streak_simps by simp
qed

lemma check_run_decides:
  assumes "check_successes b = 0" "check_failures b = 0" "length oks < 2 ^ 32"
    and "streak ok oks \<ge> max (unat (if ok then ht else ut)) 1"
  shows "healthy (check_run b ht ut oks) = ok"
proof -
  obtain pre r where oks: "oks = pre @ [r]" using assms(4) by (cases oks rule: rev_cases) auto
  then have r: "r = ok" using assms(4) by (cases "r = ok") auto
  have "unat (counter ok (check_run b ht ut pre)) = streak ok pre"
    using counter_eq_streak [OF assms(1,2), of pre] assms(3) oks by simp
  moreover have "streak ok pre + 1 < 2 ^ 32" using assms(3) oks streak_le [of ok pre] by simp
  ultimately have "max (if ok then ht else ut) 1 \<le> sat_add (counter ok (check_run b ht ut pre)) 1"
    using assms(4) oks r by (simp add: word_le_nat_alt unat_sat_add unat_max split del: if_split)
  then show ?thesis unfolding oks check_run_snoc report_check_healthy r by simp
qed

lemma check_run_flip:
  assumes "check_successes b = 0" "check_failures b = 0"
    and "healthy (check_run b ht ut (oks @ [r])) \<noteq> healthy (check_run b ht ut oks)"
  shows "healthy (check_run b ht ut (oks @ [r])) = r \<and> streak r (oks @ [r]) \<ge> max (unat (if r then ht else ut)) 1"
proof -
  have flip: "max (if r then ht else ut) 1 \<le> sat_add (counter r (check_run b ht ut oks)) 1"
      "healthy (check_run b ht ut (oks @ [r])) = r"
    using assms(3) unfolding check_run_snoc report_check_healthy by (auto split: if_splits)
  have "max (unat (if r then ht else ut)) 1 \<le> unat (counter r (check_run b ht ut oks)) + 1"
    using flip(1) by (simp add: word_le_nat_alt unat_sat_add unat_max split del: if_split)
  also have "\<dots> \<le> streak r (oks @ [r])" using counter_le_streak [OF assms(1,2), of r ht ut oks] by simp
  finally show ?thesis using flip(2) by blast
qed


section \<open>Status codes\<close>

lemma dec_loop_two:
  "dec_loop 65536 0 [y, z] = Some n \<Longrightarrow> n < 100"
  by (auto split: option.splits if_splits dest!: digit_val_lt_10)

lemma dec_loop_three:
  "dec_loop 65536 0 [x, y, z] = Some n \<longleftrightarrow>
    (\<exists>a b c. digit_val x = Some a \<and> digit_val y = Some b \<and> digit_val z = Some c \<and> n = 100 * a + 10 * b + c)"
proof
  assume "dec_loop 65536 0 [x, y, z] = Some n"
  then show "\<exists>a b c. digit_val x = Some a \<and> digit_val y = Some b \<and> digit_val z = Some c \<and> n = 100 * a + 10 * b + c"
    by (auto split: option.splits if_splits)
next
  assume "\<exists>a b c. digit_val x = Some a \<and> digit_val y = Some b \<and> digit_val z = Some c \<and> n = 100 * a + 10 * b + c"
  then obtain a b c where d: "digit_val x = Some a" "digit_val y = Some b" "digit_val z = Some c"
      "n = 100 * a + 10 * b + c" by blast
  moreover have "a < 10" "b < 10" "c < 10" using d by (auto dest: digit_val_lt_10)
  ultimately show "dec_loop 65536 0 [x, y, z] = Some n" by simp
qed

lemma digit_val_char: "digit_val x = Some d \<longleftrightarrow> d < 10 \<and> x = digit_char d"
  using digit_val_digit_char [of d] digit_val_lt_10 [of x d]
  by (auto simp: digit_val_def digit_char_def split: if_splits)

lemma status_code_iff:
  "(utf8_valid [x, y, z] \<and> (\<exists>n. parse_unsigned 65536 [x, y, z] = Some n \<and> 200 \<le> n \<and> n < 400)) \<longleftrightarrow>
    x \<in> {CHR ''2'', CHR ''3''} \<and> digit_val y \<noteq> None \<and> digit_val z \<noteq> None"
proof
  assume l: "utf8_valid [x, y, z] \<and> (\<exists>n. parse_unsigned 65536 [x, y, z] = Some n \<and> 200 \<le> n \<and> n < 400)"
  then obtain n where n: "parse_unsigned 65536 [x, y, z] = Some n" "200 \<le> n" "n < 400" by blast
  have "x \<noteq> CHR ''+''" using n dec_loop_two [of y z n] by (auto simp: parse_unsigned_def)
  then obtain a b c where d: "digit_val x = Some a" "digit_val y = Some b" "digit_val z = Some c"
      "n = 100 * a + 10 * b + c"
    using n(1) dec_loop_three [of x y z n] by (auto simp: parse_unsigned_def simp del: dec_loop.simps)
  then have "b < 10" "c < 10" by (auto dest: digit_val_lt_10)
  then have "a = 2 \<or> a = 3" using n(2,3) d(4) by linarith
  moreover have "x = digit_char a" using d(1) by (simp add: digit_val_char)
  moreover have "digit_char 2 = CHR ''2''" "digit_char 3 = CHR ''3''" by code_simp+
  ultimately show "x \<in> {CHR ''2'', CHR ''3''} \<and> digit_val y \<noteq> None \<and> digit_val z \<noteq> None"
    using d(2,3) by auto
next
  assume r: "x \<in> {CHR ''2'', CHR ''3''} \<and> digit_val y \<noteq> None \<and> digit_val z \<noteq> None"
  then obtain b c where d: "digit_val y = Some b" "digit_val z = Some c" by auto
  then have lt: "b < 10" "c < 10" by (auto dest: digit_val_lt_10)
  obtain a where a: "digit_val x = Some a" "a = 2 \<or> a = 3" "x \<noteq> CHR ''+''"
    using r by (auto simp: digit_val_def)
  have "parse_unsigned 65536 [x, y, z] = Some (100 * a + 10 * b + c)"
    using a d dec_loop_three [of x y z] by (simp add: parse_unsigned_def del: dec_loop.simps)
  moreover have "utf8_valid [x, y, z]"
    using a(1) d by (intro utf8_valid_ascii) (auto simp: digit_val_def split: if_splits)
  ultimately show "utf8_valid [x, y, z] \<and> (\<exists>n. parse_unsigned 65536 [x, y, z] = Some n \<and> 200 \<le> n \<and> n < 400)"
    using a(2) lt by auto
qed

section \<open>Calls to one backend\<close>

text \<open>Each call with its time, the time after its lookup and what the lookup gives.\<close>

fun peer_run ::
  "peer_options \<Rightarrow> (string \<Rightarrow> bool) \<Rightarrow> backend \<Rightarrow> (nat \<times> nat \<times> socket_addr option) list \<Rightarrow>
   backend \<times> (peer_error + http_peer) list" where
  "peer_run dflt uds_ok b [] = (b, [])"
| "peer_run dflt uds_ok b ((now, now', lookup) # calls) =
     (let (b', r) = peer dflt uds_ok b now now' lookup; (b'', rs) = peer_run dflt uds_ok b' calls
      in (b'', r # rs))"

lemma peer_run_append:
  "snd (peer_run dflt uds_ok b (cs @ ds)) =
     snd (peer_run dflt uds_ok b cs) @ snd (peer_run dflt uds_ok (fst (peer_run dflt uds_ok b cs)) ds)"
proof (induction cs arbitrary: b)
  case (Cons c cs)
  show ?case by (cases c) (simp add: Cons.IH split_beta Let_def)
qed simp

lemma run_failing:
  assumes "be_template b = Some t" "be_addr b = Host host" "\<forall>(now, now', lookup)\<in>set calls. lookup = None"
  shows "snd (peer_run dflt uds_ok b calls) = replicate (length calls) (Inr (template_peer t))"
  using assms
proof (induction calls arbitrary: b t)
  case (Cons c calls)
  obtain now now' where c: "c = (now, now', None)" using Cons.prems(3) by (cases c) auto
  obtain b' t' where p: "peer dflt uds_ok b now now' None = (b', Inr (template_peer t))"
      "be_template b' = Some t'" "template_peer t' = template_peer t" "be_addr b' = Host host"
    using Cons.prems(1,2) by (cases "template_fresh t now") (auto simp: peer_def)
  show ?case using Cons.IH [OF p(2,4)] Cons.prems(3) p(1,3) by (simp add: c split_beta)
qed simp

lemma run_cached:
  assumes "be_template b = Some t" "\<forall>(now, now', lookup)\<in>set calls. template_fresh t now"
  shows "peer_run dflt uds_ok b calls = (b, replicate (length calls) (Inr (template_peer t)))"
  using assms(2)
proof (induction calls)
  case (Cons c calls)
  then show ?case using assms(1) by (cases c) (simp add: peer_def)
qed simp

lemma peer_resolves:
  assumes "be_addr b = Host host" "\<not> (\<exists>t. be_template b = Some t \<and> template_fresh t now)"
    and "build_peer dflt uds_ok b (Some a) = Inr p"
  shows "peer dflt uds_ok b now now' (Some a) =
    (b\<lparr>be_template := Some \<lparr>template_peer = p, expires_at = Some (now' + DNS_TTL)\<rparr>\<rparr>, Inr p)"
  using assms by (auto simp: peer_def install_template_def split: option.split)

lemma build_peer_host: "be_addr b = Host host \<Longrightarrow> \<exists>p. build_peer dflt uds_ok b (Some a) = Inr p \<and> peer_target p = ToSocket a"
  by (simp add: build_peer_def Let_def)


section \<open>Properties\<close>

text \<open>C10. Under every strategy, a selection succeeds exactly when the upstream exists and has a healthy
  backend: it then returns a healthy backend of the list and counts the request on that backend
  and on no other. Otherwise it reports which of the three conditions failed and changes nothing.\<close>

theorem select_backend_correct:
  assumes "uid < length ups \<Longrightarrow> length (servers (ups ! uid)) < 2 ^ 32"
  shows "case select_backend ups uid ip ticket of (ups', _, r) \<Rightarrow>
    (case r of
       Inr i \<Rightarrow> uid < length ups \<and> i < length (servers (ups ! uid)) \<and> healthy (servers (ups ! uid) ! i) \<and>
         ups' = ups[uid := (ups ! uid)\<lparr>servers :=
           (servers (ups ! uid))[i := record_request (acquire (servers (ups ! uid) ! i))]\<rparr>]
     | Inl UpstreamNotFound \<Rightarrow> ups' = ups \<and> length ups \<le> uid
     | Inl UpstreamEmpty \<Rightarrow> ups' = ups \<and> uid < length ups \<and> servers (ups ! uid) = []
     | Inl AllServersUnhealthy \<Rightarrow> ups' = ups \<and> uid < length ups \<and> servers (ups ! uid) \<noteq> [] \<and>
         (\<forall>i<length (servers (ups ! uid)). \<not> healthy (servers (ups ! uid) ! i)))"
proof (cases "uid < length ups \<and> servers (ups ! uid) \<noteq> []")
  case True
  obtain p t where nb: "next_backend (ups ! uid) (servers (ups ! uid)) ip ticket = (p, t)" by fastforce
  have "picks_healthy (servers (ups ! uid)) p"
    using next_backend_healthy [of "servers (ups ! uid)" "ups ! uid" ip ticket] True assms nb by simp
  then show ?thesis
    using True nb by (auto simp: select_backend_def Let_def picks_healthy_def split: option.splits)
qed (auto simp: select_backend_def)

definition balancer_example :: "upstream list" where
  "balancer_example = [upstream_new 0 ''api''
     [set_healthy (backend_from_tcp (V4 1, 80) 1) False, backend_from_tcp (V4 2, 80) 1,
      backend_from_tcp (V4 3, 80) 1] RoundRobin]"

theorem select_backend_correct_witness:
  "\<exists>ups' t. select_backend balancer_example 0 (V4 7) 0 = (ups', t, Inr 1) \<and>
     healthy (servers (balancer_example ! 0) ! 1)"
proof -
  have "snd (snd (select_backend balancer_example 0 (V4 7) 0)) = Inr 1" by code_simp
  then obtain ups' t where sel: "select_backend balancer_example 0 (V4 7) 0 = (ups', t, Inr 1)"
    by (metis prod.collapse)
  have "length (servers (balancer_example ! 0)) < 2 ^ 32" by (simp add: balancer_example_def upstream_new_def)
  then show ?thesis
    using select_backend_correct [of 0 balancer_example "V4 7" 0] sel by simp
qed




text \<open>C24. IP hashing is sticky: while the backend the client's hash points to is healthy, every selection
  returns it, whatever the other backends' health, the connection counts and the ticket are.\<close>

theorem ip_hash_sticky:
  assumes "balance_strategy u = IpHash" "1 < length bs" "length bs < 2 ^ 32"
    and "healthy (bs ! (unat (hash_ip ip) mod length bs))"
  shows "fst (next_backend u bs ip ticket) = Some (unat (hash_ip ip) mod length bs)"
proof -
  obtain k where k: "length bs = Suc k" using assms(2) by (cases "length bs") auto
  have "unat (hash_ip ip mod of_nat (length bs)) = unat (hash_ip ip) mod length bs"
    using assms(2,3) by (intro unat_mod_len) auto
  then have "ip_hash_loop bs (hash_ip ip) (Suc k) = Some (unat (hash_ip ip) mod length bs)"
    using assms(4) by (simp add: Let_def)
  then show ?thesis using assms(1,2) k by (simp add: next_backend_def)
qed

theorem ip_hash_sticky_witness:
  "fst (next_backend (upstream_new 0 ''api'' [] IpHash)
     [backend_from_tcp (V4 1, 80) 1, backend_from_tcp (V4 2, 80) 1] (V4 0) 9) = Some 0"
proof -
  have h: "hash_ip (V4 0) = 0" by code_simp
  show ?thesis
    using ip_hash_sticky [of "upstream_new 0 ''api'' [] IpHash"
        "[backend_from_tcp (V4 1, 80) 1, backend_from_tcp (V4 2, 80) 1]" "V4 0" 9]
    unfolding h by (simp add: upstream_new_def backend_from_tcp_def backend_new_def)
qed

text \<open>C22. Active health checks use consecutive results: after a streak of the threshold length the backend has
  the state of the streak, and it changes its state only at the end of such a streak (the counters
  may wrap after four billion checks, but a wrapped counter never causes a change).\<close>

theorem health_checks_need_streak:
  "(length oks < 2 ^ 32 \<and> streak ok oks \<ge> max (unat (if ok then ht else ut)) 1 \<longrightarrow>
      healthy (check_run (backend_new addr w) ht ut oks) = ok) \<and>
   (healthy (check_run (backend_new addr w) ht ut (oks @ [r])) \<noteq> healthy (check_run (backend_new addr w) ht ut oks) \<longrightarrow>
      streak r (oks @ [r]) \<ge> max (unat (if r then ht else ut)) 1)"
  using check_run_decides [of "backend_new addr w" oks ok ht ut]
    check_run_flip [of "backend_new addr w" ht ut oks r]
  by (auto simp: backend_new_def)

theorem health_checks_need_streak_witness:
  "\<not> healthy (check_run (backend_new (Tcp (V4 1, 80)) 1) 2 3 [True, False, False, False])"
  using health_checks_need_streak [of "[True, False, False, False]" False 2 3 "Tcp (V4 1, 80)" 1]
  by (simp add: streak_def)

text \<open>C19. A failing name service does not take a backend out of service. After a lookup that found an address, every
  later call gets the peer of that address: for the lifetime of the address, whatever its lookup would give, and after it
  in every further call whose lookup fails, however many there are and however long it lasts.\<close>

theorem peer_survives_dns_failure:
  assumes "be_addr b = Host host" "\<not> (\<exists>t. be_template b = Some t \<and> template_fresh t now)"
    and "\<forall>(at, at', lookup)\<in>set early. at < now' + DNS_TTL"
    and "\<forall>(at, at', lookup)\<in>set failing. lookup = None"
  shows "\<exists>p. build_peer dflt uds_ok b (Some a) = Inr p \<and> peer_target p = ToSocket a \<and>
    snd (peer_run dflt uds_ok b ((now, now', Some a) # early @ failing)) =
      replicate (1 + length early + length failing) (Inr p)"
proof -
  obtain p where p: "build_peer dflt uds_ok b (Some a) = Inr p" "peer_target p = ToSocket a"
    using build_peer_host [OF assms(1)] by blast
  define t where "t = \<lparr>template_peer = p, expires_at = Some (now' + DNS_TTL)\<rparr>"
  define b1 where "b1 = b\<lparr>be_template := Some t\<rparr>"
  have b1: "be_template b1 = Some t" "be_addr b1 = Host host" "template_peer t = p"
    using assms(1) by (simp_all add: b1_def t_def)
  have "\<forall>(at, at', lookup)\<in>set early. template_fresh t at"
    using assms(3) by (auto simp: t_def template_fresh_def)
  note early = run_cached [OF b1(1) this, of dflt uds_ok]
  have "peer dflt uds_ok b now now' (Some a) = (b1, Inr p)"
    using peer_resolves [OF assms(1,2) p(1)] by (simp add: b1_def t_def)
  moreover have "snd (peer_run dflt uds_ok b1 (early @ failing)) =
      replicate (length early) (Inr p) @ replicate (length failing) (Inr p)"
    using run_failing [OF b1(1,2) assms(4), of dflt uds_ok] early b1(3) by (simp add: peer_run_append)
  ultimately show ?thesis using p by (simp add: split_beta replicate_add)
qed

definition peer_example_opts :: peer_options where
  "peer_example_opts = \<lparr>connection_timeout = None, total_connection_timeout = None, read_timeout = None,
     write_timeout = None, idle_timeout = None, alpn = H1, tcp_keepalive = None, max_h2_streams = 1, h2_ping_interval = None\<rparr>"

definition dns_example :: backend where
  "dns_example = backend_from_host \<lparr>ha_scheme = Https, ha_host = ''api.local'', ha_port = 443\<rparr> 1"

theorem peer_survives_dns_failure_witness:
  "\<exists>p. build_peer peer_example_opts (\<lambda>_. True) dns_example (Some (V4 9, 443)) = Inr p \<and>
     snd (peer_run peer_example_opts (\<lambda>_. True) dns_example
       [(0, 1, Some (V4 9, 443)), (30000000000, 30000000000, Some (V4 8, 443)), (40000000000, 41000000000, None),
        (50000000000, 51000000000, None)]) = [Inr p, Inr p, Inr p, Inr p]"
proof -
  let ?host = "\<lparr>ha_scheme = Https, ha_host = ''api.local'', ha_port = 443\<rparr>"
  let ?early = "[(30000000000, 30000000000, Some (V4 8, 443))] :: (nat \<times> nat \<times> socket_addr option) list"
  let ?failing = "[(40000000000, 41000000000, None), (50000000000, 51000000000, None)] :: (nat \<times> nat \<times> socket_addr option) list"
  have b: "be_addr dns_example = Host ?host" "be_template dns_example = None"
    by (simp_all add: dns_example_def backend_from_host_def backend_new_def into_parts_def)
  have e: "\<forall>(at, at', lookup)\<in>set ?early. at < 1 + DNS_TTL" by (simp add: DNS_TTL_def)
  have f: "\<forall>(at, at', lookup)\<in>set ?failing. lookup = None" by simp
  have n: "1 + length ?early + length ?failing = 4" "replicate 4 r = [r, r, r, r]" for r :: "peer_error + http_peer"
    by simp (simp add: numeral_eq_Suc)
  from peer_survives_dns_failure [OF b(1) _ e f, of 0 peer_example_opts "\<lambda>_. True" "(V4 9, 443)"] show ?thesis
    unfolding n b(2) append_Cons append_Nil by blast
qed

text \<open>C26. A health probe succeeds exactly on a status line of HTTP/1.x whose code has three digits and
  starts with 2 or 3; in particular the sign that the integer parser accepts is never accepted.\<close>

theorem probe_ok_iff:
  assumes "length line = 12"
  shows "probe_ok line \<longleftrightarrow> take 7 line = ''HTTP/1.'' \<and> line ! 8 = CHR '' '' \<and>
    line ! 9 \<in> {CHR ''2'', CHR ''3''} \<and> digit_val (line ! 10) \<noteq> None \<and> digit_val (line ! 11) \<noteq> None"
proof -
  have code: "take 3 (drop 9 line) = [line ! 9, line ! 10, line ! 11]"
    using assms by (intro nth_equalityI) (auto simp: less_Suc_eq numeral_eq_Suc)
  show ?thesis
    unfolding status_code_iff [symmetric] probe_ok_def parse_status_def code
    by (auto split: option.splits)
qed

theorem probe_ok_iff_witness: "probe_ok ''HTTP/1.1 204'' \<and> \<not> probe_ok ''HTTP/1.1 +20''"
  using probe_ok_iff [of "''HTTP/1.1 204''"] probe_ok_iff [of "''HTTP/1.1 +20''"] by (simp add: digit_val_def)

end
