(* ===== verification/Byte_Mask.thy ===== *)
theory Byte_Mask
  imports Prelude
begin

text \<open>
  The 256-bit byte set of \<^verbatim>\<open>shared/flatkit/src/matchers/byte_mask.rs\<close> and its refinement of the sets of
  bytes: \<open>mask_set\<close> maps a mask of 32 octets to the set it stands for, and the locale \<open>byte_set\<close>
  states the operations as operations on that set.
\<close>

record byte_mask =
  mask_bits :: "u8 list"

definition mask_EMPTY :: byte_mask where "mask_EMPTY = \<lparr>mask_bits = replicate 32 0\<rparr>"
definition mask_ALL :: byte_mask where "mask_ALL = \<lparr>mask_bits = replicate 32 0xFF\<rparr>"

definition mask_new :: byte_mask where "mask_new = mask_EMPTY"

definition mask_insert :: "byte_mask \<Rightarrow> u8 \<Rightarrow> byte_mask" where
  "mask_insert m b =
     (let i = unat (drop_bit 3 b) in
      m\<lparr>mask_bits := (mask_bits m)[i := mask_bits m ! i OR push_bit (unat (b AND 7)) 1]\<rparr>)"

text \<open>The bytes of an inclusive range, in order; empty when \<open>from\<close> is above \<open>to\<close>.\<close>

definition byte_range :: "u8 \<Rightarrow> u8 \<Rightarrow> u8 list" where
  "byte_range from to = map of_nat [unat from..<Suc (unat to)]"

definition mask_insert_bytes :: "byte_mask \<Rightarrow> u8 list \<Rightarrow> byte_mask" where
  "mask_insert_bytes m bs = foldl mask_insert m bs"

definition mask_insert_range :: "byte_mask \<Rightarrow> u8 \<Rightarrow> u8 \<Rightarrow> byte_mask" where
  "mask_insert_range m from to = foldl mask_insert m (byte_range from to)"

definition mask_remove :: "byte_mask \<Rightarrow> u8 \<Rightarrow> byte_mask" where
  "mask_remove m b =
     (let i = unat (drop_bit 3 b) in
      m\<lparr>mask_bits := (mask_bits m)[i := mask_bits m ! i AND NOT (push_bit (unat (b AND 7)) 1)]\<rparr>)"

definition mask_invert :: "byte_mask \<Rightarrow> byte_mask" where
  "mask_invert m = m\<lparr>mask_bits := map (\<lambda>slot. NOT slot) (mask_bits m)\<rparr>"

definition mask_contains :: "byte_mask \<Rightarrow> u8 \<Rightarrow> bool" where
  "mask_contains m b \<longleftrightarrow> mask_bits m ! unat (drop_bit 3 b) AND push_bit (unat (b AND 7)) 1 \<noteq> 0"

definition mask_is_empty :: "byte_mask \<Rightarrow> bool" where
  "mask_is_empty m \<longleftrightarrow> list_all (\<lambda>x. x = 0) (mask_bits m)"

definition mask_union :: "byte_mask \<Rightarrow> byte_mask \<Rightarrow> byte_mask" where
  "mask_union m other = m\<lparr>mask_bits := map2 (\<lambda>a b. a OR b) (mask_bits m) (mask_bits other)\<rparr>"

definition mask_intersection :: "byte_mask \<Rightarrow> byte_mask \<Rightarrow> byte_mask" where
  "mask_intersection m other = m\<lparr>mask_bits := map2 (\<lambda>a b. a AND b) (mask_bits m) (mask_bits other)\<rparr>"

text \<open>The loop of \<^verbatim>\<open>from_class_body\<close> on the rest of the body.\<close>

fun class_body_loop :: "byte_mask \<Rightarrow> u8 list \<Rightarrow> byte_mask" where
  "class_body_loop m [] = m"
| "class_body_loop m (lo # dash # hi # rest) =
     (if dash = 0x2D then class_body_loop (mask_insert_range m (min lo hi) (max lo hi)) rest
      else class_body_loop (mask_insert m lo) (dash # hi # rest))"
| "class_body_loop m (b # rest) = class_body_loop (mask_insert m b) rest"

definition mask_from_class_body :: "u8 list \<Rightarrow> byte_mask" where
  "mask_from_class_body body =
     (if body = [] then mask_new
      else
        let negate = (hd body = 0x5E);
            m = class_body_loop mask_new (if negate then tl body else body)
        in if negate then mask_invert m else m)"

definition mask_from_str_bytes :: "u8 list \<Rightarrow> byte_mask" where
  "mask_from_str_bytes s = mask_insert_bytes mask_new s"

section \<open>Masks as sets\<close>

definition mask_wf :: "byte_mask \<Rightarrow> bool" where
  "mask_wf m \<longleftrightarrow> length (mask_bits m) = 32"

definition mask_set :: "byte_mask \<Rightarrow> u8 set" where
  "mask_set m = {b. mask_contains m b}"

text \<open>The set a class body denotes: single bytes and ranges, written in either order.\<close>

fun class_items :: "u8 list \<Rightarrow> u8 set" where
  "class_items [] = {}"
| "class_items (lo # dash # hi # rest) =
     (if dash = 0x2D then {min lo hi..max lo hi} \<union> class_items rest
      else {lo} \<union> class_items (dash # hi # rest))"
| "class_items (b # rest) = {b} \<union> class_items rest"

definition class_set :: "u8 list \<Rightarrow> u8 set" where
  "class_set body =
     (case body of b # rest \<Rightarrow> if b = 0x5E then - class_items rest else class_items body | [] \<Rightarrow> {})"

abbreviation slot :: "u8 \<Rightarrow> nat" where "slot b \<equiv> unat (drop_bit 3 b)"
abbreviation offset :: "u8 \<Rightarrow> nat" where "offset b \<equiv> unat (b AND 7)"

lemma byte_split: "unat (b :: u8) = 8 * slot b + offset b"
proof -
  have "b AND 7 = take_bit 3 b" by (simp add: take_bit_eq_mask mask_eq_exp_minus_1)
  then show ?thesis by (simp add: drop_bit_eq_div take_bit_eq_mod unat_div unat_mod)
qed

lemma offset_lt: "offset b < 8"
proof -
  have "b AND 7 = take_bit 3 b" by (simp add: take_bit_eq_mask mask_eq_exp_minus_1)
  then show ?thesis by (simp add: take_bit_eq_mod unat_mod)
qed

lemma slot_lt: "slot b < 32"
  using byte_split [of b] unat_lt_exp [of b] by simp

lemma byte_eqI: "slot b = slot c \<Longrightarrow> offset b = offset c \<Longrightarrow> b = c"
  using byte_split [of b] byte_split [of c] by (simp add: word_unat_eq_iff)

lemma mask_contains_bit: "mask_contains m b \<longleftrightarrow> bit (mask_bits m ! slot b) (offset b)"
  by (simp add: mask_contains_def bit_iff_and_push_bit_not_eq_0)

lemma mask_wf_ops:
  "mask_wf mask_EMPTY" "mask_wf mask_ALL" "mask_wf (mask_insert m b) \<longleftrightarrow> mask_wf m"
  "mask_wf (mask_remove m b) \<longleftrightarrow> mask_wf m" "mask_wf (mask_invert m) \<longleftrightarrow> mask_wf m"
  "mask_wf m \<Longrightarrow> mask_wf m' \<Longrightarrow> mask_wf (mask_union m m')"
  "mask_wf m \<Longrightarrow> mask_wf m' \<Longrightarrow> mask_wf (mask_intersection m m')"
  by (simp_all add: mask_wf_def mask_EMPTY_def mask_ALL_def mask_insert_def mask_remove_def mask_invert_def
      mask_union_def mask_intersection_def Let_def)

lemma mask_set_EMPTY: "mask_set mask_EMPTY = {}"
  by (simp add: mask_set_def mask_contains_bit mask_EMPTY_def slot_lt)

lemma mask_set_ALL: "mask_set mask_ALL = UNIV"
proof -
  have full: "(0xFF :: u8) = mask 8" by (simp add: mask_eq_exp_minus_1)
  show ?thesis
    unfolding mask_set_def mask_contains_bit mask_ALL_def full
    by (simp add: slot_lt offset_lt bit_mask_iff del: mask_numeral)
qed

lemma mask_set_insert: "mask_wf m \<Longrightarrow> mask_set (mask_insert m b) = insert b (mask_set m)"
  by (auto simp: mask_set_def mask_contains_bit mask_insert_def mask_wf_def Let_def nth_list_update slot_lt
      bit_or_iff bit_exp_iff offset_lt intro: byte_eqI)

lemma mask_set_remove: "mask_wf m \<Longrightarrow> mask_set (mask_remove m b) = mask_set m - {b}"
  by (auto simp: mask_set_def mask_contains_bit mask_remove_def mask_wf_def Let_def nth_list_update slot_lt
      bit_and_iff bit_not_iff bit_exp_iff offset_lt intro: byte_eqI)

lemma mask_set_invert: "mask_wf m \<Longrightarrow> mask_set (mask_invert m) = - mask_set m"
  by (auto simp: mask_set_def mask_contains_bit mask_invert_def mask_wf_def slot_lt bit_not_iff offset_lt)

lemma mask_set_union: "mask_wf m \<Longrightarrow> mask_wf m' \<Longrightarrow> mask_set (mask_union m m') = mask_set m \<union> mask_set m'"
  by (auto simp: mask_set_def mask_contains_bit mask_union_def mask_wf_def slot_lt bit_or_iff)

lemma mask_set_intersection:
  "mask_wf m \<Longrightarrow> mask_wf m' \<Longrightarrow> mask_set (mask_intersection m m') = mask_set m \<inter> mask_set m'"
  by (auto simp: mask_set_def mask_contains_bit mask_intersection_def mask_wf_def slot_lt bit_and_iff)

lemma split_unique: "8 * i + n = 8 * j + k \<Longrightarrow> n < 8 \<Longrightarrow> k < 8 \<Longrightarrow> i = j \<and> n = (k :: nat)"
  by presburger

lemma byte_exists:
  assumes "i < 32" "n < 8"
  shows "\<exists>b. slot b = i \<and> offset b = n"
proof -
  have "8 * i + n < 2 ^ LENGTH(8)" using assms by simp
  then have "unat (of_nat (8 * i + n) :: u8) = 8 * i + n"
    by (simp only: unat_of_nat mod_less)
  then have "8 * slot (of_nat (8 * i + n)) + offset (of_nat (8 * i + n)) = 8 * i + n"
    by (simp only: byte_split [symmetric])
  then have "slot (of_nat (8 * i + n)) = i \<and> offset (of_nat (8 * i + n)) = n"
    by (rule split_unique [OF _ offset_lt assms(2)])
  then show ?thesis by blast
qed

lemma mask_is_empty_iff:
  assumes "mask_wf m"
  shows "mask_is_empty m \<longleftrightarrow> mask_set m = {}"
proof
  assume "mask_is_empty m"
  then show "mask_set m = {}"
    using assms slot_lt by (auto simp: mask_is_empty_def mask_set_def mask_contains_bit list_all_length mask_wf_def)
next
  assume e: "mask_set m = {}"
  have "mask_bits m ! i = 0" if i: "i < 32" for i
  proof (rule bit_word_eqI)
    fix n
    assume "n < LENGTH(8)"
    then obtain b where "slot b = i" "offset b = n" using byte_exists [OF i, of n] by auto
    then show "bit (mask_bits m ! i) n = bit 0 n" using e by (auto simp: mask_set_def mask_contains_bit)
  qed
  then show "mask_is_empty m" using assms by (simp add: mask_is_empty_def list_all_length mask_wf_def)
qed

section \<open>The interface\<close>

locale byte_set =
  fixes wf :: "'m \<Rightarrow> bool"
    and abs :: "'m \<Rightarrow> u8 set"
    and empty :: 'm
    and ins :: "'m \<Rightarrow> u8 \<Rightarrow> 'm"
    and compl :: "'m \<Rightarrow> 'm"
  assumes wf_empty: "wf empty" and wf_ins: "wf m \<Longrightarrow> wf (ins m b)" and wf_compl: "wf m \<Longrightarrow> wf (compl m)"
    and abs_empty: "abs empty = {}"
    and abs_ins: "wf m \<Longrightarrow> abs (ins m b) = insert b (abs m)"
    and abs_compl: "wf m \<Longrightarrow> abs (compl m) = - abs m"
begin

lemma ins_all: "wf m \<Longrightarrow> wf (foldl ins m bs) \<and> abs (foldl ins m bs) = abs m \<union> set bs"
  by (induction bs arbitrary: m) (auto simp: wf_ins abs_ins)

end

interpretation mask: byte_set mask_wf mask_set mask_new mask_insert mask_invert
  by unfold_locales (simp_all add: mask_new_def mask_wf_ops mask_set_EMPTY mask_set_insert mask_set_invert)

section \<open>Character classes\<close>

lemma set_byte_range: "set (byte_range lo hi) = {lo..hi}"
proof (rule set_eqI)
  fix b
  have "b \<in> set (byte_range lo hi) \<longleftrightarrow> (\<exists>n. unat lo \<le> n \<and> n \<le> unat hi \<and> b = of_nat n)"
    by (auto simp: byte_range_def)
  also have "\<dots> \<longleftrightarrow> unat lo \<le> unat b \<and> unat b \<le> unat hi"
  proof
    assume "\<exists>n. unat lo \<le> n \<and> n \<le> unat hi \<and> b = of_nat n"
    then obtain n where n: "unat lo \<le> n" "n \<le> unat hi" "b = of_nat n" by blast
    then have "n < 2 ^ 8" using unat_lt_exp [of hi] by simp
    then show "unat lo \<le> unat b \<and> unat b \<le> unat hi" using n by (simp add: unat_of_nat)
  next
    assume "unat lo \<le> unat b \<and> unat b \<le> unat hi"
    then show "\<exists>n. unat lo \<le> n \<and> n \<le> unat hi \<and> b = of_nat n" by (intro exI [of _ "unat b"]) simp
  qed
  finally show "b \<in> set (byte_range lo hi) \<longleftrightarrow> b \<in> {lo..hi}" by (simp add: word_le_nat_alt)
qed

lemma class_body_loop_set:
  "mask_wf m \<Longrightarrow> mask_wf (class_body_loop m body) \<and> mask_set (class_body_loop m body) = mask_set m \<union> class_items body"
proof (induction m body rule: class_body_loop.induct)
  case (2 m lo dash hi rest)
  have "mask_wf (mask_insert_range m (min lo hi) (max lo hi))"
    "mask_set (mask_insert_range m (min lo hi) (max lo hi)) = mask_set m \<union> {min lo hi..max lo hi}"
    using mask.ins_all [OF 2(3), of "byte_range (min lo hi) (max lo hi)"]
    by (simp_all add: mask_insert_range_def set_byte_range)
  then show ?case using 2 by (auto simp: mask.wf_ins mask.abs_ins)
qed (auto simp: mask.wf_ins mask.abs_ins)

section \<open>Properties\<close>

text \<open>C14. A mask is a set of bytes: every operation keeps the 32 octets and refines the set operation of the
  same name, for membership, insertion, removal, union, intersection and complement.\<close>

theorem byte_mask_refines_set:
  assumes "mask_wf m" "mask_wf m'"
  shows "mask_set (mask_insert m b) = insert b (mask_set m) \<and> mask_set (mask_remove m b) = mask_set m - {b} \<and>
    mask_set (mask_union m m') = mask_set m \<union> mask_set m' \<and>
    mask_set (mask_intersection m m') = mask_set m \<inter> mask_set m' \<and>
    mask_set (mask_invert m) = - mask_set m \<and>
    mask_set (mask_insert_range m lo hi) = mask_set m \<union> {lo..hi} \<and>
    (mask_is_empty m \<longleftrightarrow> mask_set m = {}) \<and>
    mask_wf (mask_insert m b) \<and> mask_wf (mask_remove m b) \<and> mask_wf (mask_union m m') \<and>
    mask_wf (mask_intersection m m') \<and> mask_wf (mask_invert m)"
proof -
  have "mask_set (mask_insert_range m lo hi) = mask_set m \<union> {lo..hi}"
    using mask.ins_all [OF assms(1), of "byte_range lo hi"] by (simp add: mask_insert_range_def set_byte_range)
  then show ?thesis
    using assms by (simp add: mask_set_insert mask_set_remove mask_set_union mask_set_intersection
        mask_set_invert mask_is_empty_iff mask_wf_ops)
qed

theorem byte_mask_refines_set_witness:
  "mask_set (mask_union (mask_insert mask_new 65) (mask_insert_range mask_new 97 122)) = {65} \<union> {97..122}"
proof -
  have wf: "mask_wf mask_new" "mask_wf (mask_insert mask_new 65)"
    by (simp_all add: mask_new_def mask_wf_ops)
  have wf_range: "mask_wf (mask_insert_range mask_new 97 122)"
    using mask.ins_all [OF wf(1)] by (simp add: mask_insert_range_def)
  have "mask_set (mask_union (mask_insert mask_new 65) (mask_insert_range mask_new 97 122)) =
      mask_set (mask_insert mask_new 65) \<union> mask_set (mask_insert_range mask_new 97 122)"
    using byte_mask_refines_set [OF wf(2) wf_range, of 65 97 122] by - (elim conjE)
  moreover have "mask_set (mask_insert mask_new 65) = insert 65 (mask_set mask_new)"
    using byte_mask_refines_set [OF wf(1) wf(1), of 65 97 122] by - (elim conjE)
  moreover have "mask_set (mask_insert_range mask_new 97 122) = mask_set mask_new \<union> {97..122}"
    using byte_mask_refines_set [OF wf(1) wf(1), of 65 97 122] by - (elim conjE)
  ultimately show ?thesis by (simp only: mask.abs_empty Un_empty_left)
qed

text \<open>C17. A mask built from a class body contains exactly the bytes the body denotes: the single bytes and the
  inclusive ranges, written in either order, complemented after a leading caret.\<close>

theorem mask_from_class_body_correct: "mask_contains (mask_from_class_body body) b \<longleftrightarrow> b \<in> class_set body"
proof -
  have new: "mask_wf mask_new" "mask_set mask_new = {}" by (simp_all add: mask.wf_empty mask.abs_empty)
  have "mask_set (mask_from_class_body body) = class_set body"
  proof (cases body)
    case Nil
    then show ?thesis using new by (simp add: mask_from_class_body_def class_set_def)
  next
    case (Cons c rest)
    show ?thesis
      using class_body_loop_set [OF new(1), of rest] class_body_loop_set [OF new(1), of body] new(2) Cons
      by (simp add: mask_from_class_body_def class_set_def Let_def mask.abs_compl)
  qed
  then show ?thesis by (auto simp: mask_set_def)
qed

end
