(* ===== verification/Glob_Pattern.thy ===== *)
theory Glob_Pattern
  imports Byte_Mask "HOL-Library.Sublist"
begin

text \<open>
  Glob patterns of \<^verbatim>\<open>shared/flatkit/src/matchers/path.rs\<close>: the tokenizer and the language a pattern denotes.
  Texts are byte strings. The scan of the tokenizer over an index is a recursion over the rest of the pattern.
\<close>

section \<open>Patterns\<close>

definition MAX_GROUP_OPTIONS :: u32 where "MAX_GROUP_OPTIONS = 16"
definition MAX_DEEP_WILDCARDS :: nat where "MAX_DEEP_WILDCARDS = 6"

datatype glob_error = UnclosedGroup | NestedGroup | EmptyGroup | GroupOptionsLimit | UnclosedCharClass
  | EmptyCharClass | InvalidCharRange | TooManyDeepWildcards

fun glob_error_as_str :: "glob_error \<Rightarrow> string" where
  "glob_error_as_str UnclosedGroup = ''unclosed group: missing '' @ [CHR 0x27] @ ''}'' @ [CHR 0x27]"
| "glob_error_as_str NestedGroup = ''nested groups are not supported''"
| "glob_error_as_str EmptyGroup = ''empty group''"
| "glob_error_as_str GroupOptionsLimit = ''group exceeds maximum alternatives''"
| "glob_error_as_str UnclosedCharClass = ''unclosed character class: missing '' @ [CHR 0x27] @ '']'' @ [CHR 0x27]"
| "glob_error_as_str EmptyCharClass = ''empty character class''"
| "glob_error_as_str InvalidCharRange = ''invalid character range''"
| "glob_error_as_str TooManyDeepWildcards = ''too many deep wildcards (**)''"

datatype tok = Literal string | Wildcard | DeepWildcard | DeepWildcardDir | AnyChar | Group "string list"
  | CharClass "u8 list" bool

abbreviation byte :: "char \<Rightarrow> u8" where "byte c \<equiv> of_char c"

definition bitmap_set :: "u8 list \<Rightarrow> u8 \<Rightarrow> u8 list" where
  "bitmap_set bitmap c =
     bitmap[unat (c div 8) := bitmap ! unat (c div 8) OR push_bit (unat (c mod 8)) 1]"

fun class_loop :: "u8 list \<Rightarrow> string \<Rightarrow> glob_error + u8 list" where
  "class_loop bitmap [] = Inr bitmap"
| "class_loop bitmap (a # dash # b # rest) =
     (if dash = CHR ''-'' then
        if byte a > byte b then Inl InvalidCharRange
        else class_loop (foldl bitmap_set bitmap (byte_range (byte a) (byte b))) rest
      else class_loop (bitmap_set bitmap (byte a)) (dash # b # rest))"
| "class_loop bitmap (c # rest) = class_loop (bitmap_set bitmap (byte c)) rest"

text \<open>\<open>tokenize_class\<close> and \<open>tokenize_group\<close> start after the opening bracket and return the token with the
  rest of the pattern.\<close>

definition tokenize_class :: "string \<Rightarrow> glob_error + tok \<times> string" where
  "tokenize_class p =
     (let negated = (p \<noteq> [] \<and> hd p = CHR ''^'');
          p = (if negated then tl p else p);
          class = takeWhile (\<lambda>c. c \<noteq> CHR '']'') p;
          rest = dropWhile (\<lambda>c. c \<noteq> CHR '']'') p
      in if rest = [] then Inl UnclosedCharClass
         else if class = [] then Inl EmptyCharClass
         else case class_loop (replicate 32 0) class of
           Inl e \<Rightarrow> Inl e
         | Inr bitmap \<Rightarrow> Inr (CharClass bitmap negated, tl rest))"

fun group_scan :: "string \<Rightarrow> string \<Rightarrow> glob_error + string \<times> string" where
  "group_scan content [] = Inl UnclosedGroup"
| "group_scan content (c # rest) =
     (if c = CHR ''}'' then Inr (content, rest)
      else if c = CHR ''{'' then Inl NestedGroup
      else group_scan (content @ [c]) rest)"

fun group_options :: "u32 \<Rightarrow> string \<Rightarrow> string \<Rightarrow> glob_error + string list" where
  "group_options count piece [] = (if piece = [] then Inl EmptyGroup else Inr [piece])"
| "group_options count piece (b # rest) =
     (if b = CHR '','' then
        if count + 1 > MAX_GROUP_OPTIONS then Inl GroupOptionsLimit
        else if piece = [] then Inl EmptyGroup
        else case group_options (count + 1) [] rest of
          Inl e \<Rightarrow> Inl e
        | Inr opts \<Rightarrow> Inr (piece # opts)
      else group_options count (piece @ [b]) rest)"

definition tokenize_group :: "string \<Rightarrow> glob_error + tok \<times> string" where
  "tokenize_group p =
     (case group_scan [] p of
        Inl e \<Rightarrow> Inl e
      | Inr (content, rest) \<Rightarrow>
          if content = [] then Inl EmptyGroup
          else case group_options 1 [] content of
            Inl e \<Rightarrow> Inl e
          | Inr opts \<Rightarrow> Inr (Group opts, rest))"

definition is_meta :: "char \<Rightarrow> bool" where
  "is_meta c \<longleftrightarrow> c \<in> {CHR ''*'', CHR ''?'', CHR ''{'', CHR ''[''}"

lemma group_scan_length: "group_scan content p = Inr (c, rest) \<Longrightarrow> length rest < length p"
  by (induction content p rule: group_scan.induct) (auto split: if_splits)

lemma tokenize_group_length: "tokenize_group p = Inr (t, rest) \<Longrightarrow> length rest < length p"
  by (auto simp: tokenize_group_def group_scan_length split: sum.splits if_splits)

lemma tokenize_class_length:
  assumes "tokenize_class p = Inr (t, rest)"
  shows "length rest < length p"
proof -
  define q where "q = (if p \<noteq> [] \<and> hd p = CHR ''^'' then tl p else p)"
  have "length q \<le> length p" by (simp add: q_def)
  moreover have "rest = tl (dropWhile (\<lambda>c. c \<noteq> CHR '']'') q)" "dropWhile (\<lambda>c. c \<noteq> CHR '']'') q \<noteq> []"
    using assms by (auto simp: tokenize_class_def Let_def q_def split: sum.splits if_splits)
  moreover have "length (dropWhile (\<lambda>c. c \<noteq> CHR '']'') q) \<le> length q" by (rule length_dropWhile_le)
  ultimately show ?thesis by (cases "dropWhile (\<lambda>c. c \<noteq> CHR '']'') q") auto
qed

function tokenize_loop :: "nat \<Rightarrow> string \<Rightarrow> glob_error + tok list" where
  "tokenize_loop deep_count [] = Inr []"
| "tokenize_loop deep_count (c # rest) =
     (if c = CHR ''*'' then
        if rest \<noteq> [] \<and> hd rest = CHR ''*'' then
          if deep_count + 1 > MAX_DEEP_WILDCARDS then Inl TooManyDeepWildcards
          else if tl rest \<noteq> [] \<and> hd (tl rest) = CHR ''/'' then
            map_sum id ((#) DeepWildcardDir) (tokenize_loop (deep_count + 1) (tl (tl rest)))
          else map_sum id ((#) DeepWildcard) (tokenize_loop (deep_count + 1) (tl rest))
        else map_sum id ((#) Wildcard) (tokenize_loop deep_count rest)
      else if c = CHR ''?'' then map_sum id ((#) AnyChar) (tokenize_loop deep_count rest)
      else if c = CHR ''{'' then
        (case tokenize_group rest of
           Inl e \<Rightarrow> Inl e
         | Inr (t, rest') \<Rightarrow> map_sum id ((#) t) (tokenize_loop deep_count rest'))
      else if c = CHR ''['' then
        (case tokenize_class rest of
           Inl e \<Rightarrow> Inl e
         | Inr (t, rest') \<Rightarrow> map_sum id ((#) t) (tokenize_loop deep_count rest'))
      else map_sum id ((#) (Literal (c # takeWhile (\<lambda>c. \<not> is_meta c) rest)))
             (tokenize_loop deep_count (dropWhile (\<lambda>c. \<not> is_meta c) rest)))"
  by pat_completeness auto
termination
  by (relation "measure (\<lambda>(d, p). length p)")
    (auto dest: tokenize_group_length tokenize_class_length intro: le_imp_less_Suc [OF length_dropWhile_le])

definition tokenize :: "string \<Rightarrow> glob_error + tok list" where
  "tokenize pattern = (if pattern = [] then Inr [Literal []] else tokenize_loop 0 pattern)"

fun is_literal :: "tok \<Rightarrow> bool" where
  "is_literal (Literal l) = True"
| "is_literal t = False"

record glob_pattern =
  gp_tokens :: "tok list"
  gp_is_exact :: bool

definition glob_compile :: "string \<Rightarrow> glob_error + glob_pattern" where
  "glob_compile pattern =
     (case tokenize pattern of
        Inl e \<Rightarrow> Inl e
      | Inr tokens \<Rightarrow>
          Inr \<lparr>gp_tokens = tokens, gp_is_exact = (length tokens = 1 \<and> is_literal (tokens ! 0))\<rparr>)"

section \<open>The language of a pattern\<close>

definition bitmap_contains :: "u8 list \<Rightarrow> u8 \<Rightarrow> bool" where
  "bitmap_contains bitmap b \<longleftrightarrow> bitmap ! unat (b div 8) AND push_bit (unat (b mod 8)) 1 \<noteq> 0"

fun is_deep :: "tok \<Rightarrow> bool" where
  "is_deep DeepWildcard = True"
| "is_deep DeepWildcardDir = True"
| "is_deep t = False"

text \<open>The texts one token consumes. Both deep wildcards consume whole directories.\<close>

fun tok_lang :: "tok \<Rightarrow> string set" where
  "tok_lang (Literal l) = {l}"
| "tok_lang Wildcard = {w. CHR ''/'' \<notin> set w}"
| "tok_lang DeepWildcard = {w. w = [] \<or> last w = CHR ''/''}"
| "tok_lang DeepWildcardDir = {w. w = [] \<or> last w = CHR ''/''}"
| "tok_lang AnyChar = {[c] | c. c \<noteq> CHR ''/''}"
| "tok_lang (Group opts) = set opts"
| "tok_lang (CharClass bitmap negated) = {[c] | c. bitmap_contains bitmap (byte c) \<noteq> negated}"

text \<open>A deep wildcard at the end of a pattern consumes any text, and one that is reached with no text left
  accepts whatever follows it in the pattern.\<close>

fun glob_lang :: "tok list \<Rightarrow> string set" where
  "glob_lang [] = {[]}"
| "glob_lang (t # ts) =
     (if is_deep t \<and> ts = [] then UNIV
      else (if is_deep t then {[]} else {}) \<union> {w @ r | w r. w \<in> tok_lang t \<and> r \<in> glob_lang ts})"

text \<open>What the tokenizer guarantees: no empty literal or alternative, and no wildcard directly before another.\<close>

fun tok_wf :: "tok \<Rightarrow> bool" where
  "tok_wf (Literal l) \<longleftrightarrow> l \<noteq> []"
| "tok_wf (Group opts) \<longleftrightarrow> opts \<noteq> [] \<and> length opts \<le> 16 \<and> [] \<notin> set opts"
| "tok_wf (CharClass bitmap negated) \<longleftrightarrow> length bitmap = 32"
| "tok_wf t \<longleftrightarrow> True"

fun toks_wf :: "tok list \<Rightarrow> bool" where
  "toks_wf [] \<longleftrightarrow> True"
| "toks_wf (t # ts) \<longleftrightarrow>
     tok_wf t \<and> (t = Wildcard \<and> ts \<noteq> [] \<longrightarrow> hd ts \<noteq> Wildcard \<and> \<not> is_deep (hd ts)) \<and> toks_wf ts"

section \<open>Character classes\<close>

lemma byte_div: "(c :: u8) div 8 = drop_bit 3 c" and byte_mod: "(c :: u8) mod 8 = c AND 7"
  by (simp_all add: drop_bit_eq_div take_bit_eq_mod [of 3, symmetric, simplified] take_bit_eq_mask mask_eq_exp_minus_1)

lemma unat_byte [simp]: "unat (byte c) = of_char c"
proof -
  have "of_char c < (2 ^ LENGTH(8) :: nat)" by simp
  moreover have "byte c = of_nat (of_char c)" by (rule of_nat_of_char [symmetric])
  ultimately show ?thesis by (simp only: unat_of_nat mod_less)
qed

lemma byte_eq_iff: "byte a = byte b \<longleftrightarrow> a = b"
proof
  assume "byte a = byte b"
  then have "unat (byte a) = unat (byte b)" by simp
  then show "a = b" by simp
qed simp

lemma bitmap_set_mask: "bitmap_set (mask_bits m) c = mask_bits (mask_insert m c)"
  by (simp add: bitmap_set_def mask_insert_def Let_def byte_div byte_mod)

lemma bitmap_contains_mask: "bitmap_contains (mask_bits m) b \<longleftrightarrow> mask_contains m b"
  by (simp add: bitmap_contains_def mask_contains_def byte_div byte_mod)

lemma bitmap_set_fold: "foldl bitmap_set (mask_bits m) cs = mask_bits (foldl mask_insert m cs)"
  by (induction cs arbitrary: m) (simp_all add: bitmap_set_mask)

lemma class_loop_mask:
  assumes "class_loop bitmap class = Inr bitmap'" "bitmap = mask_bits m"
  shows "bitmap' = mask_bits (class_body_loop m (map byte class))"
  using assms
proof (induction bitmap "class" arbitrary: m rule: class_loop.induct)
  case (2 bitmap a dash b rest)
  show ?case
  proof (cases "dash = CHR ''-''")
    case True
    then have "\<not> byte a > byte b" using 2(3) by (auto split: if_splits)
    then have "min (byte a) (byte b) = byte a" "max (byte a) (byte b) = byte b" by (simp_all add: min_def max_def not_less)
    then show ?thesis using 2 True \<open>\<not> byte a > byte b\<close>
      by (simp add: bitmap_set_fold mask_insert_range_def)
  next
    case False
    then have "byte dash \<noteq> byte (CHR ''-'')" by (simp only: byte_eq_iff not_False_eq_True)
    then have "byte dash \<noteq> 0x2D" by simp
    then show ?thesis using 2 False by (simp add: bitmap_set_mask)
  qed
qed (simp_all add: bitmap_set_mask)


lemma mask_from_class_body_caret: "mask_from_class_body (0x5E # b) = mask_invert (class_body_loop mask_new b)"
  by (simp add: mask_from_class_body_def)

lemma mask_from_class_body_plain: "b \<noteq> [] \<Longrightarrow> hd b \<noteq> 0x5E \<Longrightarrow> mask_from_class_body b = class_body_loop mask_new b"
  by (simp add: mask_from_class_body_def)

lemma byte_caret: "byte c = 0x5E \<longleftrightarrow> c = CHR ''^''"
proof -
  have "byte (CHR ''^'') = 0x5E" by simp
  then show ?thesis by (metis byte_eq_iff)
qed

lemma class_loop_fresh: "class_loop (replicate 32 0) cl = Inr bitmap \<Longrightarrow> bitmap = mask_bits (class_body_loop mask_new (map byte cl))"
  by (erule class_loop_mask) (simp only: mask_new_def mask_EMPTY_def byte_mask.simps)

text \<open>The class of a token is the mask the byte-mask module builds from the text between the brackets.\<close>

lemma tokenize_class_mask:
  assumes "tokenize_class p = Inr (t, rest)"
  obtains body bitmap negated where "p = body @ CHR '']'' # rest" "t = CharClass bitmap negated" "length bitmap = 32"
    "\<And>b. bitmap_contains bitmap b \<noteq> negated \<longleftrightarrow> mask_contains (mask_from_class_body (map byte body)) b"
proof -
  define negated where "negated = (p \<noteq> [] \<and> hd p = CHR ''^'')"
  define q where "q = (if negated then tl p else p)"
  define cl where "cl = takeWhile (\<lambda>c. c \<noteq> CHR '']'') q"
  define m where "m = class_body_loop mask_new (map byte cl)"
  have ne: "dropWhile (\<lambda>c. c \<noteq> CHR '']'') q \<noteq> []" "cl \<noteq> []"
    and rest: "rest = tl (dropWhile (\<lambda>c. c \<noteq> CHR '']'') q)"
    and t: "\<exists>bitmap. class_loop (replicate 32 0) cl = Inr bitmap \<and> t = CharClass bitmap negated"
    using assms by (auto simp: tokenize_class_def Let_def q_def negated_def cl_def split: sum.splits if_splits)
  have "q = cl @ dropWhile (\<lambda>c. c \<noteq> CHR '']'') q" by (simp add: cl_def)
  moreover have "dropWhile (\<lambda>c. c \<noteq> CHR '']'') q = CHR '']'' # rest"
    using ne(1) rest hd_dropWhile [OF ne(1)] by (cases "dropWhile (\<lambda>c. c \<noteq> CHR '']'') q") auto
  ultimately have q: "q = cl @ CHR '']'' # rest" by simp
  define body where "body = (if negated then CHR ''^'' # cl else cl)"
  have p: "p = body @ CHR '']'' # rest"
    using q by (cases p) (auto simp: body_def q_def negated_def)
  obtain bitmap where bm: "class_loop (replicate 32 0) cl = Inr bitmap" "t = CharClass bitmap negated" using t by blast
  have bits: "bitmap = mask_bits m"
    unfolding m_def by (rule class_loop_fresh [OF bm(1)])
  have wf: "mask_wf m" using class_body_loop_set [OF mask.wf_empty] unfolding m_def by blast
  have "bitmap_contains bitmap b \<noteq> negated \<longleftrightarrow> mask_contains (mask_from_class_body (map byte body)) b" for b
  proof (cases negated)
    case True
    then have "map byte body = 0x5E # map byte cl" by (simp add: body_def)
    then have "mask_from_class_body (map byte body) = mask_invert m" by (simp only: mask_from_class_body_caret m_def)
    moreover have "mask_contains (mask_invert m) b \<longleftrightarrow> \<not> mask_contains m b"
      using mask_set_invert [OF wf] by (auto simp: mask_set_def)
    ultimately show ?thesis using True by (simp add: bits bitmap_contains_mask)
  next
    case False
    then have "hd cl \<noteq> CHR ''^''" using ne(2) q by (auto simp: negated_def q_def)
    then have "hd (map byte body) \<noteq> 0x5E" "map byte body \<noteq> []" using ne(2) False by (simp_all add: body_def hd_map byte_caret)
    then have "mask_from_class_body (map byte body) = m"
      using mask_from_class_body_plain [of "map byte body"] False by (simp only: m_def body_def if_False not_False_eq_True)
    then show ?thesis using False by (simp add: bits bitmap_contains_mask)
  qed
  moreover have "length bitmap = 32" using wf bits by (simp add: mask_wf_def)
  ultimately show thesis using that p bm(2) by blast
qed

section \<open>What the tokenizer guarantees\<close>

lemma group_options_wf:
  assumes "group_options count piece content = Inr opts" "count \<le> 16"
  shows "opts \<noteq> [] \<and> [] \<notin> set opts \<and> length opts + unat count \<le> 17"
  using assms
proof (induction count piece content arbitrary: opts rule: group_options.induct)
  case (1 count piece)
  then show ?case by (auto simp: word_le_nat_alt split: if_splits)
next
  case (2 count piece b rest)
  show ?case
  proof (cases "b = CHR '',''")
    case True
    have le: "\<not> count + 1 > MAX_GROUP_OPTIONS" and ne: "piece \<noteq> []"
      and rec: "\<exists>os. group_options (count + 1) [] rest = Inr os \<and> opts = piece # os"
      using 2(3) True by (auto split: if_splits sum.splits)
    have small: "unat count \<le> 16" using 2(4) by (simp add: word_le_nat_alt)
    then have suc: "unat (count + 1) = unat count + 1" by (simp add: unat_word_ariths)
    obtain os where os: "group_options (count + 1) [] rest = Inr os" "opts = piece # os" using rec by blast
    have "count + 1 \<le> 16" using le by (simp add: MAX_GROUP_OPTIONS_def not_less)
    from 2(1) [OF True le ne os(1) this] show ?thesis using os(2) ne suc by simp
  next
    case False
    then show ?thesis using 2(2) [OF False _ 2(4)] 2(3) by simp
  qed
qed

lemma tokenize_group_wf: "tokenize_group p = Inr (t, rest) \<Longrightarrow> tok_wf t \<and> t \<noteq> Wildcard \<and> \<not> is_deep t"
  using group_options_wf by (fastforce simp: tokenize_group_def word_le_nat_alt split: sum.splits if_splits)

lemma tokenize_class_wf: "tokenize_class p = Inr (t, rest) \<Longrightarrow> tok_wf t \<and> t \<noteq> Wildcard \<and> \<not> is_deep t"
  by (erule tokenize_class_mask) simp


lemma map_sum_Inr_iff: "map_sum f g x = Inr y \<longleftrightarrow> (\<exists>z. x = Inr z \<and> y = g z)"
  by (cases x) auto

lemma tokenize_loop_wf:
  "tokenize_loop d p = Inr ts \<Longrightarrow>
     toks_wf ts \<and> (p \<noteq> [] \<longrightarrow> ts \<noteq> []) \<and> (ts \<noteq> [] \<and> (hd ts = Wildcard \<or> is_deep (hd ts)) \<longrightarrow> hd p = CHR ''*'')"
proof (induction d p arbitrary: ts rule: tokenize_loop.induct)
  case (2 d c rest)
  show ?case
  proof (cases "c = CHR ''*''")
    case star: True
    show ?thesis
    proof (cases "rest \<noteq> [] \<and> hd rest = CHR ''*''")
      case True
      then show ?thesis using 2 star by (auto simp: map_sum_Inr_iff split: if_splits)
    next
      case False
      then obtain ts' where ts': "tokenize_loop d rest = Inr ts'" "ts = Wildcard # ts'"
        using 2(8) star by (auto simp: map_sum_Inr_iff)
      from 2(3) [OF star False ts'(1)] show ?thesis using False ts' star
        by (cases rest) auto
    qed
  next
    case False
    then show ?thesis
      using 2 tokenize_group_wf tokenize_class_wf
      by (auto simp: map_sum_Inr_iff split: if_splits sum.splits)
  qed
qed simp


lemma tokenize_wf: "tokenize p = Inr ts \<Longrightarrow> p \<noteq> [] \<Longrightarrow> toks_wf ts \<and> ts \<noteq> []"
  using tokenize_loop_wf [of 0 p ts] by (simp add: tokenize_def)

section \<open>Properties\<close>

text \<open>C30. A character class of a pattern matches exactly the single bytes of the byte mask built from the text
  between its brackets: the tokenizer and the byte-mask module agree on classes.\<close>

theorem char_class_agrees_with_mask:
  assumes "tokenize_class p = Inr (t, rest)"
  shows "\<exists>body. p = body @ CHR '']'' # rest \<and>
    tok_lang t = {[c] | c. mask_contains (mask_from_class_body (map byte body)) (byte c)}"
  using assms
proof (rule tokenize_class_mask)
  fix body bitmap negated
  assume p: "p = body @ CHR '']'' # rest" and t: "t = CharClass bitmap negated"
    and m: "\<And>b. bitmap_contains bitmap b \<noteq> negated \<longleftrightarrow> mask_contains (mask_from_class_body (map byte body)) b"
  have "tok_lang t = {[c] | c. mask_contains (mask_from_class_body (map byte body)) (byte c)}"
    unfolding t tok_lang.simps m by (rule refl)
  then show ?thesis using p by blast
qed

theorem char_class_agrees_with_mask_witness:
  "\<exists>t body. tokenize_class ''a-c]x'' = Inr (t, ''x'') \<and> ''a-c]x'' = body @ CHR '']'' # ''x'' \<and>
     tok_lang t = {[c] | c. mask_contains (mask_from_class_body (map byte body)) (byte c)}"
proof -
  have "map_sum id snd (tokenize_class ''a-c]x'') = Inr ''x''" by code_simp
  then obtain t where t: "tokenize_class ''a-c]x'' = Inr (t, ''x'')" by (auto simp: map_sum_Inr_iff)
  from char_class_agrees_with_mask [OF t] show ?thesis using t by blast
qed

end
