(* ===== verification/Path_Matcher.thy ===== *)
theory Path_Matcher
  imports Glob_Pattern
begin

text \<open>
  The multi-pattern matcher \<^verbatim>\<open>PathMatcherSet\<close> of \<^verbatim>\<open>shared/flatkit/src/matchers/path.rs\<close>: the trie of lowered
  tokens over a byte arena, its flattening into one vector of nodes, and the backtracking search with its
  bounded stack. The theorems relate the search to the language of the patterns.
\<close>

section \<open>The compiled set\<close>

datatype node_token = NLiteral u32 u32 | NWildcard | NDeepWildcard | NDeepWilcardDir | NAnyChar
  | NGroup u32 u32 | NCharClass "u8 list" bool

record node =
  node_token :: node_token
  node_children :: "u32 \<times> u32"
  node_is_terminal :: bool

record group_span =
  span_start :: u32
  span_end :: u32

datatype fast_path = Exact "string set" | SingleLiteral string | General

type_synonym arena = "string \<times> group_span list"

definition push_option :: "arena \<Rightarrow> string \<Rightarrow> arena" where
  "push_option env opt =
     (let start = of_nat (length (fst env));
          bytes = fst env @ opt;
          end = of_nat (length bytes)
      in (bytes, snd env @ [\<lparr>span_start = start, span_end = end\<rparr>]))"

fun lower_token :: "tok \<Rightarrow> arena \<Rightarrow> node_token \<times> arena" where
  "lower_token (Literal lit) (bytes, spans) =
     (let start = of_nat (length bytes);
          bytes = bytes @ lit;
          end = of_nat (length bytes)
      in (NLiteral start end, (bytes, spans)))"
| "lower_token Wildcard env = (NWildcard, env)"
| "lower_token DeepWildcard env = (NDeepWildcard, env)"
| "lower_token DeepWildcardDir env = (NDeepWilcardDir, env)"
| "lower_token AnyChar env = (NAnyChar, env)"
| "lower_token (CharClass bitmap negated) env = (NCharClass bitmap negated, env)"
| "lower_token (Group opts) env =
     (let gstart = of_nat (length (snd env));
          env = foldl push_option env opts;
          gend = of_nat (length (snd env))
      in (NGroup gstart gend, env))"

record path_matcher_set =
  pms_nodes :: "node list"
  pms_root :: "u32 \<times> u32"
  pms_arena :: string
  pms_group_spans :: "group_span list"
  pms_fast :: "fast_path option"

datatype temp = Temp (temp_token: node_token) (temp_is_terminal: bool) (temp_children: "temp list")

fun insert_tokens :: "tok list \<Rightarrow> temp list \<Rightarrow> arena \<Rightarrow> temp list \<times> arena" where
  "insert_tokens [] level env = (level, env)"
| "insert_tokens (tok # toks) level env =
     (let is_last = (toks = []);
          (node_tok, env) = lower_token tok env
      in case position (\<lambda>n. temp_token n = node_tok) level of
           Some pos \<Rightarrow>
             (let n = level ! pos;
                  (children, env) = insert_tokens toks (temp_children n) env
              in (level[pos := Temp (temp_token n) (temp_is_terminal n \<or> is_last) children], env))
         | None \<Rightarrow>
             (let (children, env) = insert_tokens toks [] env
              in (level @ [Temp node_tok is_last children], env)))"

fun build_trie :: "glob_pattern list \<Rightarrow> temp list \<Rightarrow> arena \<Rightarrow> temp list \<times> arena" where
  "build_trie [] root_children env = (root_children, env)"
| "build_trie (pat # pats) root_children env =
     (let (root_children, env) = insert_tokens (gp_tokens pat) root_children env
      in build_trie pats root_children env)"

function (sequential) flatten :: "temp list \<Rightarrow> node list \<Rightarrow> (u32 \<times> u32) \<times> node list"
  and flatten_children :: "nat \<Rightarrow> temp list \<Rightarrow> node list \<Rightarrow> node list" where
  "flatten [] out = ((0, 0), out)"
| "flatten temps out =
     (let start = of_nat (length out);
          out = out @ map (\<lambda>t. \<lparr>node_token = temp_token t, node_children = (0, 0), node_is_terminal = temp_is_terminal t\<rparr>) temps;
          end = of_nat (length out)
      in ((start, end), flatten_children (unat start) temps out))"
| "flatten_children i [] out = out"
| "flatten_children i (Temp tok term children # temps) out =
     (let (c, out) = flatten children out
      in flatten_children (i + 1) temps (out[i := (out ! i)\<lparr>node_children := c\<rparr>]))"
  by pat_completeness auto
termination
  by (relation "measure (\<lambda>x. case x of Inl (ts, _) \<Rightarrow> 2 * size_list size ts + 1 | Inr (_, ts, _) \<Rightarrow> 2 * size_list size ts)") auto

definition empty_set :: "fast_path option \<Rightarrow> path_matcher_set" where
  "empty_set fast = \<lparr>pms_nodes = [], pms_root = (0, 0), pms_arena = [], pms_group_spans = [], pms_fast = fast\<rparr>"

fun literal_of :: "tok \<Rightarrow> string" where
  "literal_of (Literal l) = l"
| "literal_of t = []"

definition from_patterns :: "glob_pattern list \<Rightarrow> path_matcher_set" where
  "from_patterns patterns =
     (if patterns = [] then empty_set None
      else if list_all (\<lambda>p. length (gp_tokens p) = 1 \<and> is_literal (gp_tokens p ! 0)) patterns then
        if length patterns = 1 then empty_set (Some (SingleLiteral (literal_of (gp_tokens (patterns ! 0) ! 0))))
        else empty_set (Some (Exact (set (map (\<lambda>p. literal_of (gp_tokens p ! 0)) patterns))))
      else
        let (root_children, (bytes, spans)) = build_trie patterns [] ([], []);
            (root, nodes) = flatten root_children []
        in \<lparr>pms_nodes = nodes, pms_root = root, pms_arena = bytes, pms_group_spans = spans, pms_fast = Some General\<rparr>)"

fun compile_all :: "string list \<Rightarrow> glob_error + glob_pattern list" where
  "compile_all [] = Inr []"
| "compile_all (p # ps) =
     (case glob_compile p of
        Inl e \<Rightarrow> Inl e
      | Inr g \<Rightarrow> map_sum id ((#) g) (compile_all ps))"

definition pms_compile :: "string list \<Rightarrow> glob_error + path_matcher_set" where
  "pms_compile patterns = map_sum id from_patterns (compile_all patterns)"

section \<open>The search\<close>

definition MAX_STACK_DEPTH :: nat where "MAX_STACK_DEPTH = 64"

record match_frame =
  fr_input :: string
  fr_child_start :: u32
  fr_child_end :: u32
  fr_progress :: u32

text \<open>One turn of the loop returns from the search or continues with a stack, whose first frame is on top.
  The nodes a compiled set refers to are in range (\<open>rep\<close> below), so no lookup of the search is out of bounds.\<close>

datatype outcome = Return bool | Continue "match_frame list"

definition slice :: "'a list \<Rightarrow> u32 \<Rightarrow> u32 \<Rightarrow> 'a list" where
  "slice xs i j = take (unat j - unat i) (drop (unat i) xs)"

definition exhausted_accepts :: "group_span list \<Rightarrow> node \<Rightarrow> bool" where
  "exhausted_accepts spans n =
     (case node_token n of
        NDeepWildcard \<Rightarrow> True
      | NDeepWilcardDir \<Rightarrow> True
      | NWildcard \<Rightarrow> node_is_terminal n
      | NGroup i j \<Rightarrow> node_is_terminal n \<and> list_ex (\<lambda>span. span_start span = span_end span) (slice spans i j)
      | _ \<Rightarrow> False)"

definition descend :: "node \<Rightarrow> string \<Rightarrow> match_frame list \<Rightarrow> outcome" where
  "descend n next stack =
     (if next = [] \<and> node_is_terminal n then Return True
      else if fst (node_children n) < snd (node_children n) then
        if length stack \<ge> MAX_STACK_DEPTH then Return False
        else Continue (\<lparr>fr_input = next, fr_child_start = fst (node_children n),
                        fr_child_end = snd (node_children n), fr_progress = 0\<rparr> # stack)
      else Continue stack)"

definition next_child :: "match_frame \<Rightarrow> match_frame" where
  "next_child frame = frame\<lparr>fr_child_start := fr_child_start frame + 1\<rparr>"

definition literal_step :: "string \<Rightarrow> node \<Rightarrow> match_frame \<Rightarrow> match_frame list \<Rightarrow> outcome" where
  "literal_step lit n frame rest =
     (let remaining = fr_input frame; stack = next_child frame # rest in
      if prefix lit remaining then descend n (drop (length lit) remaining) stack else Continue stack)"

definition wildcard_step :: "node \<Rightarrow> match_frame \<Rightarrow> match_frame list \<Rightarrow> outcome" where
  "wildcard_step n frame rest =
     (let remaining = fr_input frame; offset = unat (fr_progress frame) in
      if offset \<le> length remaining \<and> (offset = 0 \<or> remaining ! (offset - 1) \<noteq> CHR ''/'') then
        descend n (drop offset remaining) (frame\<lparr>fr_progress := fr_progress frame + 1\<rparr> # rest)
      else Continue (next_child (frame\<lparr>fr_progress := 0\<rparr>) # rest))"

primrec skip_dirs :: "nat \<Rightarrow> string \<Rightarrow> match_frame \<Rightarrow> string \<times> match_frame" where
  "skip_dirs 0 text frame = (text, frame)"
| "skip_dirs (Suc n) text frame =
     (case position (\<lambda>b. b = CHR ''/'') text of
        Some pos \<Rightarrow> skip_dirs n (drop (pos + 1) text) frame
      | None \<Rightarrow> skip_dirs n text (next_child (frame\<lparr>fr_progress := 0\<rparr>)))"

definition deep_push :: "node \<Rightarrow> string \<Rightarrow> match_frame list \<Rightarrow> outcome" where
  "deep_push n next stack =
     (if fst (node_children n) < snd (node_children n) then
        if length stack \<ge> MAX_STACK_DEPTH then Return False
        else Continue (\<lparr>fr_input = next, fr_child_start = fst (node_children n),
                        fr_child_end = snd (node_children n), fr_progress = 0\<rparr> # stack)
      else Continue stack)"

definition deep_step :: "node \<Rightarrow> match_frame \<Rightarrow> match_frame list \<Rightarrow> outcome" where
  "deep_step n frame rest =
     (if node_is_terminal n then Return True
      else
        let remaining = fr_input frame; offset = unat (fr_progress frame) in
        if offset = 0 then deep_push n remaining (frame\<lparr>fr_progress := 1\<rparr> # rest)
        else
          let (text, frame) = skip_dirs (offset - 1) remaining frame in
          case position (\<lambda>b. b = CHR ''/'') text of
            Some pos \<Rightarrow> deep_push n (drop (pos + 1) text) (frame\<lparr>fr_progress := fr_progress frame + 1\<rparr> # rest)
          | None \<Rightarrow> Continue (next_child (frame\<lparr>fr_progress := 0\<rparr>) # rest))"

definition any_char_step :: "node \<Rightarrow> match_frame \<Rightarrow> match_frame list \<Rightarrow> outcome" where
  "any_char_step n frame rest =
     (let remaining = fr_input frame; stack = next_child frame # rest in
      if remaining \<noteq> [] \<and> remaining ! 0 \<noteq> CHR ''/'' then descend n (drop 1 remaining) stack else Continue stack)"

definition class_step :: "u8 list \<Rightarrow> bool \<Rightarrow> node \<Rightarrow> match_frame \<Rightarrow> match_frame list \<Rightarrow> outcome" where
  "class_step bitmap negated n frame rest =
     (let remaining = fr_input frame; stack = next_child frame # rest in
      if remaining \<noteq> [] \<and> bitmap_contains bitmap (byte (remaining ! 0)) \<noteq> negated
      then descend n (drop 1 remaining) stack else Continue stack)"

fun group_loop :: "string \<Rightarrow> group_span list \<Rightarrow> node \<Rightarrow> string \<Rightarrow> match_frame list \<Rightarrow> outcome" where
  "group_loop bytes [] n remaining stack = Continue stack"
| "group_loop bytes (span # spans) n remaining stack =
     (let opt = slice bytes (span_start span) (span_end span) in
      if prefix opt remaining then
        case descend n (drop (length opt) remaining) stack of
          Return b \<Rightarrow> Return b
        | Continue stack \<Rightarrow> group_loop bytes spans n remaining stack
      else group_loop bytes spans n remaining stack)"

definition group_step :: "path_matcher_set \<Rightarrow> u32 \<Rightarrow> u32 \<Rightarrow> node \<Rightarrow> match_frame \<Rightarrow> match_frame list \<Rightarrow> outcome" where
  "group_step s i j n frame rest =
     group_loop (pms_arena s) (rev (slice (pms_group_spans s) i j)) n (fr_input frame) (next_child frame # rest)"

definition backtrack_step :: "path_matcher_set \<Rightarrow> match_frame \<Rightarrow> match_frame list \<Rightarrow> outcome" where
  "backtrack_step s frame rest =
     (if fr_input frame = [] then
        if list_ex (exhausted_accepts (pms_group_spans s)) (slice (pms_nodes s) (fr_child_start frame) (fr_child_end frame))
        then Return True else Continue rest
      else if fr_child_start frame \<ge> fr_child_end frame then Continue rest
      else
        let n = pms_nodes s ! unat (fr_child_start frame) in
        case node_token n of
          NLiteral i j \<Rightarrow> literal_step (slice (pms_arena s) i j) n frame rest
        | NWildcard \<Rightarrow> wildcard_step n frame rest
        | NDeepWildcard \<Rightarrow> deep_step n frame rest
        | NDeepWilcardDir \<Rightarrow> deep_step n frame rest
        | NAnyChar \<Rightarrow> any_char_step n frame rest
        | NCharClass bitmap negated \<Rightarrow> class_step bitmap negated n frame rest
        | NGroup i j \<Rightarrow> group_step s i j n frame rest)"

partial_function (option) backtrack_loop :: "path_matcher_set \<Rightarrow> match_frame list \<Rightarrow> bool option" where
  "backtrack_loop s stack =
     (case stack of
        [] \<Rightarrow> Some False
      | frame # rest \<Rightarrow>
          (case backtrack_step s frame rest of
             Return b \<Rightarrow> Some b
           | Continue stack' \<Rightarrow> backtrack_loop s stack'))"

definition matches_backtrack :: "path_matcher_set \<Rightarrow> string \<Rightarrow> bool option" where
  "matches_backtrack s input =
     (if pms_nodes s = [] then Some False
      else backtrack_loop s [\<lparr>fr_input = input, fr_child_start = fst (pms_root s),
                              fr_child_end = snd (pms_root s), fr_progress = 0\<rparr>])"

definition pms_matches :: "path_matcher_set \<Rightarrow> string \<Rightarrow> bool option" where
  "pms_matches s input =
     (case pms_fast s of
        None \<Rightarrow> Some False
      | Some (SingleLiteral lit) \<Rightarrow> Some (input = lit)
      | Some (Exact lits) \<Rightarrow> Some (input \<in> lits)
      | Some General \<Rightarrow> matches_backtrack s input)"

section \<open>What a trie accepts\<close>

function after_slashes :: "string \<Rightarrow> string list" where
  "after_slashes s =
     (case position (\<lambda>b. b = CHR ''/'') s of
        None \<Rightarrow> []
      | Some pos \<Rightarrow> drop (pos + 1) s # after_slashes (drop (pos + 1) s))"
  by pat_completeness auto
termination
  by (relation "measure length") (auto dest!: position_SomeD)

declare after_slashes.simps [simp del]

fun residuals :: "tok \<Rightarrow> string \<Rightarrow> string list" where
  "residuals (Literal l) s = (if prefix l s then [drop (length l) s] else [])"
| "residuals Wildcard s = map (\<lambda>n. drop n s) [0..<Suc (length (takeWhile (\<lambda>c. c \<noteq> CHR ''/'') s))]"
| "residuals DeepWildcard s = s # after_slashes s"
| "residuals DeepWildcardDir s = s # after_slashes s"
| "residuals AnyChar s = (if s \<noteq> [] \<and> s ! 0 \<noteq> CHR ''/'' then [drop 1 s] else [])"
| "residuals (CharClass bitmap negated) s =
     (if s \<noteq> [] \<and> bitmap_contains bitmap (byte (s ! 0)) \<noteq> negated then [drop 1 s] else [])"
| "residuals (Group opts) s = map (\<lambda>opt. drop (length opt) s) (filter (\<lambda>opt. prefix opt s) opts)"

definition tok_accepts :: "tok \<Rightarrow> bool \<Rightarrow> (string \<Rightarrow> bool) \<Rightarrow> string \<Rightarrow> bool" where
  "tok_accepts t term k s \<longleftrightarrow>
     (if s = [] then is_deep t \<or> term \<and> (t = Wildcard \<or> (\<exists>opts. t = Group opts \<and> [] \<in> set opts))
      else is_deep t \<and> term \<or> (\<exists>r\<in>set (residuals t s). r = [] \<and> term \<or> k r))"

fun tok_of :: "arena \<Rightarrow> node_token \<Rightarrow> tok" where
  "tok_of env (NLiteral i j) = Literal (slice (fst env) i j)"
| "tok_of env NWildcard = Wildcard"
| "tok_of env NDeepWildcard = DeepWildcard"
| "tok_of env NDeepWilcardDir = DeepWildcardDir"
| "tok_of env NAnyChar = AnyChar"
| "tok_of env (NCharClass bitmap negated) = CharClass bitmap negated"
| "tok_of env (NGroup i j) =
     Group (map (\<lambda>span. slice (fst env) (span_start span) (span_end span)) (slice (snd env) i j))"

function temps_match :: "arena \<Rightarrow> temp list \<Rightarrow> string \<Rightarrow> bool" where
  "temps_match env [] s \<longleftrightarrow> False"
| "temps_match env (Temp nt term children # temps) s \<longleftrightarrow>
     tok_accepts (tok_of env nt) term (\<lambda>r. temps_match env children r) s \<or> temps_match env temps s"
  by pat_completeness auto
termination
  by (relation "measure (\<lambda>(env, ts, s). size_list size ts)") auto

definition spans_ok :: "arena \<Rightarrow> bool" where
  "spans_ok env \<longleftrightarrow> (\<forall>span\<in>set (snd env). span_start span \<le> span_end span \<and> unat (span_end span) \<le> length (fst env))"

lemma slice_empty_iff: "unat j \<le> length xs \<Longrightarrow> slice xs i j = [] \<longleftrightarrow> j \<le> i"
  by (auto simp: slice_def word_le_nat_alt)

text \<open>The nodes from position \<open>i\<close> on represent a list of temporary nodes; their children are at or after \<open>b\<close>.\<close>

definition range_of :: "nat \<Rightarrow> temp list \<Rightarrow> u32 \<times> u32 \<Rightarrow> bool" where
  "range_of b temps c \<longleftrightarrow>
     (if temps = [] then \<not> fst c < snd c
      else b \<le> unat (fst c) \<and> unat (snd c) = unat (fst c) + length temps)"

function rep :: "nat \<Rightarrow> node list \<Rightarrow> nat \<Rightarrow> temp list \<Rightarrow> bool" where
  "rep b nodes i [] \<longleftrightarrow> True"
| "rep b nodes i (Temp nt term children # temps) \<longleftrightarrow>
     i < length nodes \<and> node_token (nodes ! i) = nt \<and> node_is_terminal (nodes ! i) = term \<and>
     range_of b children (node_children (nodes ! i)) \<and>
     rep b nodes (unat (fst (node_children (nodes ! i)))) children \<and> rep b nodes (i + 1) temps"
  by pat_completeness auto
termination
  by (relation "measure (\<lambda>(b, nodes, i, ts). size_list size ts)") auto

text \<open>The frames the search needs for a list of nodes.\<close>

fun weight :: "tok \<Rightarrow> nat" where
  "weight (Group opts) = length opts"
| "weight t = 1"

function need :: "arena \<Rightarrow> temp list \<Rightarrow> nat" where
  "need env [] = 1"
| "need env (Temp nt term children # temps) =
     max (if children = [] then 1 else weight (tok_of env nt) + need env children) (need env temps)"
  by pat_completeness auto
termination
  by (relation "measure (\<lambda>(env, ts). size_list size ts)") auto

lemma need_pos: "1 \<le> need env temps"
  by (induction env temps rule: need.induct) auto

section \<open>The search follows the trie\<close>

fun outcome_loop :: "path_matcher_set \<Rightarrow> outcome \<Rightarrow> bool option" where
  "outcome_loop s (Return b) = Some b"
| "outcome_loop s (Continue stack) = backtrack_loop s stack"

lemma backtrack_loop_Nil: "backtrack_loop s [] = Some False"
  by (simp add: backtrack_loop.simps)

lemma backtrack_loop_Cons: "backtrack_loop s (frame # rest) = outcome_loop s (backtrack_step s frame rest)"
  by (subst backtrack_loop.simps) (simp split: outcome.split)

text \<open>\<open>decides s n r stack ok m\<close>: the run \<open>r\<close> accepts when \<open>ok\<close>, otherwise it goes on with \<open>stack\<close>, unless it
  gives up because more than 64 frames are needed.\<close>

definition decides :: "path_matcher_set \<Rightarrow> bool option \<Rightarrow> match_frame list \<Rightarrow> bool \<Rightarrow> nat \<Rightarrow> bool" where
  "decides s r stack ok n \<longleftrightarrow>
     r = (if ok then Some True else backtrack_loop s stack) \<or> r = Some False \<and> MAX_STACK_DEPTH < length stack + n"

lemma decides_trans:
  "decides s r stack ok n \<Longrightarrow> decides s (backtrack_loop s stack) stack' ok' n' \<Longrightarrow>
     length stack + n \<le> length stack' + m \<Longrightarrow> n' \<le> m \<Longrightarrow> decides s r stack' (ok \<or> ok') m"
  by (cases ok; cases ok') (auto simp: decides_def)

lemma decides_refl: "decides s (backtrack_loop s stack) stack False n"
  by (simp add: decides_def)

lemma decides_mono: "decides s r stack ok n \<Longrightarrow> n \<le> m \<Longrightarrow> decides s r stack ok m"
  by (auto simp: decides_def)

abbreviation child_frame :: "node \<Rightarrow> string \<Rightarrow> match_frame" where
  "child_frame n nx \<equiv> \<lparr>fr_input = nx, fr_child_start = fst (node_children n), fr_child_end = snd (node_children n), fr_progress = 0\<rparr>"

lemma deep_push_decides:
  assumes "\<not> node_is_terminal n"
  shows "deep_push n nx stack = descend n nx stack"
  using assms by (simp add: deep_push_def descend_def)

lemma descend_cases:
  assumes "range_of b children (node_children n)"
  obtains (accept) "nx = []" "node_is_terminal n" "descend n nx stack = Return True"
  | (full) "children \<noteq> []" "length stack \<ge> MAX_STACK_DEPTH" "descend n nx stack = Return False"
  | (push) "\<not> (nx = [] \<and> node_is_terminal n)" "children \<noteq> []" "descend n nx stack = Continue (child_frame n nx # stack)"
  | (leaf) "\<not> (nx = [] \<and> node_is_terminal n)" "children = []" "descend n nx stack = Continue stack"
proof -
  have "fst (node_children n) < snd (node_children n) \<longleftrightarrow> children \<noteq> []"
    using assms by (cases children) (simp_all add: range_of_def word_less_nat_alt)
  then show thesis
    using that by (cases "nx = [] \<and> node_is_terminal n"; cases "children = []"; cases "length stack \<ge> MAX_STACK_DEPTH")
      (simp_all add: descend_def)
qed

lemma descend_decides:
  assumes kids: "children \<noteq> [] \<Longrightarrow> decides s (backtrack_loop s (child_frame n nx # stack)) stack (temps_match env children nx) (need env children)"
    and range: "range_of b children (node_children n)"
  shows "decides s (outcome_loop s (descend n nx stack)) stack
    (nx = [] \<and> node_is_terminal n \<or> temps_match env children nx) (if children = [] then 0 else need env children)"
  using range
proof (rule descend_cases [where nx = nx and stack = stack], goal_cases accept full push leaf)
  case full
  then show ?thesis using need_pos [of env children] by (auto simp: decides_def)
next
  case push
  then show ?thesis using kids by auto
qed (auto simp: decides_def)

lemma group_loop_decides:
  assumes kids: "\<And>nx stack. children \<noteq> [] \<Longrightarrow> length nx \<le> length remaining \<Longrightarrow>
      decides s (backtrack_loop s (child_frame n nx # stack)) stack (temps_match env children nx) (need env children)"
    and range: "range_of b children (node_children n)"
  shows "decides s (outcome_loop s (group_loop bytes spans n remaining stack)) stack
    (\<exists>r\<in>set (residuals (Group (map (\<lambda>span. slice bytes (span_start span) (span_end span)) spans)) remaining).
       r = [] \<and> node_is_terminal n \<or> temps_match env children r)
    (if children = [] \<or> spans = [] then 0 else length spans - 1 + need env children)"
proof (induction spans arbitrary: stack)
  case Nil
  then show ?case by (simp add: decides_def)
next
  case (Cons span spans)
  define opt where "opt = slice bytes (span_start span) (span_end span)"
  define nxt where "nxt = drop (length opt) remaining"
  let ?rs = "set (residuals (Group (map (\<lambda>span. slice bytes (span_start span) (span_end span)) spans)) remaining)"
  let ?ok = "\<lambda>r. r = [] \<and> node_is_terminal n \<or> temps_match env children r"
  show ?case
  proof (cases "prefix opt remaining")
    case False
    have "decides s (outcome_loop s (group_loop bytes spans n remaining stack)) stack (\<exists>r\<in>?rs. ?ok r)
        (if children = [] then 0 else length spans + need env children)"
      by (rule decides_mono [OF Cons]) auto
    moreover have "group_loop bytes (span # spans) n remaining stack = group_loop bytes spans n remaining stack"
      "set (residuals (Group (map (\<lambda>span. slice bytes (span_start span) (span_end span)) (span # spans))) remaining) = ?rs"
      using False by (simp_all add: opt_def)
    ultimately show ?thesis by (simp only: list.distinct simp_thms list.size One_nat_def [symmetric] add_diff_cancel_right')
  next
    case True
    then have ex: "(\<exists>r\<in>set (residuals (Group (map (\<lambda>span. slice bytes (span_start span) (span_end span)) (span # spans))) remaining). ?ok r)
        \<longleftrightarrow> (\<exists>r\<in>?rs. ?ok r) \<or> ?ok nxt"
      by (auto simp: opt_def nxt_def)
    have loop: "group_loop bytes (span # spans) n remaining stack =
        (case descend n nxt stack of Return b \<Rightarrow> Return b | Continue stack \<Rightarrow> group_loop bytes spans n remaining stack)"
      using True by (simp add: opt_def nxt_def)
    have "decides s (outcome_loop s (case descend n nxt stack of Return b \<Rightarrow> Return b | Continue stack \<Rightarrow> group_loop bytes spans n remaining stack)) stack
        ((\<exists>r\<in>?rs. ?ok r) \<or> ?ok nxt) (if children = [] then 0 else length spans + need env children)" (is ?goal)
      using range
    proof (rule descend_cases [where nx = nxt and stack = stack], goal_cases accept full push leaf)
      case accept
      then show ?goal by (simp add: decides_def)
    next
      case full
      then show ?goal using need_pos [of env children] by (auto simp: decides_def)
    next
      case push
      have "decides s (outcome_loop s (group_loop bytes spans n remaining (child_frame n nxt # stack))) stack
          ((\<exists>r\<in>?rs. ?ok r) \<or> temps_match env children nxt) (length spans + need env children)"
        by (rule decides_trans [OF Cons kids [OF push(2)]]) (use push(2) need_pos [of env children] in \<open>auto simp: nxt_def Suc_le_eq\<close>)
      moreover have "?ok nxt \<longleftrightarrow> temps_match env children nxt" using push(1) by blast
      ultimately show ?goal using push(2) by (simp only: push(3) outcome.case if_False)
    next
      case leaf
      have "\<not> ?ok nxt" using leaf(1,2) by simp
      then show ?goal using Cons [of stack] leaf(2) by (simp only: leaf(3) outcome.case if_True simp_thms)
    qed
    then show ?thesis by (simp only: ex loop list.distinct simp_thms list.size One_nat_def [symmetric] add_diff_cancel_right')
  qed
qed


definition frame_rep :: "path_matcher_set \<Rightarrow> match_frame \<Rightarrow> temp list \<Rightarrow> bool" where
  "frame_rep s frame temps \<longleftrightarrow>
     rep 0 (pms_nodes s) (unat (fr_child_start frame)) temps \<and>
     range_of 0 temps (fr_child_start frame, fr_child_end frame)"

abbreviation pms_env :: "path_matcher_set \<Rightarrow> arena" where
  "pms_env s \<equiv> (pms_arena s, pms_group_spans s)"

lemma exhausted_accepts_iff:
  assumes "spans_ok (pms_env s)"
  shows "exhausted_accepts (pms_group_spans s) n \<longleftrightarrow>
    tok_accepts (tok_of (pms_env s) (node_token n)) (node_is_terminal n) k []"
proof (cases "node_token n")
  case (NGroup i j)
  have "span_start span = span_end span \<longleftrightarrow> [] = slice (pms_arena s) (span_start span) (span_end span)"
    if "span \<in> set (slice (pms_group_spans s) i j)" for span
  proof -
    have "span \<in> set (pms_group_spans s)"
      using that by (auto simp: slice_def dest: in_set_takeD in_set_dropD)
    then have "span_start span \<le> span_end span" "unat (span_end span) \<le> length (pms_arena s)"
      using assms by (auto simp: spans_ok_def)
    then have "slice (pms_arena s) (span_start span) (span_end span) = [] \<longleftrightarrow> span_end span \<le> span_start span" by (simp add: slice_empty_iff)
    then show ?thesis using \<open>span_start span \<le> span_end span\<close> by (metis order.antisym order.refl)
  qed
  then have "(\<exists>span\<in>set (slice (pms_group_spans s) i j). span_start span = span_end span) \<longleftrightarrow>
      (\<exists>span\<in>set (slice (pms_group_spans s) i j). [] = slice (pms_arena s) (span_start span) (span_end span))"
    by blast
  then show ?thesis using NGroup by (auto simp: exhausted_accepts_def tok_accepts_def list_ex_iff image_iff)
qed (simp_all add: exhausted_accepts_def tok_accepts_def)

lemma exhausted_temps:
  assumes "spans_ok (pms_env s)" "rep b (pms_nodes s) i temps"
  shows "list_ex (exhausted_accepts (pms_group_spans s)) (take (length temps) (drop i (pms_nodes s))) \<longleftrightarrow>
    temps_match (pms_env s) temps []"
  using assms(2)
proof (induction temps arbitrary: i)
  case (Cons t temps)
  obtain nt tm children where t: "t = Temp nt tm children" by (cases t)
  have i: "i < length (pms_nodes s)" and n: "node_token (pms_nodes s ! i) = nt" "node_is_terminal (pms_nodes s ! i) = tm"
    and r: "rep b (pms_nodes s) (Suc i) temps" using Cons(2) t by auto
  have "drop i (pms_nodes s) = pms_nodes s ! i # drop (Suc i) (pms_nodes s)"
    using i by (simp add: Cons_nth_drop_Suc)
  then show ?case
    using Cons(1) [OF r] n t exhausted_accepts_iff [OF assms(1), of "pms_nodes s ! i" "\<lambda>r. temps_match (pms_env s) children r"]
    by simp
qed simp

lemma frame_rep_advance:
  assumes "frame_rep s frame (t # temps)"
  shows "frame_rep s (next_child frame) temps" "fr_child_start frame < fr_child_end frame"
proof -
  have e: "unat (fr_child_end frame) = unat (fr_child_start frame) + length temps + 1"
    using assms by (simp add: frame_rep_def range_of_def)
  then show "fr_child_start frame < fr_child_end frame" by (simp add: word_less_nat_alt)
  have "unat (fr_child_start frame) + 1 < 2 ^ LENGTH(32)"
    using e unat_lt_exp [of "fr_child_end frame"] by linarith
  then have "unat (fr_child_start frame + 1) = unat (fr_child_start frame) + 1" by (simp add: unat_word_ariths)
  then show "frame_rep s (next_child frame) temps"
    using assms e by (cases t) (auto simp: frame_rep_def range_of_def next_child_def word_less_nat_alt)
qed

text \<open>A token that is tried on several rests, one per turn.\<close>

lemma iterate_decides:
  assumes step: "\<And>k. k < length rs \<Longrightarrow> backtrack_step s (f k) rest = descend n (rs ! k) (f (k + 1) # rest)"
    and stop: "backtrack_step s (f (length rs)) rest = Continue (fr' # rest)"
    and kids: "\<And>r stack. r \<in> set rs \<Longrightarrow> children \<noteq> [] \<Longrightarrow>
      decides s (backtrack_loop s (child_frame n r # stack)) stack (temps_match env children r) (need env children)"
    and range: "range_of b children (node_children n)"
    and tail: "decides s (backtrack_loop s (fr' # rest)) rest ok m"
    and m: "children \<noteq> [] \<Longrightarrow> 1 + need env children \<le> m" "1 \<le> m"
  shows "k \<le> length rs \<Longrightarrow> decides s (backtrack_loop s (f k # rest)) rest
    ((\<exists>r\<in>set (drop k rs). r = [] \<and> node_is_terminal n \<or> temps_match env children r) \<or> ok) m"
proof (induction "length rs - k" arbitrary: k)
  case 0
  then have "k = length rs" by simp
  then show ?case using tail stop by (simp add: backtrack_loop_Cons)
next
  case (Suc d)
  then have k: "k < length rs" and d: "d = length rs - (k + 1)" by simp_all
  let ?ok = "\<lambda>r. r = [] \<and> node_is_terminal n \<or> temps_match env children r"
  have "decides s (outcome_loop s (descend n (rs ! k) (f (k + 1) # rest))) (f (k + 1) # rest) (?ok (rs ! k))
      (if children = [] then 0 else need env children)"
    by (rule descend_decides [OF _ range]) (use kids k in simp)
  moreover have "decides s (backtrack_loop s (f (k + 1) # rest)) rest ((\<exists>r\<in>set (drop (k + 1) rs). ?ok r) \<or> ok) m"
    using Suc(1) [OF d] k by simp
  ultimately have "decides s (outcome_loop s (descend n (rs ! k) (f (k + 1) # rest))) rest
      (?ok (rs ! k) \<or> ((\<exists>r\<in>set (drop (k + 1) rs). ?ok r) \<or> ok)) m"
    by (rule decides_trans) (use m in auto)
  moreover have "(\<exists>r\<in>set (drop k rs). ?ok r) \<longleftrightarrow> ?ok (rs ! k) \<or> (\<exists>r\<in>set (drop (k + 1) rs). ?ok r)"
    using k by (simp flip: Cons_nth_drop_Suc)
  ultimately show ?case using step [OF k] by (simp add: backtrack_loop_Cons)
qed


lemma wildcard_turn:
  fixes s :: string
  defines "m \<equiv> length (takeWhile (\<lambda>c. c \<noteq> CHR ''/'') s)"
  assumes that: "k \<le> Suc m"
  shows "(k \<le> length s \<and> (k = 0 \<or> s ! (k - 1) \<noteq> CHR ''/'')) \<longleftrightarrow> k < Suc m"
proof -
  have m: "m \<le> length s" unfolding m_def by (rule length_takeWhile_le)
  show ?thesis
  proof (cases "k = Suc m")
    case True
    have "s ! m = CHR ''/''" if "m < length s"
      using nth_length_takeWhile [of "\<lambda>c. c \<noteq> CHR ''/''" s] that by (simp add: m_def)
    then show ?thesis using True by auto
  next
    case False
    then have k: "k \<le> m" using that by simp
    have "s ! (k - 1) \<noteq> CHR ''/''" if "k \<noteq> 0"
    proof -
      have "takeWhile (\<lambda>c. c \<noteq> CHR ''/'') s ! (k - 1) \<in> set (takeWhile (\<lambda>c. c \<noteq> CHR ''/'') s)"
        using k that by (intro nth_mem) (simp add: m_def)
      then have "takeWhile (\<lambda>c. c \<noteq> CHR ''/'') s ! (k - 1) \<noteq> CHR ''/''" by (auto dest: set_takeWhileD)
      moreover have "takeWhile (\<lambda>c. c \<noteq> CHR ''/'') s ! (k - 1) = s ! (k - 1)"
        using k that by (intro takeWhile_nth) (simp add: m_def)
      ultimately show ?thesis by simp
    qed
    then show ?thesis using k m False by auto
  qed
qed

lemma after_slashes_None: "position (\<lambda>b. b = CHR ''/'') s = None \<Longrightarrow> after_slashes s = []"
  by (subst after_slashes.simps) (simp only: option.case)

lemma after_slashes_Some:
  "position (\<lambda>b. b = CHR ''/'') s = Some pos \<Longrightarrow> after_slashes s = drop (pos + 1) s # after_slashes (drop (pos + 1) s)"
  by (subst after_slashes.simps) (simp only: option.case)

lemma length_after_slashes: "length (after_slashes s) \<le> length s"
proof (induction s rule: after_slashes.induct)
  case (1 s)
  show ?case
  proof (cases "position (\<lambda>b. b = CHR ''/'') s")
    case (Some pos)
    then have "pos < length s" by (auto dest: position_SomeD)
    then show ?thesis using 1 [OF Some] after_slashes_Some [OF Some] by simp
  qed (simp add: after_slashes_None)
qed

lemma skip_dirs_nth:
  "j \<le> length (after_slashes s) \<Longrightarrow>
     skip_dirs j s fr = ((s # after_slashes s) ! j, fr) \<and> after_slashes ((s # after_slashes s) ! j) = drop j (after_slashes s)"
proof (induction j arbitrary: s)
  case (Suc j)
  show ?case
  proof (cases "position (\<lambda>b. b = CHR ''/'') s")
    case None
    then show ?thesis using Suc(2) after_slashes_None [OF None] by simp
  next
    case (Some pos)
    note eq = after_slashes_Some [OF Some]
    then have "j \<le> length (after_slashes (drop (pos + 1) s))" using Suc(2) by simp
    from Suc(1) [OF this] show ?thesis using Some eq by simp
  qed
qed simp

lemma length_residuals: "residuals t s \<noteq> [] \<and> (t = Wildcard \<or> is_deep t) \<Longrightarrow> length (residuals t s) \<le> Suc (length s)"
  using length_after_slashes [of s] length_takeWhile_le [of "\<lambda>c. c \<noteq> CHR ''/''" s] by (cases t) auto

lemma wildcard_step_turn:
  assumes n: "backtrack_step s (frame\<lparr>fr_progress := of_nat k\<rparr>) rest = wildcard_step n (frame\<lparr>fr_progress := of_nat k\<rparr>) rest"
    and small: "length (fr_input frame) < 2 ^ 32 - 2"
    and k: "k \<le> length (residuals Wildcard (fr_input frame))"
  shows "backtrack_step s (frame\<lparr>fr_progress := of_nat k\<rparr>) rest =
    (if k < length (residuals Wildcard (fr_input frame))
     then descend n (residuals Wildcard (fr_input frame) ! k) (frame\<lparr>fr_progress := of_nat (k + 1)\<rparr> # rest)
     else Continue (next_child (frame\<lparr>fr_progress := 0\<rparr>) # rest))"
proof -
  have "k < 2 ^ LENGTH(32)"
    using k small length_takeWhile_le [of "\<lambda>c. c \<noteq> CHR ''/''" "fr_input frame"] by simp
  then have u: "unat (of_nat k :: u32) = k" by (simp only: unat_of_nat mod_less)
  have "k \<le> Suc (length (takeWhile (\<lambda>c. c \<noteq> CHR ''/'') (fr_input frame)))" using k by simp
  note turn = wildcard_turn [OF this]
  have ws: "wildcard_step n (frame\<lparr>fr_progress := of_nat k\<rparr>) rest =
    (if k \<le> length (fr_input frame) \<and> (k = 0 \<or> fr_input frame ! (k - 1) \<noteq> CHR ''/'')
     then descend n (drop k (fr_input frame)) (frame\<lparr>fr_progress := of_nat (k + 1)\<rparr> # rest)
     else Continue (next_child (frame\<lparr>fr_progress := 0\<rparr>) # rest))"
    by (auto simp: wildcard_step_def Let_def u add.commute)
  have rs: "k < length (residuals Wildcard (fr_input frame)) \<longleftrightarrow> k < Suc (length (takeWhile (\<lambda>c. c \<noteq> CHR ''/'') (fr_input frame)))"
    by simp
  have "residuals Wildcard (fr_input frame) ! k = drop k (fr_input frame)" if "k < length (residuals Wildcard (fr_input frame))"
    using that by (simp del: upt_Suc)
  then show ?thesis unfolding n ws turn rs
    by (cases "k < Suc (length (takeWhile (\<lambda>c. c \<noteq> CHR ''/'') (fr_input frame)))") (simp_all only: if_True if_False)
qed

lemma deep_step_turn:
  assumes n: "backtrack_step s (frame\<lparr>fr_progress := of_nat k\<rparr>) rest = deep_step n (frame\<lparr>fr_progress := of_nat k\<rparr>) rest"
    and small: "length (fr_input frame) < 2 ^ 32 - 2"
    and tm: "\<not> node_is_terminal n"
    and rs: "rs = fr_input frame # after_slashes (fr_input frame)"
    and k: "k \<le> length rs"
  shows "backtrack_step s (frame\<lparr>fr_progress := of_nat k\<rparr>) rest =
    (if k < length rs
     then descend n (rs ! k) (frame\<lparr>fr_progress := of_nat (k + 1)\<rparr> # rest)
     else Continue (next_child (frame\<lparr>fr_progress := 0\<rparr>) # rest))"
proof (cases "k = 0")
  case True
  then show ?thesis using n tm by (simp add: rs deep_step_def deep_push_decides Let_def)
next
  case False
  define j where "j = k - 1"
  have Suc: "k = Suc j" using False by (simp add: j_def)
  let ?f = "frame\<lparr>fr_progress := of_nat k\<rparr>"
  have "k < 2 ^ LENGTH(32)" using k small rs length_after_slashes [of "fr_input frame"] by simp
  then have u: "unat (of_nat k :: u32) = k" by (simp only: unat_of_nat mod_less)
  have j: "j \<le> length (after_slashes (fr_input frame))" using k Suc rs by simp
  have skip: "skip_dirs j (fr_input frame) ?f = (rs ! j, ?f)" "after_slashes (rs ! j) = drop j (after_slashes (fr_input frame))"
    using skip_dirs_nth [OF j, of ?f] rs by simp_all
  have step: "backtrack_step s ?f rest =
      (case position (\<lambda>b. b = CHR ''/'') (rs ! j) of
         Some pos \<Rightarrow> descend n (drop (pos + 1) (rs ! j)) (?f\<lparr>fr_progress := fr_progress ?f + 1\<rparr> # rest)
       | None \<Rightarrow> Continue (next_child (?f\<lparr>fr_progress := 0\<rparr>) # rest))"
  proof -
    have "unat (fr_progress ?f) = k" "fr_input ?f = fr_input frame" using u by simp_all
    then show ?thesis unfolding n deep_step_def Let_def deep_push_decides [OF tm]
      using tm False skip(1) by (simp only: j_def if_False split)
  qed
  show ?thesis
  proof (cases "position (\<lambda>b. b = CHR ''/'') (rs ! j)")
    case None
    then have "drop j (after_slashes (fr_input frame)) = []" using skip(2) after_slashes_None [OF None] by simp
    then have "\<not> k < length rs" using Suc rs by simp
    then show ?thesis unfolding step None by simp
  next
    case (Some pos)
    have "drop j (after_slashes (fr_input frame)) = drop (pos + 1) (rs ! j) # after_slashes (drop (pos + 1) (rs ! j))"
      using skip(2) after_slashes_Some [OF Some] by simp
    then have "j < length (after_slashes (fr_input frame))" "after_slashes (fr_input frame) ! j = drop (pos + 1) (rs ! j)"
      using hd_drop_conv_nth [of j "after_slashes (fr_input frame)"]
      by (cases "j < length (after_slashes (fr_input frame))"; simp)+
    then have "k < length rs" "rs ! k = drop (pos + 1) (rs ! j)" using Suc rs by simp_all
    then show ?thesis unfolding step Some by (simp add: add.commute)
  qed
qed


text \<open>The search on a frame accepts what the nodes of the frame accept.\<close>

lemma after_slashes_length: "r \<in> set (after_slashes s) \<Longrightarrow> length r < length s"
proof (induction s rule: after_slashes.induct)
  case (1 s)
  show ?case
  proof (cases "position (\<lambda>b. b = CHR ''/'') s")
    case (Some pos)
    then have "pos < length s" by (auto dest: position_SomeD)
    then show ?thesis using 1 Some after_slashes_Some [OF Some] by fastforce
  qed (use 1(2) after_slashes_None in auto)
qed

lemma single_decides:
  assumes step: "backtrack_step s frame rest = (if c then descend n r (next_child frame # rest) else Continue (next_child frame # rest))"
    and kids: "\<And>stack. c \<Longrightarrow> children \<noteq> [] \<Longrightarrow>
      decides s (backtrack_loop s (child_frame n r # stack)) stack (temps_match env children r) (need env children)"
    and range: "range_of b children (node_children n)"
    and tail: "decides s (backtrack_loop s (next_child frame # rest)) rest ok m"
    and m: "children \<noteq> [] \<Longrightarrow> 1 + need env children \<le> m" "1 \<le> m"
  shows "decides s (backtrack_loop s (frame # rest)) rest
    (c \<and> (r = [] \<and> node_is_terminal n \<or> temps_match env children r) \<or> ok) m"
proof (cases c)
  case True
  have "decides s (outcome_loop s (descend n r (next_child frame # rest))) (next_child frame # rest)
      (r = [] \<and> node_is_terminal n \<or> temps_match env children r) (if children = [] then 0 else need env children)"
    by (rule descend_decides [OF _ range]) (use kids True in simp)
  then have "decides s (outcome_loop s (descend n r (next_child frame # rest))) rest
      ((r = [] \<and> node_is_terminal n \<or> temps_match env children r) \<or> ok) m"
    by (rule decides_trans [OF _ tail]) (use m in auto)
  then show ?thesis using True by (simp only: backtrack_loop_Cons step if_True simp_thms)
next
  case False
  then show ?thesis using tail by (simp add: backtrack_loop_Cons step)
qed

lemma frame_decides:
  assumes ok: "spans_ok (pms_env s)"
  shows "frame_rep s frame temps \<Longrightarrow> fr_progress frame = 0 \<Longrightarrow> length (fr_input frame) < 2 ^ 32 - 2 \<Longrightarrow>
    decides s (backtrack_loop s (frame # rest)) rest (temps_match (pms_env s) temps (fr_input frame)) (need (pms_env s) temps)"
proof (induction "pms_env s" temps arbitrary: frame rest rule: need.induct)
  case 1
  have "\<not> fr_child_start frame < fr_child_end frame" using 1 by (simp add: frame_rep_def range_of_def)
  then have "backtrack_step s frame rest = Continue rest"
    by (simp add: backtrack_step_def slice_def word_le_nat_alt not_less)
  then show ?case by (simp add: backtrack_loop_Cons decides_def)
next
  case (2 nt tm children temps)
  define n where "n = pms_nodes s ! unat (fr_child_start frame)"
  define inp where "inp = fr_input frame"
  define t where "t = tok_of (pms_env s) nt"
  have n: "node_token n = nt" "node_is_terminal n = tm" and range: "range_of 0 children (node_children n)"
    and kidrep: "rep 0 (pms_nodes s) (unat (fst (node_children n))) children"
    using 2(3) by (auto simp: frame_rep_def n_def)
  note adv = frame_rep_advance [OF 2(3)]
  have kids: "decides s (backtrack_loop s (child_frame n r # stack)) stack (temps_match (pms_env s) children r) (need (pms_env s) children)"
    if "length r \<le> length inp" "children \<noteq> []" for r stack
    using 2(1) [OF that(2), of "child_frame n r" stack] that 2(5) range kidrep
    by (auto simp: frame_rep_def range_of_def inp_def split: if_splits)
  have tail: "decides s (backtrack_loop s (next_child frame # rest)) rest (temps_match (pms_env s) temps inp) (need (pms_env s) temps)"
    using 2(2) [OF adv(1)] 2(4,5) by (simp add: next_child_def inp_def)
  show ?case
  proof (cases "inp = []")
    case True
    have "slice (pms_nodes s) (fr_child_start frame) (fr_child_end frame) =
        take (length (Temp nt tm children # temps)) (drop (unat (fr_child_start frame)) (pms_nodes s))"
      using 2(3) by (simp add: slice_def frame_rep_def range_of_def)
    then show ?thesis
      using exhausted_temps [OF ok, of 0 "unat (fr_child_start frame)" "Temp nt tm children # temps"] 2(3) True
      by (simp only: backtrack_loop_Cons backtrack_step_def inp_def if_True frame_rep_def) (simp add: decides_def)
  next
    case False
    define m where "m = need (pms_env s) (Temp nt tm children # temps)"
    have m: "1 \<le> m" "need (pms_env s) temps \<le> m" "children \<noteq> [] \<Longrightarrow> weight t + need (pms_env s) children \<le> m"
      using need_pos [of "pms_env s" "Temp nt tm children # temps"] by (auto simp: m_def t_def)
    note tail = decides_mono [OF tail m(2)]
    define acc where "acc = (\<lambda>r. r = [] \<and> node_is_terminal n \<or> temps_match (pms_env s) children r)"
    have goal: "temps_match (pms_env s) (Temp nt tm children # temps) inp \<longleftrightarrow>
        (is_deep t \<and> tm \<or> (\<exists>r\<in>set (residuals t inp). acc r)) \<or> temps_match (pms_env s) temps inp"
      using False n(2) by (simp add: tok_accepts_def t_def acc_def)
    have step: "backtrack_step s f rest =
        (case nt of
          NLiteral i j \<Rightarrow> literal_step (slice (pms_arena s) i j) n f rest
        | NWildcard \<Rightarrow> wildcard_step n f rest
        | NDeepWildcard \<Rightarrow> deep_step n f rest
        | NDeepWilcardDir \<Rightarrow> deep_step n f rest
        | NAnyChar \<Rightarrow> any_char_step n f rest
        | NCharClass bitmap negated \<Rightarrow> class_step bitmap negated n f rest
        | NGroup i j \<Rightarrow> group_step s i j n f rest)"
      if "fr_input f = inp" "fr_child_start f = fr_child_start frame" "fr_child_end f = fr_child_end frame" for f
    proof -
      have "\<not> fr_child_end frame \<le> fr_child_start frame" using adv(2) by simp
      then show ?thesis unfolding backtrack_step_def that Let_def n_def [symmetric] n(1) using False by (simp only: if_False)
    qed
    have f0: "frame\<lparr>fr_progress := 0\<rparr> = frame" using 2(4) by (cases frame) simp
    note fstep = step [OF inp_def [symmetric] refl refl]
    have single: "decides s (backtrack_loop s (frame # rest)) rest ((\<exists>r\<in>set (residuals t inp). acc r) \<or> temps_match (pms_env s) temps inp) m"
      if "residuals t inp = (if c then [r] else [])" "length r \<le> length inp" "weight t = 1"
        "backtrack_step s frame rest = (if c then descend n r (next_child frame # rest) else Continue (next_child frame # rest))" for c r
    proof -
      have "decides s (backtrack_loop s (frame # rest)) rest (c \<and> acc r \<or> temps_match (pms_env s) temps inp) m"
        unfolding acc_def
        by (rule single_decides [OF that(4) _ range tail _ m(1)]) (use kids [OF that(2)] m(3) that(3) in auto)
      then show ?thesis unfolding that(1) by (simp split: if_splits)
    qed
    have iterated: "decides s (backtrack_loop s (frame # rest)) rest ((\<exists>r\<in>set (residuals t inp). acc r) \<or> temps_match (pms_env s) temps inp) m"
      if "weight t = 1" "\<And>r. r \<in> set (residuals t inp) \<Longrightarrow> length r \<le> length inp"
        "\<And>k. k \<le> length (residuals t inp) \<Longrightarrow> backtrack_step s (frame\<lparr>fr_progress := of_nat k\<rparr>) rest =
           (if k < length (residuals t inp) then descend n (residuals t inp ! k) (frame\<lparr>fr_progress := of_nat (k + 1)\<rparr> # rest)
            else Continue (next_child frame # rest))"
    proof -
      have "frame\<lparr>fr_progress := of_nat 0\<rparr> = frame" using 2(4) by simp
      moreover have "decides s (backtrack_loop s (frame\<lparr>fr_progress := of_nat 0\<rparr> # rest)) rest
          ((\<exists>r\<in>set (drop 0 (residuals t inp)). r = [] \<and> node_is_terminal n \<or> temps_match (pms_env s) children r) \<or> temps_match (pms_env s) temps inp) m"
        by (rule iterate_decides [where f = "\<lambda>k. frame\<lparr>fr_progress := of_nat k\<rparr>", OF _ _ kids range tail _ m(1)])
          (use that m(3) in simp_all)
      ultimately show ?thesis by (simp add: acc_def)
    qed
    have deep: "decides s (backtrack_loop s (frame # rest)) rest (temps_match (pms_env s) (Temp nt tm children # temps) inp) m"
      if d: "is_deep t" and deep: "\<And>f. fr_input f = inp \<Longrightarrow> fr_child_start f = fr_child_start frame \<Longrightarrow>
          fr_child_end f = fr_child_end frame \<Longrightarrow> backtrack_step s f rest = deep_step n f rest"
    proof (cases tm)
      case True
      then show ?thesis unfolding goal using d n(2) deep [of frame]
        by (simp add: backtrack_loop_Cons inp_def deep_step_def decides_def)
    next
      case False
      have rs: "residuals t inp = inp # after_slashes inp" "weight t = 1" using d by (cases t; simp)+
      have "decides s (backtrack_loop s (frame # rest)) rest ((\<exists>r\<in>set (residuals t inp). acc r) \<or> temps_match (pms_env s) temps inp) m"
      proof (rule iterated [OF rs(2)])
        show "length r \<le> length inp" if "r \<in> set (residuals t inp)" for r using that unfolding rs(1) by (auto dest: after_slashes_length)
        show "backtrack_step s (frame\<lparr>fr_progress := of_nat k\<rparr>) rest =
           (if k < length (residuals t inp) then descend n (residuals t inp ! k) (frame\<lparr>fr_progress := of_nat (k + 1)\<rparr> # rest)
            else Continue (next_child frame # rest))" if "k \<le> length (residuals t inp)" for k
          using deep_step_turn [of s k frame rest n "residuals t inp"] deep [of "frame\<lparr>fr_progress := of_nat k\<rparr>"] that 2(4,5) n(2) False rs(1)
          by (simp add: inp_def f0)
      qed
      then show ?thesis unfolding goal using False by simp
    qed
    show ?thesis
    proof (cases nt)
      case (NLiteral i j)
      let ?l = "slice (pms_arena s) i j"
      have "decides s (backtrack_loop s (frame # rest)) rest ((\<exists>r\<in>set (residuals t inp). acc r) \<or> temps_match (pms_env s) temps inp) m"
        by (rule single [where c = "prefix ?l inp" and r = "drop (length ?l) inp"])
          (use fstep NLiteral in \<open>simp_all add: t_def literal_step_def inp_def Let_def\<close>)
      then show ?thesis unfolding goal [unfolded inp_def] m_def inp_def using NLiteral by (simp add: t_def)
    next
      case NWildcard
      then have t: "t = Wildcard" by (simp add: t_def)
      have "decides s (backtrack_loop s (frame # rest)) rest ((\<exists>r\<in>set (residuals t inp). acc r) \<or> temps_match (pms_env s) temps inp) m"
      proof (rule iterated)
        show "weight t = 1" by (simp add: t)
        show "length r \<le> length inp" if "r \<in> set (residuals t inp)" for r using that by (auto simp: t)
        show "backtrack_step s (frame\<lparr>fr_progress := of_nat k\<rparr>) rest =
           (if k < length (residuals t inp) then descend n (residuals t inp ! k) (frame\<lparr>fr_progress := of_nat (k + 1)\<rparr> # rest)
            else Continue (next_child frame # rest))" if "k \<le> length (residuals t inp)" for k
          using wildcard_step_turn [of s k frame rest n] step [of "frame\<lparr>fr_progress := of_nat k\<rparr>"] that 2(4,5) NWildcard
          by (simp add: inp_def t f0 del: residuals.simps)
      qed
      then show ?thesis unfolding goal [unfolded inp_def] m_def inp_def by (simp add: t)
    next
      case NDeepWildcard
      then show ?thesis using deep step by (simp add: t_def m_def inp_def)
    next
      case NDeepWilcardDir
      then show ?thesis using deep step by (simp add: t_def m_def inp_def)
    next
      case NAnyChar
      have "decides s (backtrack_loop s (frame # rest)) rest ((\<exists>r\<in>set (residuals t inp). acc r) \<or> temps_match (pms_env s) temps inp) m"
        by (rule single [where c = "inp \<noteq> [] \<and> inp ! 0 \<noteq> CHR ''/''" and r = "drop 1 inp"])
          (use fstep NAnyChar in \<open>simp_all add: t_def any_char_step_def inp_def Let_def\<close>)
      then show ?thesis unfolding goal [unfolded inp_def] m_def inp_def using NAnyChar by (simp add: t_def)
    next
      case (NGroup i j)
      let ?spans = "slice (pms_group_spans s) i j"
      let ?opt = "\<lambda>span. slice (pms_arena s) (span_start span) (span_end span)"
      have t: "t = Group (map ?opt ?spans)" using NGroup by (simp add: t_def)
      have "decides s (outcome_loop s (group_loop (pms_arena s) (rev ?spans) n inp (next_child frame # rest))) (next_child frame # rest)
          (\<exists>r\<in>set (residuals (Group (map ?opt (rev ?spans))) inp). r = [] \<and> node_is_terminal n \<or> temps_match (pms_env s) children r)
          (if children = [] \<or> rev ?spans = [] then 0 else length (rev ?spans) - 1 + need (pms_env s) children)"
        by (rule group_loop_decides [OF kids range]) simp_all
      moreover have "set (residuals (Group (map ?opt (rev ?spans))) inp) = set (residuals t inp)" by (simp add: t)
      moreover have "backtrack_step s frame rest = group_loop (pms_arena s) (rev ?spans) n inp (next_child frame # rest)"
        using fstep NGroup by (simp add: group_step_def inp_def)
      ultimately have "decides s (backtrack_loop s (frame # rest)) (next_child frame # rest) (\<exists>r\<in>set (residuals t inp). acc r)
          (if children = [] \<or> ?spans = [] then 0 else weight t - 1 + need (pms_env s) children)"
        by (simp only: backtrack_loop_Cons acc_def t weight.simps length_map length_rev rev_is_Nil_conv)
      then have "decides s (backtrack_loop s (frame # rest)) rest ((\<exists>r\<in>set (residuals t inp). acc r) \<or> temps_match (pms_env s) temps inp) m"
        by (rule decides_trans [OF _ tail]) (use m in \<open>auto simp: t Suc_le_eq\<close>)
      then show ?thesis unfolding goal [unfolded inp_def] m_def inp_def by (simp add: t)
    next
      case (NCharClass bitmap negated)
      have "decides s (backtrack_loop s (frame # rest)) rest ((\<exists>r\<in>set (residuals t inp). acc r) \<or> temps_match (pms_env s) temps inp) m"
        by (rule single [where c = "inp \<noteq> [] \<and> bitmap_contains bitmap (byte (inp ! 0)) \<noteq> negated" and r = "drop 1 inp"])
          (use fstep NCharClass in \<open>simp_all add: t_def class_step_def inp_def Let_def\<close>)
      then show ?thesis unfolding goal [unfolded inp_def] m_def inp_def using NCharClass by (simp add: t_def)
    qed
  qed
qed

section \<open>The flattened nodes represent the trie\<close>

lemma rep_cong:
  "rep b nodes i temps \<Longrightarrow> b \<le> i \<Longrightarrow> length nodes \<le> length nodes' \<Longrightarrow>
     (\<And>p. b \<le> p \<Longrightarrow> p < length nodes \<Longrightarrow> nodes' ! p = nodes ! p) \<Longrightarrow> rep b nodes' i temps"
proof (induction b nodes i temps rule: rep.induct)
  case (2 b nodes i nt tm children temps)
  have i: "i < length nodes" "nodes' ! i = nodes ! i" using 2(3-6) by auto
  have "rep b nodes' (unat (fst (node_children (nodes ! i)))) children"
  proof (cases "children = []")
    case False
    then have "b \<le> unat (fst (node_children (nodes ! i)))" using 2(3) by (auto simp: range_of_def)
    then show ?thesis using 2(1,3,5,6) by auto
  qed simp
  moreover have "rep b nodes' (i + 1) temps" using 2(2-6) by auto
  ultimately show ?case using 2(3,5) i by auto
qed simp

lemma rep_mono: "rep b nodes i temps \<Longrightarrow> b' \<le> b \<Longrightarrow> rep b' nodes i temps"
  by (induction b nodes i temps rule: rep.induct) (auto simp: range_of_def split: if_splits)

lemma range_of_mono: "range_of b temps c \<Longrightarrow> b' \<le> b \<Longrightarrow> range_of b' temps c"
  by (auto simp: range_of_def split: if_splits)

lemma rep_pointwise:
  "rep b nodes i temps \<longleftrightarrow>
     (\<forall>j<length temps. i + j < length nodes \<and> node_token (nodes ! (i + j)) = temp_token (temps ! j) \<and>
        node_is_terminal (nodes ! (i + j)) = temp_is_terminal (temps ! j) \<and>
        range_of b (temp_children (temps ! j)) (node_children (nodes ! (i + j))) \<and>
        rep b nodes (unat (fst (node_children (nodes ! (i + j))))) (temp_children (temps ! j)))"
proof (induction temps arbitrary: i)
  case (Cons t temps)
  show ?case
    by (cases t) (simp add: All_less_Suc2 Cons [of "Suc i"] conj_ac)
qed simp

lemma length_flatten: "length out \<le> length (snd (flatten temps out))"
  and length_flatten_children: "length out \<le> length (flatten_children i temps out)"
proof (induction temps out and i temps out rule: flatten_flatten_children.induct)
  case (2 t ts out)
  from 2 [OF refl refl refl] show ?case by (simp add: Let_def)
next
  case (4 i tok tm children temps out)
  then show ?case by (cases "flatten children out") fastforce
qed (auto simp: Let_def)

lemma flatten_rep:
  "flatten temps out = (c, out') \<Longrightarrow> length out' < 2 ^ 32 \<Longrightarrow>
     length out \<le> length out' \<and> (\<forall>p<length out. out' ! p = out ! p) \<and>
     range_of (length out) temps c \<and> rep (length out) out' (unat (fst c)) temps"
  and flatten_children_rep:
  "flatten_children i temps out = out' \<Longrightarrow> length out' < 2 ^ 32 \<Longrightarrow> i + length temps \<le> b \<Longrightarrow> b \<le> length out \<Longrightarrow>
     (\<And>j. j < length temps \<Longrightarrow> node_token (out ! (i + j)) = temp_token (temps ! j) \<and> node_is_terminal (out ! (i + j)) = temp_is_terminal (temps ! j)) \<Longrightarrow>
     length out \<le> length out' \<and> (\<forall>p<length out. p < i \<or> i + length temps \<le> p \<longrightarrow> out' ! p = out ! p) \<and>
     (\<forall>j<length temps. node_token (out' ! (i + j)) = temp_token (temps ! j) \<and> node_is_terminal (out' ! (i + j)) = temp_is_terminal (temps ! j) \<and>
        range_of b (temp_children (temps ! j)) (node_children (out' ! (i + j))) \<and>
        rep b out' (unat (fst (node_children (out' ! (i + j))))) (temp_children (temps ! j)))"
proof (induction temps out and i temps out arbitrary: c out' and b out' rule: flatten_flatten_children.induct)
  case (1 out)
  then show ?case by (auto simp: range_of_def)
next
  case (2 t ts out)
  define temps where "temps = t # ts"
  define out1 where "out1 = out @ map (\<lambda>t. \<lparr>node_token = temp_token t, node_children = (0, 0), node_is_terminal = temp_is_terminal t\<rparr>) temps"
  have fl: "c = (of_nat (length out), of_nat (length out1))" "out' = flatten_children (unat (of_nat (length out) :: u32)) temps out1"
    using 2(2) by (simp_all add: Let_def out1_def temps_def)
  have len: "length out1 = length out + length temps" by (simp add: out1_def)
  have le: "length out1 \<le> length out'" unfolding fl(2) by (rule length_flatten_children)
  have "length out < 2 ^ LENGTH(32)" "length out1 < 2 ^ LENGTH(32)" using le len 2(3) by simp_all
  then have u: "unat (of_nat (length out) :: u32) = length out" "unat (of_nat (length out1) :: u32) = length out1"
    by (simp_all only: unat_of_nat mod_less)
  have new: "node_token (out1 ! (length out + j)) = temp_token (temps ! j) \<and> node_is_terminal (out1 ! (length out + j)) = temp_is_terminal (temps ! j)"
    if "j < length temps" for j using that by (simp add: out1_def nth_append)
  have IH: "length out1 \<le> length out' \<and> (\<forall>p<length out1. p < length out \<or> length out + length temps \<le> p \<longrightarrow> out' ! p = out1 ! p) \<and>
     (\<forall>j<length temps. node_token (out' ! (length out + j)) = temp_token (temps ! j) \<and> node_is_terminal (out' ! (length out + j)) = temp_is_terminal (temps ! j) \<and>
        range_of (length out1) (temp_children (temps ! j)) (node_children (out' ! (length out + j))) \<and>
        rep (length out1) out' (unat (fst (node_children (out' ! (length out + j))))) (temp_children (temps ! j)))"
    using 2(1) [OF refl out1_def [unfolded temps_def] refl, of out' "length out1"] new 2(3) len u fl(2)
    by (simp add: temps_def)
  have "rep (length out) out' (length out) temps"
    unfolding rep_pointwise [of _ _ _ temps] using IH len le
    by (auto intro: rep_mono [of "length out1"] range_of_mono [of "length out1"])
  moreover have "range_of (length out) temps c" using u len by (simp add: fl(1) range_of_def temps_def)
  moreover have "out' ! p = out ! p" if "p < length out" for p using IH that len by (simp add: out1_def nth_append)
  ultimately show ?case using le len u fl(1) by (simp add: temps_def)
next
  case (3 i out)
  then show ?case by simp
next
  case (4 i tok tm children temps out)
  obtain d out1 where f1: "flatten children out = (d, out1)" by (cases "flatten children out")
  define out2 where "out2 = out1[i := (out1 ! i)\<lparr>node_children := d\<rparr>]"
  have f2: "flatten_children (i + 1) temps out2 = out'" using 4(3) f1 by (simp add: out2_def)
  have le2: "length out2 \<le> length out'" using length_flatten_children [of out2 "i + 1" temps] f2 by simp
  then have small: "length out1 < 2 ^ 32" using 4(4) by (simp add: out2_def)
  have i: "i < b" using 4(5) by simp
  from 4(1) [OF f1 small] have one: "length out \<le> length out1" "\<And>p. p < length out \<Longrightarrow> out1 ! p = out ! p"
    "range_of (length out) children d" "rep (length out) out1 (unat (fst d)) children" by auto
  have old: "out2 ! p = out ! p" if "p < length out" "p \<noteq> i" for p using that one(2) by (simp add: out2_def)
  have new: "node_token (out2 ! (i + 1 + j)) = temp_token (temps ! j) \<and> node_is_terminal (out2 ! (i + 1 + j)) = temp_is_terminal (temps ! j)"
    if "j < length temps" for j
  proof -
    have "out2 ! (i + 1 + j) = out ! (i + Suc j)" using old [of "i + Suc j"] that 4(5,6) by simp
    then show ?thesis using 4(7) [of "Suc j"] that by simp
  qed
  have "length out2 \<le> length out' \<and> (\<forall>p<length out2. p < i + 1 \<or> i + 1 + length temps \<le> p \<longrightarrow> out' ! p = out2 ! p) \<and>
     (\<forall>j<length temps. node_token (out' ! (i + 1 + j)) = temp_token (temps ! j) \<and> node_is_terminal (out' ! (i + 1 + j)) = temp_is_terminal (temps ! j) \<and>
        range_of b (temp_children (temps ! j)) (node_children (out' ! (i + 1 + j))) \<and>
        rep b out' (unat (fst (node_children (out' ! (i + 1 + j))))) (temp_children (temps ! j)))"
    by (rule 4(2) [OF f1 [symmetric] refl f2 [unfolded out2_def] 4(4), folded out2_def])
      (use 4(5,6) one(1) new in \<open>auto simp: out2_def\<close>)
  then have two: "\<And>p. p < length out2 \<Longrightarrow> p < i + 1 \<or> i + 1 + length temps \<le> p \<Longrightarrow> out' ! p = out2 ! p"
    and rest: "\<forall>j<length temps. node_token (out' ! (i + 1 + j)) = temp_token (temps ! j) \<and> node_is_terminal (out' ! (i + 1 + j)) = temp_is_terminal (temps ! j) \<and>
        range_of b (temp_children (temps ! j)) (node_children (out' ! (i + 1 + j))) \<and>
        rep b out' (unat (fst (node_children (out' ! (i + 1 + j))))) (temp_children (temps ! j))"
    by blast+
  have hd: "out' ! i = (out ! i)\<lparr>node_children := d\<rparr>"
    using two [of i] one(1,2) i 4(6) by (simp add: out2_def)
  have "rep (length out) out' (unat (fst d)) children"
  proof (cases "children = []")
    case False
    then have "length out \<le> unat (fst d)" using one(3) by (simp add: range_of_def)
    then show ?thesis
      by (rule rep_cong [OF one(4)]) (use le2 two 4(5,6) in \<open>auto simp: out2_def\<close>)
  qed simp
  then have "rep b out' (unat (fst d)) children" by (rule rep_mono) (rule 4(6))
  moreover have "range_of b children d" by (rule range_of_mono [OF one(3) 4(6)])
  moreover have "node_token (out ! i) = tok" "node_is_terminal (out ! i) = tm" using 4(7) [of 0] by simp_all
  moreover have "out' ! p = out ! p" if "p < length out" "p < i \<or> i + Suc (length temps) \<le> p" for p
    using two [of p] old [of p] that one(1) by (auto simp: out2_def)
  moreover have "length out \<le> length out'" using one(1) le2 by (simp add: out2_def)
  ultimately show ?case using rest hd by (simp add: All_less_Suc2)
qed

section \<open>The trie accepts what its patterns accept\<close>

fun glob_accepts :: "tok list \<Rightarrow> string \<Rightarrow> bool" where
  "glob_accepts [] s \<longleftrightarrow> False"
| "glob_accepts (t # ts) s \<longleftrightarrow> tok_accepts t (ts = []) (glob_accepts ts) s"

fun toks_need :: "tok list \<Rightarrow> nat" where
  "toks_need [] = 1"
| "toks_need (t # ts) = (if ts = [] then 1 else weight t + toks_need ts)"

definition ext :: "arena \<Rightarrow> arena \<Rightarrow> bool" where
  "ext env env' \<longleftrightarrow> prefix (fst env) (fst env') \<and> prefix (snd env) (snd env')"

definition fits :: "arena \<Rightarrow> bool" where
  "fits env \<longleftrightarrow> length (fst env) < 2 ^ 32 \<and> length (snd env) < 2 ^ 32"

lemma ext_refl [simp]: "ext env env" by (simp add: ext_def)

lemma ext_trans: "ext a b \<Longrightarrow> ext b c \<Longrightarrow> ext a c"
  by (auto simp: ext_def intro: prefix_order.trans)

lemma fits_ext: "fits env' \<Longrightarrow> ext env env' \<Longrightarrow> fits env"
  by (auto simp: fits_def ext_def dest!: prefix_length_le)

lemma slice_ext: "prefix xs ys \<Longrightarrow> unat j \<le> length xs \<Longrightarrow> slice ys i j = slice xs i j"
  by (auto simp: prefix_def slice_def)

lemma slice_whole:
  assumes "length (xs @ ys) < 2 ^ 32" "prefix (xs @ ys) zs"
  shows "slice zs (of_nat (length xs)) (of_nat (length (xs @ ys))) = ys"
proof -
  have "length xs < 2 ^ LENGTH(32)" "length (xs @ ys) < 2 ^ LENGTH(32)" using assms(1) by simp_all
  then have "unat (of_nat (length xs) :: u32) = length xs" "unat (of_nat (length (xs @ ys)) :: u32) = length (xs @ ys)"
    by (simp_all only: unat_of_nat mod_less)
  then show ?thesis using assms(2) by (auto simp: slice_def prefix_def)
qed

definition span_of :: "arena \<Rightarrow> group_span \<Rightarrow> string" where
  "span_of env span = slice (fst env) (span_start span) (span_end span)"

lemma span_of_ext: "spans_ok env \<Longrightarrow> ext env env' \<Longrightarrow> span \<in> set (snd env) \<Longrightarrow> span_of env' span = span_of env span"
  by (auto simp: span_of_def spans_ok_def ext_def intro: slice_ext)

lemma push_option_ok:
  assumes "spans_ok env" "fits (push_option env opt)"
  shows "spans_ok (push_option env opt)" "ext env (push_option env opt)"
    "\<exists>span. snd (push_option env opt) = snd env @ [span] \<and> span_of (push_option env opt) span = opt"
proof -
  let ?b = "fst env @ opt"
  have small: "length ?b < 2 ^ 32" using assms(2) by (simp add: fits_def push_option_def Let_def)
  then have u: "unat (of_nat (length (fst env)) :: u32) = length (fst env)" "unat (of_nat (length ?b) :: u32) = length ?b"
    by (simp_all only: unat_of_nat) (simp_all add: mod_less)
  show "ext env (push_option env opt)" by (simp add: ext_def push_option_def Let_def)
  show "spans_ok (push_option env opt)"
    using assms(1) u by (auto simp: spans_ok_def push_option_def Let_def word_le_nat_alt)
  show "\<exists>span. snd (push_option env opt) = snd env @ [span] \<and> span_of (push_option env opt) span = opt"
    using slice_whole [OF small] by (simp add: push_option_def Let_def span_of_def)
qed

lemma push_options_ext: "ext env (foldl push_option env opts)"
proof (induction opts arbitrary: env)
  case (Cons opt opts)
  have "ext env (push_option env opt)" by (simp add: ext_def push_option_def Let_def)
  then show ?case using Cons [of "push_option env opt"] by (simp add: ext_trans)
qed simp

lemma push_options_ok:
  assumes "spans_ok env" "fits (foldl push_option env opts)"
  shows "spans_ok (foldl push_option env opts) \<and>
    (\<exists>spans. snd (foldl push_option env opts) = snd env @ spans \<and> map (span_of (foldl push_option env opts)) spans = opts)"
  using assms
proof (induction opts arbitrary: env)
  case (Cons opt opts)
  define env1 where "env1 = push_option env opt"
  define env2 where "env2 = foldl push_option env1 opts"
  have ext: "ext env1 env2" unfolding env2_def by (rule push_options_ext)
  then have "fits env1" using fits_ext Cons(3) by (simp add: env2_def env1_def)
  note p = push_option_ok [OF Cons(2) this [unfolded env1_def], folded env1_def]
  obtain span where span: "snd env1 = snd env @ [span]" "span_of env1 span = opt" using p(3) by blast
  obtain spans where spans: "spans_ok env2" "snd env2 = snd env1 @ spans" "map (span_of env2) spans = opts"
    using Cons(1) [OF p(1)] Cons(3) by (auto simp: env2_def env1_def)
  have "span_of env2 span = opt" using span_of_ext [OF p(1) ext] span by simp
  then have "snd env2 = snd env @ (span # spans) \<and> map (span_of env2) (span # spans) = opt # opts"
    using span(1) spans(2,3) by simp
  then show ?case using spans(1) by (auto simp: env2_def env1_def)
qed simp

lemma lower_token_ext: "lower_token tok env = (nt, env') \<Longrightarrow> ext env env'"
  using push_options_ext by (cases tok; cases env) (auto simp: Let_def ext_def)

lemma lower_token_ok:
  assumes "lower_token tok env = (nt, env')" "fits env'" "spans_ok env"
  shows "spans_ok env' \<and> (\<forall>env''. ext env' env'' \<longrightarrow> tok_of env'' nt = tok)"
proof (cases tok)
  case (Literal lit)
  obtain bytes spans where env: "env = (bytes, spans)" by (cases env)
  have r: "nt = NLiteral (of_nat (length bytes)) (of_nat (length (bytes @ lit)))" "env' = (bytes @ lit, spans)"
    using assms(1) Literal env by (simp_all add: Let_def)
  have "length (bytes @ lit) < 2 ^ 32" using assms(2) r(2) by (simp add: fits_def)
  then have "tok_of env'' nt = tok" if "ext env' env''" for env''
    using slice_whole [of bytes lit "fst env''"] that r Literal by (simp add: ext_def)
  moreover have "spans_ok env'" using assms(3) r(2) env by (auto simp: spans_ok_def)
  ultimately show ?thesis by blast
next
  case (Group opts)
  have r: "nt = NGroup (of_nat (length (snd env))) (of_nat (length (snd env')))" "env' = foldl push_option env opts"
    using assms(1) Group by (auto simp: Let_def)
  obtain spans where ok: "spans_ok env'" and spans: "snd env' = snd env @ spans" "map (span_of env') spans = opts"
    using push_options_ok [OF assms(3)] assms(2) r(2) by blast
  have "tok_of env'' nt = tok" if e: "ext env' env''" for env''
  proof -
    have "slice (snd env'') (of_nat (length (snd env))) (of_nat (length (snd env'))) = spans"
      using slice_whole [of "snd env" spans "snd env''"] spans(1) assms(2) e by (simp add: fits_def ext_def)
    moreover have "map (span_of env'') spans = map (span_of env') spans"
      using span_of_ext [OF ok e] spans(1) by simp
    moreover have "tok_of env'' nt = Group (map (span_of env'') (slice (snd env'') (of_nat (length (snd env))) (of_nat (length (snd env')))))"
      by (simp add: r(1) span_of_def [abs_def])
    ultimately show ?thesis using spans(2) Group by (simp only:)
  qed
  then show ?thesis using ok by blast
qed (use assms in auto)


function temps_stable :: "arena \<Rightarrow> temp list \<Rightarrow> bool" where
  "temps_stable env [] \<longleftrightarrow> True"
| "temps_stable env (Temp nt tm children # temps) \<longleftrightarrow>
     (\<forall>env'. ext env env' \<longrightarrow> tok_of env' nt = tok_of env nt) \<and> temps_stable env children \<and> temps_stable env temps"
  by pat_completeness auto
termination
  by (relation "measure (\<lambda>(env, ts). size_list size ts)") auto

lemma temps_stable_ext:
  "temps_stable env temps \<Longrightarrow> ext env env' \<Longrightarrow>
     temps_stable env' temps \<and> temps_match env' temps = temps_match env temps \<and> need env' temps = need env temps"
proof (induction env temps rule: temps_stable.induct)
  case (2 env nt tm children temps)
  have st: "\<And>env'. ext env env' \<Longrightarrow> tok_of env' nt = tok_of env nt" using 2(3) unfolding temps_stable.simps by blast
  note tok = st [OF 2(4)]
  have "tok_of env'' nt = tok_of env' nt" if "ext env' env''" for env''
    using st [OF ext_trans [OF 2(4) that]] tok by simp
  then have "\<forall>env''. ext env' env'' \<longrightarrow> tok_of env'' nt = tok_of env' nt" by blast
  moreover have "temps_stable env children" "temps_stable env temps" using 2(3) unfolding temps_stable.simps by blast+
  note IH = 2(1) [OF this(1) 2(4)] 2(2) [OF this(2) 2(4)]
  moreover have "temps_match env' (Temp nt tm children # temps) = temps_match env (Temp nt tm children # temps)"
    using IH tok by (simp add: fun_eq_iff [of "temps_match _ (_ # _)"])
  ultimately show ?case using tok by (simp only: temps_stable.simps need.simps simp_thms)
qed (simp add: fun_eq_iff)

lemma temps_append:
  "temps_match env (as @ bs) s \<longleftrightarrow> temps_match env as s \<or> temps_match env bs s"
  "need env (as @ bs) = max (need env as) (need env bs)"
  "temps_stable env (as @ bs) \<longleftrightarrow> temps_stable env as \<and> temps_stable env bs"
proof (induction as)
  case Nil
  {
    case 2
    show ?case using need_pos [of env bs] by simp
  }
next
  case (Cons a as)
  {
    case 1
    show ?case using Cons by (cases a) auto
  next
    case 2
    show ?case using Cons by (cases a) auto
  next
    case 3
    show ?case using Cons by (cases a) auto
  }
qed simp_all

lemma tok_accepts_or:
  "tok_accepts t (a \<or> b) (\<lambda>r. A r \<or> B r) s \<longleftrightarrow> tok_accepts t a A s \<or> tok_accepts t b B s"
  by (auto simp: tok_accepts_def)

lemma toks_need_pos: "1 \<le> toks_need toks"
  by (induction toks) auto

lemma insert_tokens_ext: "insert_tokens toks level env = (level', env') \<Longrightarrow> ext env env'"
proof (induction toks level env arbitrary: level' env' rule: insert_tokens.induct)
  case (2 tok toks level env)
  obtain nt env1 where low: "lower_token tok env = (nt, env1)" by (cases "lower_token tok env")
  have "ext env1 env'"
  proof (cases "position (\<lambda>n. temp_token n = nt) level")
    case None
    obtain ch env2 where ins: "insert_tokens toks [] env1 = (ch, env2)" by (cases "insert_tokens toks [] env1")
    then have "env' = env2" using 2(3) low None by (simp only: insert_tokens.simps Let_def split option.case prod.inject)
    then show ?thesis using 2(1) [OF refl refl low [symmetric] None ins] by simp
  next
    case (Some pos)
    let ?ch = "temp_children (level ! pos)"
    obtain ch env2 where ins: "insert_tokens toks ?ch env1 = (ch, env2)" by (cases "insert_tokens toks ?ch env1")
    then have "env' = env2" using 2(3) low Some by (simp only: insert_tokens.simps Let_def split option.case prod.inject)
    then show ?thesis using 2(2) [OF refl refl low [symmetric] Some refl ins] by simp
  qed
  then show ?case using lower_token_ext [OF low] by (rule ext_trans [rotated])
qed simp

lemma insert_tokens_ok:
  assumes "insert_tokens toks level env = (level', env')" "fits env'" "spans_ok env" "temps_stable env level"
  shows "ext env env' \<and> spans_ok env' \<and> temps_stable env' level' \<and>
    (\<forall>s. temps_match env' level' s \<longleftrightarrow> temps_match env level s \<or> glob_accepts toks s) \<and>
    need env' level' \<le> max (need env level) (toks_need toks)"
  using assms
proof (induction toks level env arbitrary: level' env' rule: insert_tokens.induct)
  case (2 tok toks level env)
  obtain nt env1 where low: "lower_token tok env = (nt, env1)" by (cases "lower_token tok env")
  have e1: "ext env env1" by (rule lower_token_ext [OF low])
  define last where "last = (toks = [])"
  have acc: "glob_accepts (tok # toks) s \<longleftrightarrow> tok_accepts tok last (\<lambda>r. glob_accepts toks r) s" for s
    by (simp add: last_def)
  show ?case
  proof (cases "position (\<lambda>n. temp_token n = nt) level")
    case None
    obtain ch env2 where ins: "insert_tokens toks [] env1 = (ch, env2)" by (cases "insert_tokens toks [] env1")
    have r: "level' = level @ [Temp nt last ch]" "env' = env2"
      using 2(3) low ins None by (simp_all only: insert_tokens.simps Let_def split option.case last_def prod.inject)
    have e2: "ext env1 env'" using insert_tokens_ext [OF ins] r by simp
    note low_ok = lower_token_ok [OF low fits_ext [OF 2(4) e2] 2(5)]
    have tok: "\<And>env''. ext env' env'' \<Longrightarrow> tok_of env'' nt = tok" using low_ok ext_trans [OF e2] by blast
    have IH: "spans_ok env'" "temps_stable env' ch" "\<And>s. temps_match env' ch s \<longleftrightarrow> glob_accepts toks s" "need env' ch \<le> toks_need toks"
      using 2(1) [OF refl refl low [symmetric] None ins] 2(4) low_ok r need_pos [of env1 ch] need_pos [of _ ch] toks_need_pos [of toks] by auto
    have chf: "temps_match env' ch = glob_accepts toks" using IH(3) by (simp add: fun_eq_iff)
    have own: "tok_of env' nt = tok" by (rule tok) simp
    have st: "temps_stable env' [Temp nt last ch]"
      unfolding temps_stable.simps own using IH(2) tok by blast
    have nd: "need env' [Temp nt last ch] \<le> toks_need (tok # toks)"
      using IH(4) need_pos [of env' ch] own ins by (auto simp: last_def)
    have mt: "temps_match env' [Temp nt last ch] s \<longleftrightarrow> glob_accepts (tok # toks) s" for s
      by (simp add: own chf last_def)
    have lv: "temps_stable env' level" "temps_match env' level = temps_match env level" "need env' level = need env level"
      using temps_stable_ext [OF 2(6) ext_trans [OF e1 e2]] by blast+
    show ?thesis unfolding r(1) temps_append lv mt
      using st max.mono [OF order_refl nd] lv(1) IH(1) ext_trans [OF e1 e2] by blast
  next
    case (Some pos)
    obtain pre n post where lvl: "level = pre @ n # post" "length pre = pos" "temp_token n = nt"
      using that [of "take pos level" "level ! pos" "drop (Suc pos) level"] position_Some_decomp [OF Some] position_SomeD [OF Some] by simp
    obtain tm ch0 where n: "n = Temp nt tm ch0" using lvl(3) by (cases n) auto
    have nth: "level ! pos = n" using lvl by auto
    obtain ch env2 where ins: "insert_tokens toks ch0 env1 = (ch, env2)" by (cases "insert_tokens toks ch0 env1")
    have r: "level' = pre @ Temp nt (tm \<or> last) ch # post" "env' = env2"
    proof -
      have "insert_tokens (tok # toks) level env = (level[pos := Temp nt (tm \<or> last) ch], env2)"
        using low ins Some by (simp only: insert_tokens.simps Let_def split option.case nth n temp.sel last_def)
      then show "level' = pre @ Temp nt (tm \<or> last) ch # post" "env' = env2"
        using 2(3) lvl(1,2) by auto
    qed
    have e2: "ext env1 env'" using insert_tokens_ext [OF ins] r by simp
    note low_ok = lower_token_ok [OF low fits_ext [OF 2(4) e2] 2(5)]
    have own: "tok_of env' nt = tok" using low_ok e2 by blast
    have st0: "temps_stable env pre" "temps_stable env [n]" "temps_stable env post"
      using 2(6) temps_append(3) [of env pre "n # post"] temps_append(3) [of env "[n]" post] unfolding lvl(1) by auto
    have ch0: "temps_stable env ch0" using st0(2) unfolding n temps_stable.simps by blast
    note ch1 = temps_stable_ext [OF ch0 e1]
    have IH: "spans_ok env'" "temps_stable env' ch" "\<And>s. temps_match env' ch s \<longleftrightarrow> temps_match env ch0 s \<or> glob_accepts toks s"
      "need env' ch \<le> max (need env ch0) (toks_need toks)"
      using 2(2) [OF refl refl low [symmetric] Some refl, of ch env'] ins nth n 2(4) low_ok r(2) ch1 by auto
    have e: "ext env env'" by (rule ext_trans [OF e1 e2])
    have node: "temps_stable env' [n]" "temps_match env' [n] = temps_match env [n]" "need env' [n] = need env [n]"
      using temps_stable_ext [OF st0(2) e] by blast+
    have pre: "temps_stable env' pre" "temps_match env' pre = temps_match env pre" "need env' pre = need env pre"
      using temps_stable_ext [OF st0(1) e] by blast+
    have post: "temps_stable env' post" "temps_match env' post = temps_match env post" "need env' post = need env post"
      using temps_stable_ext [OF st0(3) e] by blast+
    have tok0: "tok_of env nt = tok"
      using st0(2) own e unfolding n temps_stable.simps by metis
    have st: "temps_stable env' [Temp nt (tm \<or> last) ch]"
      using node(1) IH(2) unfolding n temps_stable.simps by blast
    have chf: "temps_match env' ch = (\<lambda>r. temps_match env ch0 r \<or> glob_accepts toks r)" using IH(3) by (simp add: fun_eq_iff)
    have mt: "temps_match env' [Temp nt (tm \<or> last) ch] s \<longleftrightarrow> temps_match env [n] s \<or> glob_accepts (tok # toks) s" for s
      by (simp add: n own tok0 chf tok_accepts_or last_def)
    have nd: "need env' [Temp nt (tm \<or> last) ch] \<le> max (need env [n]) (toks_need (tok # toks))"
    proof (cases "toks = []")
      case True
      then have "ch = ch0" using ins by simp
      then show ?thesis using IH(4) need_pos [of env ch0] True by (auto simp: n own tok0)
    next
      case False
      then show ?thesis using IH(4) need_pos [of env' ch] toks_need_pos [of toks] by (auto simp: n own tok0)
    qed
    have lv: "level = pre @ [n] @ post" "level' = pre @ [Temp nt (tm \<or> last) ch] @ post" using lvl(1) r(1) by simp_all
    show ?thesis unfolding lv temps_append mt pre(2,3) post(2,3)
      using st pre(1) post(1) IH(1) e nd by auto
  qed
qed simp


lemma build_trie_ext: "build_trie pats level env = (level', env') \<Longrightarrow> ext env env'"
proof (induction pats arbitrary: level env)
  case (Cons pat pats)
  obtain l e where i: "insert_tokens (gp_tokens pat) level env = (l, e)" by (cases "insert_tokens (gp_tokens pat) level env")
  have "build_trie pats l e = (level', env')" using Cons(2) i by simp
  from Cons(1) [OF this] show ?case by (rule ext_trans [OF insert_tokens_ext [OF i]])
qed simp

lemma build_trie_ok:
  assumes "build_trie pats level env = (level', env')" "fits env'" "spans_ok env" "temps_stable env level"
  shows "spans_ok env' \<and> (\<forall>s. temps_match env' level' s \<longleftrightarrow> temps_match env level s \<or> (\<exists>p\<in>set pats. glob_accepts (gp_tokens p) s)) \<and>
    (\<forall>d. need env level \<le> d \<longrightarrow> (\<forall>p\<in>set pats. toks_need (gp_tokens p) \<le> d) \<longrightarrow> need env' level' \<le> d)"
  using assms
proof (induction pats arbitrary: level env)
  case (Cons pat pats)
  obtain l e where i: "insert_tokens (gp_tokens pat) level env = (l, e)" by (cases "insert_tokens (gp_tokens pat) level env")
  have b: "build_trie pats l e = (level', env')" using Cons(2) i by simp
  have "fits e" by (rule fits_ext [OF Cons(3) build_trie_ext [OF b]])
  note ok = insert_tokens_ok [OF i this Cons(4,5)]
  have "spans_ok e" "temps_stable e l" using ok by blast+
  note IH = Cons(1) [OF b Cons(3) this]
  have "temps_match env' level' s \<longleftrightarrow> temps_match env level s \<or> (\<exists>p\<in>set (pat # pats). glob_accepts (gp_tokens p) s)" for s
    using ok IH by auto
  moreover have "need env' level' \<le> d" if "need env level \<le> d" "\<forall>p\<in>set (pat # pats). toks_need (gp_tokens p) \<le> d" for d
  proof -
    have "need e l \<le> max (need env level) (toks_need (gp_tokens pat))" using ok by blast
    also have "\<dots> \<le> d" using that by simp
    finally have "need e l \<le> d" .
    then show ?thesis using IH that by simp
  qed
  ultimately show ?case using IH by blast
qed auto

section \<open>Accepting is membership in the language\<close>

lemma first_slash:
  "CHR ''/'' \<notin> set pre \<Longrightarrow>
     (\<exists>w. pre @ CHR ''/'' # rest = w @ CHR ''/'' # r) \<longleftrightarrow> r = rest \<or> (\<exists>w. rest = w @ CHR ''/'' # r)"
proof (induction pre)
  case Nil
  show ?case
  proof
    assume "\<exists>w. [] @ CHR ''/'' # rest = w @ CHR ''/'' # r"
    then obtain w where "CHR ''/'' # rest = w @ CHR ''/'' # r" by auto
    then show "r = rest \<or> (\<exists>w. rest = w @ CHR ''/'' # r)" by (cases w) auto
  next
    assume "r = rest \<or> (\<exists>w. rest = w @ CHR ''/'' # r)"
    then show "\<exists>w. [] @ CHR ''/'' # rest = w @ CHR ''/'' # r"
    proof
      assume "r = rest"
      then show ?thesis by (intro exI [of _ "[]"]) simp
    next
      assume "\<exists>w. rest = w @ CHR ''/'' # r"
      then obtain w where "rest = w @ CHR ''/'' # r" by blast
      then show ?thesis by (intro exI [of _ "CHR ''/'' # w"]) simp
    qed
  qed
next
  case (Cons a pre)
  have "(\<exists>w. (a # pre) @ CHR ''/'' # rest = w @ CHR ''/'' # r) \<longleftrightarrow> (\<exists>w. pre @ CHR ''/'' # rest = w @ CHR ''/'' # r)"
  proof
    assume "\<exists>w. (a # pre) @ CHR ''/'' # rest = w @ CHR ''/'' # r"
    then obtain w where "a # pre @ CHR ''/'' # rest = w @ CHR ''/'' # r" by auto
    then show "\<exists>w. pre @ CHR ''/'' # rest = w @ CHR ''/'' # r" using Cons(2) by (cases w) auto
  next
    assume "\<exists>w. pre @ CHR ''/'' # rest = w @ CHR ''/'' # r"
    then obtain w where "pre @ CHR ''/'' # rest = w @ CHR ''/'' # r" by blast
    then show "\<exists>w. (a # pre) @ CHR ''/'' # rest = w @ CHR ''/'' # r" by (intro exI [of _ "a # w"]) simp
  qed
  then show ?case using Cons by simp
qed

lemma after_slashes_iff: "r \<in> set (after_slashes s) \<longleftrightarrow> (\<exists>w. s = w @ CHR ''/'' # r)"
proof (induction s rule: after_slashes.induct)
  case (1 s)
  show ?case
  proof (cases "position (\<lambda>b. b = CHR ''/'') s")
    case None
    then have "CHR ''/'' \<notin> set s" by auto
    then have "\<not> (\<exists>w. s = w @ CHR ''/'' # r)" by auto
    then show ?thesis by (simp add: after_slashes_None [OF None])
  next
    case (Some pos)
    have slash: "s ! pos = CHR ''/''" using position_SomeD [OF Some] by blast
    have d1: "s = take pos s @ CHR ''/'' # drop (pos + 1) s"
      using position_Some_decomp [OF Some] unfolding slash Suc_eq_plus1 .
    have d2: "CHR ''/'' \<notin> set (take pos s)" using position_Some_take [OF Some] by blast
    have "(\<exists>w. s = w @ CHR ''/'' # r) \<longleftrightarrow> r = drop (pos + 1) s \<or> (\<exists>w. drop (pos + 1) s = w @ CHR ''/'' # r)"
      by (subst (1) d1) (rule first_slash [OF d2])
    then show ?thesis using 1 [OF Some] after_slashes_Some [OF Some] by simp
  qed
qed

declare backtrack_loop.simps [code]

lemma residuals_iff: "r \<in> set (residuals t s) \<longleftrightarrow> (\<exists>w\<in>tok_lang t. s = w @ r)"
proof -
  have deep: "r \<in> set (s # after_slashes s) \<longleftrightarrow> (\<exists>w. (w = [] \<or> last w = CHR ''/'') \<and> s = w @ r)"
  proof
    assume "r \<in> set (s # after_slashes s)"
    then consider "r = s" | w where "s = w @ CHR ''/'' # r" by (auto simp: after_slashes_iff)
    then show "\<exists>w. (w = [] \<or> last w = CHR ''/'') \<and> s = w @ r"
    proof cases
      case 1
      then show ?thesis by (intro exI [of _ "[]"]) simp
    next
      case 2
      then show ?thesis by (intro exI [of _ "w @ ''/''"]) simp
    qed
  next
    assume "\<exists>w. (w = [] \<or> last w = CHR ''/'') \<and> s = w @ r"
    then obtain w where w: "w = [] \<or> last w = CHR ''/''" "s = w @ r" by blast
    then show "r \<in> set (s # after_slashes s)"
      by (cases w rule: rev_cases) (auto simp: after_slashes_iff)
  qed
  have wild: "r \<in> set (residuals Wildcard s) \<longleftrightarrow> (\<exists>w. CHR ''/'' \<notin> set w \<and> s = w @ r)"
  proof
    assume "r \<in> set (residuals Wildcard s)"
    then obtain n where n: "n \<le> length (takeWhile (\<lambda>c. c \<noteq> CHR ''/'') s)" "r = drop n s" by (auto simp: less_Suc_eq_le simp del: upt_Suc)
    have "take n (takeWhile (\<lambda>c. c \<noteq> CHR ''/'') s @ dropWhile (\<lambda>c. c \<noteq> CHR ''/'') s) = take n (takeWhile (\<lambda>c. c \<noteq> CHR ''/'') s)"
      using n(1) by (simp del: takeWhile_dropWhile_id)
    then have "take n s = take n (takeWhile (\<lambda>c. c \<noteq> CHR ''/'') s)" by (simp only: takeWhile_dropWhile_id)
    then have "CHR ''/'' \<notin> set (take n s)" by (auto dest!: in_set_takeD set_takeWhileD)
    then show "\<exists>w. CHR ''/'' \<notin> set w \<and> s = w @ r" using n(2) by (intro exI [of _ "take n s"]) simp
  next
    assume "\<exists>w. CHR ''/'' \<notin> set w \<and> s = w @ r"
    then obtain w where w: "CHR ''/'' \<notin> set w" "s = w @ r" by blast
    have "takeWhile (\<lambda>c. c \<noteq> CHR ''/'') s = w @ takeWhile (\<lambda>c. c \<noteq> CHR ''/'') r"
      unfolding w(2) by (rule takeWhile_append2) (use w(1) in auto)
    then have "length w < Suc (length (takeWhile (\<lambda>c. c \<noteq> CHR ''/'') s))" by simp
    moreover have "r = drop (length w) s" using w(2) by simp
    ultimately show "r \<in> set (residuals Wildcard s)" by (simp del: upt_Suc)
  qed
  have one: "(\<exists>w\<in>{[c] | c. P c}. s = w @ r) \<longleftrightarrow> (\<exists>c. P c \<and> s = c # r)" for P by auto
  have pf: "prefix w s \<and> r = drop (length w) s \<longleftrightarrow> s = w @ r" for w by (auto simp: prefix_def)
  show ?thesis
  proof (cases t)
    case (Literal l)
    show ?thesis unfolding Literal residuals.simps tok_lang.simps bex_simps pf [symmetric] by auto
  next
    case AnyChar
    show ?thesis unfolding AnyChar residuals.simps tok_lang.simps one by (cases s) auto
  next
    case (CharClass bm ng)
    show ?thesis unfolding CharClass residuals.simps tok_lang.simps one by (cases s) auto
  next
    case (Group opts)
    show ?thesis unfolding Group residuals.simps tok_lang.simps pf [symmetric] by auto
  next
    case Wildcard
    show ?thesis unfolding Wildcard tok_lang.simps using wild by blast
  next
    case DeepWildcard
    show ?thesis unfolding DeepWildcard tok_lang.simps residuals.simps using deep by blast
  next
    case DeepWildcardDir
    show ?thesis unfolding DeepWildcardDir tok_lang.simps residuals.simps using deep by blast
  qed
qed

lemma tok_lang_Nil: "tok_wf t \<Longrightarrow> [] \<in> tok_lang t \<longleftrightarrow> t = Wildcard \<or> is_deep t"
  by (cases t) auto

lemma glob_lang_Nil: "toks_wf (t # ts) \<Longrightarrow> t \<noteq> Wildcard \<Longrightarrow> \<not> is_deep t \<Longrightarrow> [] \<notin> glob_lang (t # ts)"
  using tok_lang_Nil [of t] by auto

lemma glob_lang_Cons_Nil:
  assumes "toks_wf (t # ts)"
  shows "[] \<in> glob_lang (t # ts) \<longleftrightarrow> is_deep t \<or> ts = [] \<and> t = Wildcard"
proof (cases "t = Wildcard")
  case True
  show ?thesis
  proof (cases ts)
    case (Cons t2 ts2)
    then have "toks_wf (t2 # ts2)" "t2 \<noteq> Wildcard" "\<not> is_deep t2" using assms True by auto
    then have "[] \<notin> glob_lang ts" unfolding Cons by (rule glob_lang_Nil)
    then show ?thesis using True Cons by simp
  qed (simp add: True)
next
  case False
  show ?thesis
  proof (cases "is_deep t")
    case True
    then show ?thesis by simp
  next
    case nodeep: False
    then show ?thesis using glob_lang_Nil [OF assms False nodeep] False by blast
  qed
qed

lemma glob_lang_Cons:
  "s \<noteq> [] \<Longrightarrow> s \<in> glob_lang (t # ts) \<longleftrightarrow> is_deep t \<and> ts = [] \<or> s \<in> {w @ r | w r. w \<in> tok_lang t \<and> r \<in> glob_lang ts}"
  by (cases "is_deep t"; cases "ts = []")
    (simp_all only: glob_lang.simps simp_thms if_True if_False UNIV_I Un_iff insert_iff empty_iff)

lemma residuals_lang: "(\<exists>r\<in>set (residuals t s). r \<in> B) \<longleftrightarrow> s \<in> {w @ r | w r. w \<in> tok_lang t \<and> r \<in> B}"
proof -
  have "(\<exists>r\<in>set (residuals t s). r \<in> B) \<longleftrightarrow> (\<exists>r. (\<exists>w\<in>tok_lang t. s = w @ r) \<and> r \<in> B)"
    by (simp only: Bex_def [of "set _"] residuals_iff)
  then show ?thesis by blast
qed

lemma tok_wf_Group: "tok_wf t \<Longrightarrow> \<not> (\<exists>opts. t = Group opts \<and> [] \<in> set opts)"
  by (cases t) auto

lemma glob_accepts_lang: "toks_wf ts \<Longrightarrow> ts \<noteq> [] \<Longrightarrow> glob_accepts ts s \<longleftrightarrow> s \<in> glob_lang ts"
proof (induction ts arbitrary: s)
  case (Cons t ts)
  have k: "(r = [] \<and> ts = [] \<or> glob_accepts ts r) \<longleftrightarrow> r \<in> glob_lang ts" for r
  proof (cases "ts = []")
    case False
    then show ?thesis using Cons(1) [of r] Cons(2) by simp
  qed simp
  have wf: "tok_wf t" using Cons(2) by simp
  show ?case
  proof (cases "s = []")
    case True
    show ?thesis unfolding True glob_lang_Cons_Nil [OF Cons(2)] glob_accepts.simps tok_accepts_def if_P [OF refl]
      using tok_wf_Group [OF wf] by blast
  next
    case False
    show ?thesis unfolding glob_lang_Cons [OF False] residuals_lang [symmetric]
      by (simp only: glob_accepts.simps tok_accepts_def False if_False k)
  qed
qed simp

section \<open>Compiled sets\<close>

definition pms_small :: "path_matcher_set \<Rightarrow> bool" where
  "pms_small m \<longleftrightarrow> length (pms_nodes m) < 2 ^ 32 \<and> length (pms_arena m) < 2 ^ 32 \<and> length (pms_group_spans m) < 2 ^ 32"

definition pattern_lang :: "string \<Rightarrow> string set" where
  "pattern_lang p = (case tokenize p of Inl _ \<Rightarrow> {} | Inr ts \<Rightarrow> glob_lang ts)"

definition pattern_frames :: "string \<Rightarrow> nat" where
  "pattern_frames p = (case tokenize p of Inl _ \<Rightarrow> 0 | Inr ts \<Rightarrow> toks_need ts)"

lemma compile_all_tokens: "compile_all ps = Inr gs \<Longrightarrow> map tokenize ps = map (\<lambda>g. Inr (gp_tokens g)) gs"
  by (induction ps arbitrary: gs) (auto simp: glob_compile_def map_sum_Inr_iff split: sum.splits)

lemma general_decides:
  assumes gs: "\<not> list_all (\<lambda>p. length (gp_tokens p) = 1 \<and> is_literal (gp_tokens p ! 0)) gs"
    and small: "pms_small (from_patterns gs)" and path: "length path < 2 ^ 32 - 2"
  shows "pms_matches (from_patterns gs) path = Some (\<exists>g\<in>set gs. glob_accepts (gp_tokens g) path) \<or>
    pms_matches (from_patterns gs) path = Some False \<and> (\<exists>g\<in>set gs. MAX_STACK_DEPTH < toks_need (gp_tokens g))"
proof -
  obtain temps bytes spans where b: "build_trie gs [] ([], []) = (temps, (bytes, spans))"
    by (cases "build_trie gs [] ([], [])") auto
  obtain root nodes where f: "flatten temps [] = (root, nodes)" by (cases "flatten temps []")
  have "gs \<noteq> []" using gs by auto
  define m where "m = from_patterns gs"
  have m: "m = \<lparr>pms_nodes = nodes, pms_root = root, pms_arena = bytes, pms_group_spans = spans, pms_fast = Some General\<rparr>"
    using gs \<open>gs \<noteq> []\<close> b f by (simp add: m_def from_patterns_def)
  have fits: "fits (bytes, spans)" and nl: "length nodes < 2 ^ 32" using small m by (simp_all add: m_def [symmetric] pms_small_def fits_def)
  have trie: "spans_ok (bytes, spans)" "\<And>s. temps_match (bytes, spans) temps s \<longleftrightarrow> (\<exists>g\<in>set gs. glob_accepts (gp_tokens g) s)"
    "\<And>d. 1 \<le> d \<Longrightarrow> \<forall>g\<in>set gs. toks_need (gp_tokens g) \<le> d \<Longrightarrow> need (bytes, spans) temps \<le> d"
    using build_trie_ok [OF b fits] by (auto simp: spans_ok_def)
  have r: "range_of 0 temps root" "rep 0 nodes (unat (fst root)) temps" using flatten_rep [OF f nl] by auto
  show ?thesis
  proof (cases "nodes = []")
    case True
    then have "temps = []" using r(2) by (cases temps; cases "hd temps") auto
    then have "\<not> (\<exists>g\<in>set gs. glob_accepts (gp_tokens g) path)" using trie(2) [of path] by simp
    then show ?thesis using True m by (simp add: m_def [symmetric] pms_matches_def matches_backtrack_def)
  next
    case False
    define fr where "fr = \<lparr>fr_input = path, fr_child_start = fst root, fr_child_end = snd root, fr_progress = 0\<rparr>"
    have eq: "pms_matches m path = backtrack_loop m [fr]"
      using False m by (simp add: pms_matches_def matches_backtrack_def fr_def)
    have env: "pms_env m = (bytes, spans)" by (simp add: m)
    have "decides m (backtrack_loop m [fr]) [] (temps_match (pms_env m) temps (fr_input fr)) (need (pms_env m) temps)"
      by (rule frame_decides) (use trie(1) r path m in \<open>simp_all add: frame_rep_def fr_def\<close>)
    then have d: "pms_matches m path = Some (\<exists>g\<in>set gs. glob_accepts (gp_tokens g) path) \<or>
        pms_matches m path = Some False \<and> MAX_STACK_DEPTH < need (bytes, spans) temps"
      unfolding eq env decides_def trie(2) backtrack_loop_Nil
      by (cases "\<exists>g\<in>set gs. glob_accepts (gp_tokens g) path") (simp_all add: fr_def)
    have "\<exists>g\<in>set gs. MAX_STACK_DEPTH < toks_need (gp_tokens g)" if "MAX_STACK_DEPTH < need (bytes, spans) temps"
    proof (rule ccontr)
      assume "\<not> ?thesis"
      then have "\<forall>g\<in>set gs. toks_need (gp_tokens g) \<le> MAX_STACK_DEPTH" by (simp add: not_less)
      then have "need (bytes, spans) temps \<le> MAX_STACK_DEPTH" by (intro trie(3)) (simp_all add: MAX_STACK_DEPTH_def)
      then show False using that by simp
    qed
    then show ?thesis using d by (auto simp: m_def)
  qed
qed


lemma literal_pattern:
  "length (gp_tokens g) = 1 \<Longrightarrow> is_literal (gp_tokens g ! 0) \<Longrightarrow> gp_tokens g = [Literal (literal_of (gp_tokens g ! 0))]"
  by (cases "gp_tokens g"; cases "hd (gp_tokens g)") auto

lemma from_patterns_literals:
  assumes "list_all (\<lambda>p. length (gp_tokens p) = 1 \<and> is_literal (gp_tokens p ! 0)) gs"
  shows "pms_matches (from_patterns gs) path = Some (\<exists>g\<in>set gs. path \<in> glob_lang (gp_tokens g))"
proof -
  have lang: "path \<in> glob_lang (gp_tokens g) \<longleftrightarrow> path = literal_of (gp_tokens g ! 0)" if "g \<in> set gs" for g
  proof -
    have "gp_tokens g = [Literal (literal_of (gp_tokens g ! 0))]"
      using assms that by (intro literal_pattern) (auto simp: list_all_iff)
    then have "glob_lang (gp_tokens g) = glob_lang [Literal (literal_of (gp_tokens g ! 0))]" by simp
    also have "\<dots> = {literal_of (gp_tokens g ! 0)}" by simp
    finally show ?thesis by simp
  qed
  show ?thesis
  proof (cases gs)
    case Nil
    then show ?thesis by (simp add: from_patterns_def empty_set_def pms_matches_def)
  next
    case (Cons g gs')
    show ?thesis
    proof (cases "gs' = []")
      case True
      then show ?thesis using assms Cons lang by (simp add: from_patterns_def empty_set_def pms_matches_def)
    next
      case False
      have "pms_matches (from_patterns gs) path = Some (path \<in> set (map (\<lambda>p. literal_of (gp_tokens p ! 0)) gs))"
        using assms Cons False by (simp add: from_patterns_def empty_set_def pms_matches_def)
      then show ?thesis using lang by auto
    qed
  qed
qed

lemma pms_matches_lang:
  assumes "pms_compile patterns = Inr m" "[] \<notin> set patterns" "pms_small m" "length path < 2 ^ 32 - 2"
  shows "pms_matches m path = Some (\<exists>p\<in>set patterns. path \<in> pattern_lang p) \<or>
    pms_matches m path = Some False \<and> (\<exists>p\<in>set patterns. MAX_STACK_DEPTH < pattern_frames p)"
proof -
  obtain gs where gs: "compile_all patterns = Inr gs" "m = from_patterns gs"
    using assms(1) by (auto simp: pms_compile_def map_sum_Inr_iff)
  have toks: "map tokenize patterns = map (\<lambda>g. Inr (gp_tokens g)) gs" by (rule compile_all_tokens [OF gs(1)])
  have len: "length patterns = length gs" using arg_cong [OF toks, of length] by simp
  have nth: "tokenize (patterns ! i) = Inr (gp_tokens (gs ! i))" if "i < length gs" for i
    using arg_cong [OF toks, of "\<lambda>l. l ! i"] that len by simp
  have ex: "(\<exists>g\<in>set gs. P (Inr (gp_tokens g))) \<longleftrightarrow> (\<exists>p\<in>set patterns. P (tokenize p))" for P :: "glob_error + tok list \<Rightarrow> bool"
  proof -
    have "(\<exists>g\<in>set gs. P (Inr (gp_tokens g))) \<longleftrightarrow> (\<exists>x\<in>set (map (\<lambda>g. Inr (gp_tokens g)) gs). P x)" by simp
    also have "\<dots> \<longleftrightarrow> (\<exists>x\<in>set (map tokenize patterns). P x)" by (simp only: toks)
    finally show ?thesis by simp
  qed
  have lang: "(\<exists>g\<in>set gs. path \<in> glob_lang (gp_tokens g)) \<longleftrightarrow> (\<exists>p\<in>set patterns. path \<in> pattern_lang p)"
    using ex [of "\<lambda>x. path \<in> (case x of Inl _ \<Rightarrow> {} | Inr ts \<Rightarrow> glob_lang ts)"] by (simp add: pattern_lang_def)
  have frames: "(\<exists>g\<in>set gs. MAX_STACK_DEPTH < toks_need (gp_tokens g)) \<longleftrightarrow> (\<exists>p\<in>set patterns. MAX_STACK_DEPTH < pattern_frames p)"
    using ex [of "\<lambda>x. MAX_STACK_DEPTH < (case x of Inl _ \<Rightarrow> 0 | Inr ts \<Rightarrow> toks_need ts)"] by (simp add: pattern_frames_def)
  have acc: "glob_accepts (gp_tokens g) path \<longleftrightarrow> path \<in> glob_lang (gp_tokens g)" if "g \<in> set gs" for g
  proof -
    obtain i where i: "i < length gs" "g = gs ! i" using \<open>g \<in> set gs\<close> by (auto simp: in_set_conv_nth)
    have "patterns ! i \<in> set patterns" using i(1) len by simp
    then have "patterns ! i \<noteq> []" using assms(2) by metis
    from tokenize_wf [OF nth [OF i(1)] this] show ?thesis using i(2) by (simp add: glob_accepts_lang)
  qed
  show ?thesis
  proof (cases "list_all (\<lambda>p. length (gp_tokens p) = 1 \<and> is_literal (gp_tokens p ! 0)) gs")
    case True
    then show ?thesis using from_patterns_literals [OF True, of path] gs(2) lang by simp
  next
    case False
    have eq: "(\<exists>g\<in>set gs. glob_accepts (gp_tokens g) path) \<longleftrightarrow> (\<exists>p\<in>set patterns. path \<in> pattern_lang p)"
      unfolding lang [symmetric] using acc by blast
    show ?thesis
      using general_decides [OF False assms(3) [unfolded gs(2)] assms(4)] unfolding eq frames gs(2) [symmetric] .
  qed
qed

section \<open>One deep wildcard\<close>

definition after_deep :: "string \<Rightarrow> string" where
  "after_deep post = (if post \<noteq> [] \<and> hd post = CHR ''/'' then tl post else post)"

lemma tokenize_plain:
  assumes "list_all (\<lambda>c. \<not> is_meta c) s"
  shows "tokenize_loop d s = Inr (if s = [] then [] else [Literal s])"
proof (cases s)
  case (Cons c r)
  have "takeWhile (\<lambda>c. \<not> is_meta c) r = r" "dropWhile (\<lambda>c. \<not> is_meta c) r = []"
    using assms Cons by (simp_all add: list_all_iff)
  moreover have "c \<noteq> CHR ''*''" "c \<noteq> CHR ''?''" "c \<noteq> CHR ''{''" "c \<noteq> CHR ''[''"
    using assms by (simp_all add: Cons is_meta_def)
  ultimately show ?thesis unfolding Cons tokenize_loop.simps(2) by (simp only: if_False) simp
qed simp

lemma tokenize_plain_prefix:
  assumes "list_all (\<lambda>c. \<not> is_meta c) pre" "pre \<noteq> []" "rest \<noteq> []" "is_meta (hd rest)"
  shows "tokenize_loop d (pre @ rest) = map_sum id ((#) (Literal pre)) (tokenize_loop d rest)"
proof -
  obtain c r where pre: "pre = c # r" using assms(2) by (cases pre) auto
  have "takeWhile (\<lambda>c. \<not> is_meta c) (r @ rest) = r" "dropWhile (\<lambda>c. \<not> is_meta c) (r @ rest) = rest"
    using assms pre by (cases rest; simp add: list_all_iff)+
  moreover have "c \<noteq> CHR ''*''" "c \<noteq> CHR ''?''" "c \<noteq> CHR ''{''" "c \<noteq> CHR ''[''"
    using assms(1) by (simp_all add: pre is_meta_def)
  ultimately show ?thesis unfolding pre append_Cons tokenize_loop.simps(2) by (simp only: if_False)
qed

lemma tokenize_deep:
  assumes "list_all (\<lambda>c. \<not> is_meta c) post"
  shows "\<exists>t. is_deep t \<and> tokenize_loop 0 (''**'' @ post) = Inr (t # (if after_deep post = [] then [] else [Literal (after_deep post)]))"
proof -
  have "list_all (\<lambda>c. \<not> is_meta c) (after_deep post)" using assms by (cases post) (auto simp: after_deep_def)
  note tail = tokenize_plain [OF this, of 1]
  show ?thesis
  proof (cases "post \<noteq> [] \<and> hd post = CHR ''/''")
    case True
    then have "tokenize_loop 0 (''**'' @ post) = map_sum id ((#) DeepWildcardDir) (tokenize_loop 1 (after_deep post))"
      unfolding append_Cons append_Nil tokenize_loop.simps(2) [of 0 "CHR ''*''"] by (simp add: MAX_DEEP_WILDCARDS_def after_deep_def)
    then show ?thesis using tail by (intro exI [of _ DeepWildcardDir]) simp
  next
    case False
    then have "tokenize_loop 0 (''**'' @ post) = map_sum id ((#) DeepWildcard) (tokenize_loop 1 (after_deep post))"
      unfolding append_Cons append_Nil tokenize_loop.simps(2) [of 0 "CHR ''*''"] after_deep_def if_not_P [OF False]
      by (auto simp: MAX_DEEP_WILDCARDS_def simp del: tokenize_loop.simps)
    then show ?thesis using tail by (intro exI [of _ DeepWildcard]) simp
  qed
qed

lemma tokenize_one_deep:
  assumes "list_all (\<lambda>c. \<not> is_meta c) pre" "list_all (\<lambda>c. \<not> is_meta c) post"
  shows "\<exists>t. is_deep t \<and> tokenize (pre @ ''**'' @ post) =
    Inr ((if pre = [] then [] else [Literal pre]) @ t # (if after_deep post = [] then [] else [Literal (after_deep post)]))"
proof -
  obtain t where t: "is_deep t"
      "tokenize_loop 0 (''**'' @ post) = Inr (t # (if after_deep post = [] then [] else [Literal (after_deep post)]))"
    using tokenize_deep [OF assms(2)] by blast
  have "tokenize_loop 0 (pre @ ''**'' @ post) =
      (if pre = [] then tokenize_loop 0 (''**'' @ post) else map_sum id ((#) (Literal pre)) (tokenize_loop 0 (''**'' @ post)))"
    using tokenize_plain_prefix [OF assms(1), of "''**'' @ post" 0] by (simp add: is_meta_def del: tokenize_loop.simps)
  then show ?thesis using t by (intro exI [of _ t]) (simp add: tokenize_def del: tokenize_loop.simps)
qed

lemma deep_lang:
  assumes "is_deep t" "s \<noteq> []"
  shows "r \<in> glob_lang [t, Literal s] \<longleftrightarrow> r = [] \<or> (\<exists>d. r = d @ s \<and> (d = [] \<or> last d = CHR ''/''))"
  using assms by (cases t) auto

lemma literal_lang: "path \<in> glob_lang (Literal pre # ts) \<longleftrightarrow> (\<exists>r\<in>glob_lang ts. path = pre @ r)"
  by auto

lemma optional_literal_lang:
  "path \<in> glob_lang ((if pre = [] then [] else [Literal pre]) @ ts) \<longleftrightarrow> (\<exists>r\<in>glob_lang ts. path = pre @ r)"
  using literal_lang [of path pre ts] by (cases "pre = []") (simp_all del: glob_lang.simps)

lemma one_deep_lang:
  assumes "list_all (\<lambda>c. \<not> is_meta c) pre" "list_all (\<lambda>c. \<not> is_meta c) post"
  shows "path \<in> pattern_lang (pre @ ''**'' @ post) \<longleftrightarrow>
    (if after_deep post = [] then prefix pre path
     else path = pre \<or> (\<exists>d. path = pre @ d @ after_deep post \<and> (d = [] \<or> last d = CHR ''/'')))"
    and "pattern_frames (pre @ ''**'' @ post) \<le> MAX_STACK_DEPTH"
proof -
  obtain t where t: "is_deep t" "tokenize (pre @ ''**'' @ post) =
    Inr ((if pre = [] then [] else [Literal pre]) @ t # (if after_deep post = [] then [] else [Literal (after_deep post)]))"
    using tokenize_one_deep [OF assms] by blast
  let ?ts = "t # (if after_deep post = [] then [] else [Literal (after_deep post)])"
  have lang: "path \<in> pattern_lang (pre @ ''**'' @ post) \<longleftrightarrow> (\<exists>r\<in>glob_lang ?ts. path = pre @ r)"
    unfolding pattern_lang_def t(2) sum.case by (rule optional_literal_lang)
  show "path \<in> pattern_lang (pre @ ''**'' @ post) \<longleftrightarrow>
    (if after_deep post = [] then prefix pre path
     else path = pre \<or> (\<exists>d. path = pre @ d @ after_deep post \<and> (d = [] \<or> last d = CHR ''/'')))"
  proof (cases "after_deep post = []")
    case True
    then have "glob_lang ?ts = UNIV" using t(1) by simp
    then show ?thesis unfolding lang if_P [OF True] prefix_def by blast
  next
    case False
    have "r \<in> glob_lang ?ts \<longleftrightarrow> r = [] \<or> (\<exists>d. r = d @ after_deep post \<and> (d = [] \<or> last d = CHR ''/''))" for r
      unfolding if_not_P [OF False] by (rule deep_lang [OF t(1) False])
    then show ?thesis unfolding lang if_not_P [OF False] Bex_def by (metis append_Nil2)
  qed
  show "pattern_frames (pre @ ''**'' @ post) \<le> MAX_STACK_DEPTH"
    unfolding pattern_frames_def t(2) using t(1) by (cases t) (auto simp: MAX_STACK_DEPTH_def)
qed

section \<open>Properties\<close>

text \<open>C27. A set compiled from non-empty patterns matches a path exactly when the path is in the language of one
  of them, for patterns whose search fits the 64 frames of the stack.\<close>

theorem path_matcher_correct:
  assumes "pms_compile patterns = Inr m" "[] \<notin> set patterns" "pms_small m" "length path < 2 ^ 32 - 2"
    and "\<forall>p\<in>set patterns. pattern_frames p \<le> MAX_STACK_DEPTH"
  shows "pms_matches m path = Some (\<exists>p\<in>set patterns. path \<in> pattern_lang p)"
  using pms_matches_lang [OF assms(1-4)] assms(5) by auto

theorem path_matcher_correct_witness:
  "\<exists>m. pms_compile [''a/*'', ''**/b''] = Inr m \<and>
     pms_matches m ''a/c'' = Some (\<exists>p\<in>set [''a/*'', ''**/b'']. ''a/c'' \<in> pattern_lang p)"
proof -
  have "case pms_compile [''a/*'', ''**/b''] of Inl _ \<Rightarrow> False | Inr m \<Rightarrow>
      length (pms_nodes m) \<le> 20 \<and> length (pms_arena m) \<le> 20 \<and> length (pms_group_spans m) \<le> 20" by code_simp
  then obtain m where m: "pms_compile [''a/*'', ''**/b''] = Inr m" "pms_small m" by (auto simp: pms_small_def split: sum.splits)
  have ne: "[] \<notin> set [''a/*'', ''**/b'']" and len: "length ''a/c'' < 2 ^ 32 - 2" by simp_all
  have "\<forall>p\<in>set [''a/*'', ''**/b'']. pattern_frames p \<le> MAX_STACK_DEPTH" by code_simp
  from path_matcher_correct [OF m(1) ne m(2) len this]
  have "pms_matches m ''a/c'' = Some (\<exists>p\<in>set [''a/*'', ''**/b'']. ''a/c'' \<in> pattern_lang p)"
    .
  then show ?thesis using m(1) by blast
qed

text \<open>C28. The search ends on every path and, also when its stack overflows, never accepts a path outside the
  languages of the patterns.\<close>

theorem path_matcher_terminates_sound:
  assumes "pms_compile patterns = Inr m" "[] \<notin> set patterns" "pms_small m" "length path < 2 ^ 32 - 2"
  shows "\<exists>b. pms_matches m path = Some b \<and> (b \<longrightarrow> (\<exists>p\<in>set patterns. path \<in> pattern_lang p))"
  using pms_matches_lang [OF assms] by auto

theorem path_matcher_terminates_sound_witness:
  "\<exists>m b. pms_compile [''src/*.rs''] = Inr m \<and> pms_matches m ''src/x.rs'' = Some b \<and>
     (b \<longrightarrow> (\<exists>p\<in>set [''src/*.rs'']. ''src/x.rs'' \<in> pattern_lang p))"
proof -
  have "case pms_compile [''src/*.rs''] of Inl _ \<Rightarrow> False | Inr m \<Rightarrow>
      length (pms_nodes m) \<le> 20 \<and> length (pms_arena m) \<le> 20 \<and> length (pms_group_spans m) \<le> 20" by code_simp
  then obtain m where m: "pms_compile [''src/*.rs''] = Inr m" "pms_small m" by (auto simp: pms_small_def split: sum.splits)
  have ne: "[] \<notin> set [''src/*.rs'']" and len: "length ''src/x.rs'' < 2 ^ 32 - 2" by simp_all
  from path_matcher_terminates_sound [OF m(1) ne m(2) len] show ?thesis using m(1) by blast
qed

text \<open>C29. A pattern with one deep wildcard between two literal parts, the second without the slash that may open it,
  matches a path exactly when the path is the first part alone, or the first part, then nothing or a text that ends in a
  slash, then the second part; with an empty second part it matches every path that starts with the first. So a deep
  wildcard reached at the end of the path accepts it whatever follows in the pattern (\<^verbatim>\<open>/api/**/users\<close> matches
  \<^verbatim>\<open>/api/\<close>), and it only stops after a slash (\<^verbatim>\<open>foo**bar\<close> does not match \<^verbatim>\<open>fooXbar\<close>).\<close>

theorem deep_wildcard_matches:
  assumes "list_all (\<lambda>c. \<not> is_meta c) pre" "list_all (\<lambda>c. \<not> is_meta c) post"
    and "pms_compile [pre @ ''**'' @ post] = Inr m" "pms_small m" "length path < 2 ^ 32 - 2"
  shows "pms_matches m path = Some
    (if after_deep post = [] then prefix pre path
     else path = pre \<or> (\<exists>d. path = pre @ d @ after_deep post \<and> (d = [] \<or> last d = CHR ''/'')))"
proof -
  have "pms_matches m path = Some (path \<in> pattern_lang (pre @ ''**'' @ post))"
  proof -
    have "[] \<notin> set [pre @ ''**'' @ post]" by simp
    from pms_matches_lang [OF assms(3) this assms(4,5)] one_deep_lang(2) [OF assms(1,2)] show ?thesis
      by (simp only: set_simps bex_simps ex_simps simp_thms leD not_less [symmetric])
  qed
  then show ?thesis by (simp only: one_deep_lang(1) [OF assms(1,2)])
qed

theorem deep_wildcard_matches_witness:
  "\<exists>m. pms_compile [''/api/**/users''] = Inr m \<and> pms_matches m ''/api/'' = Some True"
proof -
  have "case pms_compile [''/api/**/users''] of Inl _ \<Rightarrow> False | Inr m \<Rightarrow>
      length (pms_nodes m) \<le> 20 \<and> length (pms_arena m) \<le> 20 \<and> length (pms_group_spans m) \<le> 20" by code_simp
  then obtain m where m: "pms_compile [''/api/**/users''] = Inr m" "pms_small m" by (auto simp: pms_small_def split: sum.splits)
  have lits: "list_all (\<lambda>c. \<not> is_meta c) ''/api/''" "list_all (\<lambda>c. \<not> is_meta c) ''/users''" by code_simp+
  have "pms_compile [''/api/'' @ ''**'' @ ''/users''] = Inr m" using m(1) by simp
  moreover have "length ''/api/'' < 2 ^ 32 - 2" "after_deep ''/users'' \<noteq> []" by (simp_all add: after_deep_def)
  ultimately have "pms_matches m ''/api/'' = Some True"
    using deep_wildcard_matches [OF lits _ m(2), of "''/api/''"] by (simp only: if_False simp_thms)
  with m(1) show ?thesis by blast
qed

end
