(* ===== verification/Http_Method.thy ===== *)
theory Http_Method
  imports Ascii
begin

text \<open>
  HTTP methods and method sets of \<^verbatim>\<open>libs/ophan-net/src/http/method.rs\<close>. A standard method is one bit of a
  16-bit word; a request method (\<^verbatim>\<open>http::Method\<close>) is its token.
\<close>

type_synonym http_method = u16

definition NONE :: http_method where "NONE = 0"
definition GET :: http_method where "GET = push_bit 0 1"
definition POST :: http_method where "POST = push_bit 1 1"
definition PUT :: http_method where "PUT = push_bit 2 1"
definition DELETE :: http_method where "DELETE = push_bit 3 1"
definition PATCH :: http_method where "PATCH = push_bit 4 1"
definition HEAD :: http_method where "HEAD = push_bit 5 1"
definition OPTIONS :: http_method where "OPTIONS = push_bit 6 1"
definition TRACE :: http_method where "TRACE = push_bit 7 1"
definition CONNECT :: http_method where "CONNECT = push_bit 8 1"

lemmas http_method_defs = NONE_def GET_def POST_def PUT_def DELETE_def PATCH_def HEAD_def OPTIONS_def TRACE_def CONNECT_def

definition ALL_METHODS :: http_method where
  "ALL_METHODS = GET OR POST OR PUT OR DELETE OR PATCH OR HEAD OR OPTIONS OR TRACE OR CONNECT"

definition method_is_empty :: "http_method \<Rightarrow> bool" where
  "method_is_empty m \<longleftrightarrow> m = 0"

definition method_contains :: "http_method \<Rightarrow> http_method \<Rightarrow> bool" where
  "method_contains m other \<longleftrightarrow> m AND other = other"

definition method_intersects :: "http_method \<Rightarrow> http_method \<Rightarrow> bool" where
  "method_intersects m other \<longleftrightarrow> m AND other \<noteq> 0"

definition method_from_bits :: "u16 \<Rightarrow> http_method" where
  "method_from_bits bits = bits AND ALL_METHODS"

definition method_as_str :: "http_method \<Rightarrow> string option" where
  "method_as_str m =
     (if m = GET then Some ''GET''
      else if m = POST then Some ''POST''
      else if m = PUT then Some ''PUT''
      else if m = DELETE then Some ''DELETE''
      else if m = PATCH then Some ''PATCH''
      else if m = HEAD then Some ''HEAD''
      else if m = OPTIONS then Some ''OPTIONS''
      else if m = TRACE then Some ''TRACE''
      else if m = CONNECT then Some ''CONNECT''
      else None)"

definition method_from_bytes :: "string \<Rightarrow> http_method option" where
  "method_from_bytes method =
     (if method = ''GET'' then Some GET
      else if method = ''POST'' then Some POST
      else if method = ''PUT'' then Some PUT
      else if method = ''DELETE'' then Some DELETE
      else if method = ''PATCH'' then Some PATCH
      else if method = ''HEAD'' then Some HEAD
      else if method = ''OPTIONS'' then Some OPTIONS
      else if method = ''TRACE'' then Some TRACE
      else if method = ''CONNECT'' then Some CONNECT
      else None)"

definition method_of_str :: "string \<Rightarrow> http_method" where
  "method_of_str s =
     (if s = ''GET'' \<or> s = ''get'' then GET
      else if s = ''POST'' \<or> s = ''post'' then POST
      else if s = ''PUT'' \<or> s = ''put'' then PUT
      else if s = ''DELETE'' \<or> s = ''delete'' then DELETE
      else if s = ''PATCH'' \<or> s = ''patch'' then PATCH
      else if s = ''HEAD'' \<or> s = ''head'' then HEAD
      else if s = ''OPTIONS'' \<or> s = ''options'' then OPTIONS
      else if s = ''TRACE'' \<or> s = ''trace'' then TRACE
      else if s = ''CONNECT'' \<or> s = ''connect'' then CONNECT
      else NONE)"

definition method_from_iter :: "http_method list \<Rightarrow> http_method" where
  "method_from_iter ms = foldl (OR) NONE ms"

definition method_flags :: "(http_method \<times> string) list" where
  "method_flags = [(GET, ''GET''), (POST, ''POST''), (PUT, ''PUT''), (DELETE, ''DELETE''), (PATCH, ''PATCH''),
     (HEAD, ''HEAD''), (OPTIONS, ''OPTIONS''), (TRACE, ''TRACE''), (CONNECT, ''CONNECT'')]"

fun join_flags :: "bool \<Rightarrow> http_method \<Rightarrow> (http_method \<times> string) list \<Rightarrow> string" where
  "join_flags first m [] = []"
| "join_flags first m ((flag, name) # flags) =
     (if method_contains m flag then (if first then [] else ''|'') @ name @ join_flags False m flags
      else join_flags first m flags)"

definition method_to_string :: "http_method \<Rightarrow> string" where
  "method_to_string m =
     (case method_as_str m of Some name \<Rightarrow> name | None \<Rightarrow> join_flags True m method_flags)"

section \<open>Method sets\<close>

record http_method_set =
  ms_standard :: http_method
  ms_custom :: "string list"

definition method_set_new :: "http_method \<Rightarrow> http_method_set" where
  "method_set_new standard = \<lparr>ms_standard = standard, ms_custom = []\<rparr>"

definition method_set_all :: http_method_set where
  "method_set_all = \<lparr>ms_standard = ALL_METHODS, ms_custom = []\<rparr>"

definition add_custom :: "http_method_set \<Rightarrow> string \<Rightarrow> http_method_set" where
  "add_custom s method = s\<lparr>ms_custom := ms_custom s @ [method]\<rparr>"

definition add_standard :: "http_method_set \<Rightarrow> http_method \<Rightarrow> http_method_set" where
  "add_standard s method = s\<lparr>ms_standard := ms_standard s OR method\<rparr>"

definition contains_bytes :: "http_method_set \<Rightarrow> string \<Rightarrow> bool" where
  "contains_bytes s method \<longleftrightarrow>
     (if method = ''GET'' then method_contains (ms_standard s) GET
      else if method = ''POST'' then method_contains (ms_standard s) POST
      else if method = ''PUT'' then method_contains (ms_standard s) PUT
      else if method = ''DELETE'' then method_contains (ms_standard s) DELETE
      else if method = ''PATCH'' then method_contains (ms_standard s) PATCH
      else if method = ''HEAD'' then method_contains (ms_standard s) HEAD
      else if method = ''OPTIONS'' then method_contains (ms_standard s) OPTIONS
      else if method = ''TRACE'' then method_contains (ms_standard s) TRACE
      else if method = ''CONNECT'' then method_contains (ms_standard s) CONNECT
      else list_ex (\<lambda>m. m = method) (ms_custom s))"

definition contains_method :: "http_method_set \<Rightarrow> string \<Rightarrow> bool" where
  "contains_method s method \<longleftrightarrow>
     (if method = ''GET'' then method_contains (ms_standard s) GET
      else if method = ''POST'' then method_contains (ms_standard s) POST
      else if method = ''PUT'' then method_contains (ms_standard s) PUT
      else if method = ''DELETE'' then method_contains (ms_standard s) DELETE
      else if method = ''PATCH'' then method_contains (ms_standard s) PATCH
      else if method = ''HEAD'' then method_contains (ms_standard s) HEAD
      else if method = ''OPTIONS'' then method_contains (ms_standard s) OPTIONS
      else if method = ''TRACE'' then method_contains (ms_standard s) TRACE
      else if method = ''CONNECT'' then method_contains (ms_standard s) CONNECT
      else contains_bytes s method)"

definition is_any :: "http_method_set \<Rightarrow> bool" where
  "is_any s \<longleftrightarrow> ms_standard s = ALL_METHODS \<and> ms_custom s = []"

definition method_set_is_empty :: "http_method_set \<Rightarrow> bool" where
  "method_set_is_empty s \<longleftrightarrow> ms_custom s = [] \<and> method_is_empty (ms_standard s)"

definition without :: "http_method_set \<Rightarrow> http_method_set \<Rightarrow> http_method_set" where
  "without s other =
     (if is_any other then method_set_new NONE
      else \<lparr>ms_standard = ms_standard s AND NOT (ms_standard other),
            ms_custom = filter (\<lambda>m. m \<notin> set (ms_custom other)) (ms_custom s)\<rparr>)"

definition sets_intersect :: "http_method_set \<Rightarrow> http_method_set \<Rightarrow> bool" where
  "sets_intersect s other \<longleftrightarrow>
     (if method_set_is_empty s \<or> method_set_is_empty other then False
      else if is_any s \<or> is_any other then True
      else \<not> method_is_empty (ms_standard s AND ms_standard other) \<or>
        list_ex (\<lambda>m. m \<in> set (ms_custom other)) (ms_custom s))"

fun method_set_from_iter :: "http_method_set \<Rightarrow> string list \<Rightarrow> http_method_set" where
  "method_set_from_iter s [] = s"
| "method_set_from_iter s (method # methods) =
     method_set_from_iter
       (case method_from_bytes method of
          Some std_method \<Rightarrow> add_standard s std_method
        | None \<Rightarrow> add_custom s method) methods"

definition method_set_of_strings :: "string list \<Rightarrow> http_method_set" where
  "method_set_of_strings methods = method_set_from_iter (method_set_new NONE) methods"

section \<open>Standard methods as bits\<close>

definition standard_methods :: "string list" where
  "standard_methods = [''GET'', ''POST'', ''PUT'', ''DELETE'', ''PATCH'', ''HEAD'', ''OPTIONS'', ''TRACE'', ''CONNECT'']"

lemma method_from_bytes_iff: "(\<exists>h. method_from_bytes m = Some h) \<longleftrightarrow> m \<in> set standard_methods"
  by (simp add: method_from_bytes_def standard_methods_def)

lemma bit_flag: "n < 16 \<Longrightarrow> bit (push_bit n 1 :: u16) i \<longleftrightarrow> i = n"
  by (auto simp: bit_push_bit_iff bit_exp_iff bit_1_iff)

lemma method_contains_bit:
  fixes w :: u16
  assumes "n < 16"
  shows "method_contains w (push_bit n 1) \<longleftrightarrow> bit w n"
proof
  assume "method_contains w (push_bit n 1)"
  then have "bit (w AND push_bit n 1) n" using bit_flag [OF assms, of n] by (simp only: method_contains_def)
  then show "bit w n" by (simp add: bit_and_iff)
next
  assume "bit w n"
  then show "method_contains w (push_bit n 1)"
    unfolding method_contains_def by (intro bit_eqI) (auto simp only: bit_and_iff bit_flag [OF assms])
qed

definition method_index :: "string \<Rightarrow> nat option" where
  "method_index m = position (\<lambda>x. x = m) standard_methods"

lemma distinct_standard_methods: "distinct standard_methods" "length standard_methods = 9"
  by code_simp+

lemma method_index_nth: "n < 9 \<Longrightarrow> method_index (standard_methods ! n) = Some n"
  unfolding method_index_def
  by (rule position_SomeI) (auto simp: distinct_standard_methods nth_eq_iff_index_eq)

lemma method_indexD: "method_index m = Some n \<Longrightarrow> n < 9 \<and> m = standard_methods ! n"
  unfolding method_index_def by (drule position_SomeD) (auto simp: distinct_standard_methods)

lemma method_from_bytes_nth: "n < 9 \<Longrightarrow> method_from_bytes (standard_methods ! n) = Some (push_bit n 1)"
proof -
  have "list_all (\<lambda>n. method_from_bytes (standard_methods ! n) = Some (push_bit n 1)) [0..<9]" by code_simp
  then show "n < 9 \<Longrightarrow> ?thesis" by (simp add: list_all_iff)
qed

lemma contains_method_bytes: "contains_method s m = contains_bytes s m"
  unfolding contains_method_def contains_bytes_def by (simp only: if_False cong: if_cong)

lemma contains_method_from_bytes:
  "contains_method s m = (case method_from_bytes m of
     Some h \<Rightarrow> method_contains (ms_standard s) h
   | None \<Rightarrow> list_ex (\<lambda>x. x = m) (ms_custom s))"
  unfolding contains_method_bytes contains_bytes_def method_from_bytes_def
  by (simp only: if_distrib [of "case_option _ _"] option.case)

lemma contains_method_bit:
  assumes "method_index m = Some n"
  shows "contains_method s m \<longleftrightarrow> bit (ms_standard s) n"
proof -
  have n: "n < 9" "m = standard_methods ! n" using method_indexD [OF assms] by blast+
  show ?thesis unfolding contains_method_from_bytes n(2) method_from_bytes_nth [OF n(1)] option.case
    by (rule method_contains_bit) (use n(1) in simp)
qed

section \<open>Sets of standard methods\<close>

text \<open>Sets with no custom method behave as sets of the nine standard methods.\<close>

definition ms_plain :: "http_method_set \<Rightarrow> bool" where
  "ms_plain s \<longleftrightarrow> ms_custom s = [] \<and> (\<forall>n. bit (ms_standard s) n \<longrightarrow> n < 9)"

definition ms_has :: "http_method_set \<Rightarrow> string \<Rightarrow> bool" where
  "ms_has s m \<longleftrightarrow> m \<in> set standard_methods \<and> contains_method s m"

lemma ms_has_bit: "ms_has s m \<longleftrightarrow> (\<exists>n. method_index m = Some n \<and> bit (ms_standard s) n)"
proof
  assume h: "ms_has s m"
  then obtain n where "n < 9" "m = standard_methods ! n"
    by (auto simp: ms_has_def in_set_conv_nth distinct_standard_methods)
  then have "method_index m = Some n" by (simp add: method_index_nth)
  then show "\<exists>n. method_index m = Some n \<and> bit (ms_standard s) n"
    using h contains_method_bit by (auto simp: ms_has_def)
next
  assume "\<exists>n. method_index m = Some n \<and> bit (ms_standard s) n"
  then show "ms_has s m"
    using contains_method_bit method_indexD nth_mem distinct_standard_methods(2) unfolding ms_has_def by metis
qed

lemma bit_ALL: "bit ALL_METHODS n \<longleftrightarrow> n < 9"
proof -
  have bs: "bit (push_bit 0 1 :: u16) n \<longleftrightarrow> n = 0" "bit (push_bit 1 1 :: u16) n \<longleftrightarrow> n = 1" "bit (push_bit 2 1 :: u16) n \<longleftrightarrow> n = 2"
    "bit (push_bit 3 1 :: u16) n \<longleftrightarrow> n = 3" "bit (push_bit 4 1 :: u16) n \<longleftrightarrow> n = 4" "bit (push_bit 5 1 :: u16) n \<longleftrightarrow> n = 5"
    "bit (push_bit 6 1 :: u16) n \<longleftrightarrow> n = 6" "bit (push_bit 7 1 :: u16) n \<longleftrightarrow> n = 7" "bit (push_bit 8 1 :: u16) n \<longleftrightarrow> n = 8"
    by (rule bit_flag, simp)+
  have "bit ALL_METHODS n \<longleftrightarrow> n \<in> {0, 1, 2, 3, 4, 5, 6, 7, 8}"
    unfolding ALL_METHODS_def GET_def POST_def PUT_def DELETE_def PATCH_def HEAD_def OPTIONS_def TRACE_def CONNECT_def
    by (simp only: bit_or_iff bs insert_iff empty_iff) blast
  then show ?thesis by auto
qed

lemma plain_nonempty: "ms_plain s \<Longrightarrow> method_set_is_empty s \<longleftrightarrow> (\<forall>m. \<not> ms_has s m)"
proof -
  assume p: "ms_plain s"
  have "ms_standard s = 0 \<longleftrightarrow> (\<forall>n. \<not> bit (ms_standard s) n)" by (auto intro: bit_eqI)
  also have "\<dots> \<longleftrightarrow> (\<forall>m. \<not> ms_has s m)"
    using p method_index_nth unfolding ms_has_bit ms_plain_def by blast
  finally show ?thesis using p by (simp add: method_set_is_empty_def method_is_empty_def ms_plain_def)
qed

lemma plain_any: "is_any s \<Longrightarrow> ms_has s m \<longleftrightarrow> m \<in> set standard_methods"
proof -
  assume a: "is_any s"
  have "bit (ms_standard s) n" if "method_index m = Some n" for n
    using a method_indexD [OF that] by (simp add: is_any_def bit_ALL)
  moreover have "m \<in> set standard_methods \<Longrightarrow> \<exists>n. method_index m = Some n"
    using method_index_nth by (metis distinct_standard_methods(2) in_set_conv_nth)
  ultimately show ?thesis unfolding ms_has_bit by (metis distinct_standard_methods(2) method_indexD nth_mem)
qed

lemma plain_without:
  assumes "ms_plain s" "ms_plain t"
  shows "ms_plain (without s t)" "ms_has (without s t) m \<longleftrightarrow> ms_has s m \<and> \<not> ms_has t m"
proof -
  show "ms_plain (without s t)"
    using assms by (auto simp: without_def ms_plain_def method_set_new_def NONE_def bit_and_iff)
  show "ms_has (without s t) m \<longleftrightarrow> ms_has s m \<and> \<not> ms_has t m"
  proof (cases "is_any t")
    case True
    have "\<not> ms_has (method_set_new NONE) m" by (simp add: ms_has_bit method_set_new_def NONE_def)
    then show ?thesis using True plain_any [OF True] by (auto simp: without_def ms_has_def)
  next
    case False
    have "n < 16" if "method_index m = Some n" for n using method_indexD [OF that] by simp
    then show ?thesis using False
      by (auto simp: without_def ms_has_bit bit_and_iff bit_not_iff)
  qed
qed

lemma plain_intersect:
  assumes "ms_plain s" "ms_plain t"
  shows "sets_intersect s t \<longleftrightarrow> (\<exists>m. ms_has s m \<and> ms_has t m)"
proof -
  have bits: "ms_standard s AND ms_standard t \<noteq> 0 \<longleftrightarrow> (\<exists>m. ms_has s m \<and> ms_has t m)"
  proof -
    have "ms_standard s AND ms_standard t \<noteq> 0 \<longleftrightarrow> (\<exists>n. bit (ms_standard s) n \<and> bit (ms_standard t) n)"
    proof -
      have "w = 0 \<longleftrightarrow> (\<forall>n. \<not> bit w n)" for w :: u16 by (auto intro: bit_eqI)
      then show ?thesis by (simp add: bit_and_iff)
    qed
    also have "\<dots> \<longleftrightarrow> (\<exists>m. ms_has s m \<and> ms_has t m)"
      using assms method_index_nth unfolding ms_has_bit ms_plain_def by (metis option.inject)
    finally show ?thesis .
  qed
  have any: "(\<exists>m. ms_has s m \<and> ms_has t m) \<longleftrightarrow> \<not> method_set_is_empty s \<and> \<not> method_set_is_empty t"
    if "is_any s \<or> is_any t"
    using that plain_any plain_nonempty [OF assms(1)] plain_nonempty [OF assms(2)] by (metis ms_has_def)
  have "ms_custom s = []" using assms(1) by (simp add: ms_plain_def)
  then show ?thesis
    using any bits plain_nonempty [OF assms(1)] plain_nonempty [OF assms(2)]
    by (auto simp: sets_intersect_def method_is_empty_def)
qed

end
