(* ===== verification/Route_Slot.thy ===== *)
theory Route_Slot
  imports Http_Method
begin

text \<open>
  The routes of one path pattern, \<^verbatim>\<open>libs/ophan-router/src/vhost.rs\<close>: each entry serves its own methods, and an
  implicit entry, registered at the base of a wildcard route, gives way to the explicit ones.
\<close>

record 'v route_entry =
  re_methods :: http_method_set
  re_value :: 'v
  re_implicit :: bool

record 'v route_slot =
  slot_first :: "'v route_entry"
  slot_rest :: "'v route_entry list"

definition entry_allows :: "'v route_entry \<Rightarrow> string \<Rightarrow> bool" where
  "entry_allows e method \<longleftrightarrow> is_any (re_methods e) \<or> contains_method (re_methods e) method"

definition slot_new :: "'v route_entry \<Rightarrow> 'v route_slot" where
  "slot_new entry = \<lparr>slot_first = entry, slot_rest = []\<rparr>"

definition slot_find :: "'v route_slot \<Rightarrow> string \<Rightarrow> 'v route_entry option" where
  "slot_find s method =
     (if entry_allows (slot_first s) method then Some (slot_first s)
      else find (\<lambda>e. entry_allows e method) (slot_rest s))"

definition slot_entries :: "'v route_slot \<Rightarrow> 'v route_entry list" where
  "slot_entries s = slot_first s # slot_rest s"

definition take_methods :: "'v route_entry \<Rightarrow> 'v route_entry \<Rightarrow> 'v route_entry" where
  "take_methods entry existing =
     (if re_implicit existing then existing\<lparr>re_methods := without (re_methods existing) (re_methods entry)\<rparr> else existing)"

definition slot_push :: "'v route_slot \<Rightarrow> 'v route_entry \<Rightarrow> 'v route_entry + 'v route_slot" where
  "slot_push s entry =
     (if re_implicit entry then
        let methods = foldl (\<lambda>ms existing. without ms (re_methods existing)) (re_methods entry) (slot_entries s);
            entry = entry\<lparr>re_methods := methods\<rparr>
        in Inr (if method_set_is_empty methods then s else s\<lparr>slot_rest := slot_rest s @ [entry]\<rparr>)
      else if list_ex (\<lambda>existing. \<not> re_implicit existing \<and> sets_intersect (re_methods existing) (re_methods entry)) (slot_entries s)
      then Inl entry
      else
        let first = take_methods entry (slot_first s);
            rest = filter (\<lambda>existing. \<not> method_set_is_empty (re_methods existing)) (map (take_methods entry) (slot_rest s))
        in Inr (if method_set_is_empty (re_methods first) then \<lparr>slot_first = entry, slot_rest = rest\<rparr>
                else \<lparr>slot_first = first, slot_rest = rest @ [entry]\<rparr>))"

definition into_first :: "'v route_slot \<Rightarrow> 'v" where
  "into_first s = re_value (slot_first s)"

section \<open>Slots over any algebra of method sets\<close>

locale method_algebra =
  fixes wf :: "'s \<Rightarrow> bool"
    and has :: "'s \<Rightarrow> 'm \<Rightarrow> bool"
    and diff :: "'s \<Rightarrow> 's \<Rightarrow> 's"
    and meets :: "'s \<Rightarrow> 's \<Rightarrow> bool"
    and empty :: "'s \<Rightarrow> bool"
  assumes wf_diff: "wf s \<Longrightarrow> wf t \<Longrightarrow> wf (diff s t)"
    and has_diff: "wf s \<Longrightarrow> wf t \<Longrightarrow> has (diff s t) m \<longleftrightarrow> has s m \<and> \<not> has t m"
    and meets_iff: "wf s \<Longrightarrow> wf t \<Longrightarrow> meets s t \<longleftrightarrow> (\<exists>m. has s m \<and> has t m)"
    and empty_iff: "wf s \<Longrightarrow> empty s \<longleftrightarrow> (\<forall>m. \<not> has s m)"
begin

lemma has_foldl_diff:
  "wf s \<Longrightarrow> (\<forall>t\<in>set ts. wf t) \<Longrightarrow> wf (foldl diff s ts) \<and> (has (foldl diff s ts) m \<longleftrightarrow> has s m \<and> (\<forall>t\<in>set ts. \<not> has t m))"
  by (induction ts arbitrary: s) (auto simp: wf_diff has_diff)

lemma not_meets: "wf s \<Longrightarrow> wf t \<Longrightarrow> \<not> meets s t \<Longrightarrow> has s m \<Longrightarrow> \<not> has t m"
  by (auto simp: meets_iff)

end

interpretation plain: method_algebra ms_plain ms_has without sets_intersect method_set_is_empty
  by unfold_locales (simp_all add: plain_without plain_intersect plain_nonempty)

section \<open>The invariant of a slot\<close>

definition disjoint_entries :: "'v route_entry list \<Rightarrow> bool" where
  "disjoint_entries es \<longleftrightarrow>
     sorted_wrt (\<lambda>a b. \<forall>m. \<not> (ms_has (re_methods a) m \<and> ms_has (re_methods b) m)) es"

definition slot_wf :: "'v route_slot \<Rightarrow> bool" where
  "slot_wf s \<longleftrightarrow>
     (\<forall>e\<in>set (slot_entries s). ms_plain (re_methods e) \<and> \<not> method_set_is_empty (re_methods e)) \<and>
     disjoint_entries (slot_entries s)"

lemma entry_allows_standard: "m \<in> set standard_methods \<Longrightarrow> entry_allows e m \<longleftrightarrow> ms_has (re_methods e) m"
  using plain_any [of "re_methods e" m] by (auto simp: entry_allows_def ms_has_def)

lemma slot_find_entries: "slot_find s m = find (\<lambda>e. entry_allows e m) (slot_entries s)"
  by (simp add: slot_find_def slot_entries_def)

text \<open>Among disjoint entries, the first that serves a method is the only one.\<close>

lemma find_unique:
  assumes "disjoint_entries es" "m \<in> set standard_methods"
  shows "find (\<lambda>e. entry_allows e m) es = Some e \<longleftrightarrow> e \<in> set es \<and> ms_has (re_methods e) m"
  using assms
proof (induction es)
  case (Cons a es)
  have "\<not> ms_has (re_methods e) m" if "e \<in> set es" "ms_has (re_methods a) m"
    using Cons(2) that by (auto simp: disjoint_entries_def)
  then show ?case using Cons by (auto simp: disjoint_entries_def entry_allows_standard)
qed simp

lemma find_none: "m \<in> set standard_methods \<Longrightarrow> find (\<lambda>e. entry_allows e m) es = None \<longleftrightarrow> (\<forall>e\<in>set es. \<not> ms_has (re_methods e) m)"
  by (auto simp: find_None_iff entry_allows_standard)

section \<open>Adding an entry\<close>

definition routed :: "'v route_slot \<Rightarrow> string \<Rightarrow> ('v \<times> bool) option" where
  "routed s m = map_option (\<lambda>e. (re_value e, re_implicit e)) (slot_find s m)"

lemma disjoint_append:
  "disjoint_entries (es @ [e]) \<longleftrightarrow> disjoint_entries es \<and> (\<forall>x\<in>set es. \<forall>m. \<not> (ms_has (re_methods x) m \<and> ms_has (re_methods e) m))"
  "disjoint_entries (e # es) \<longleftrightarrow> disjoint_entries es \<and> (\<forall>x\<in>set es. \<forall>m. \<not> (ms_has (re_methods x) m \<and> ms_has (re_methods e) m))"
  by (auto simp: disjoint_entries_def sorted_wrt_append)

lemma find_filter_map:
  "(\<forall>x\<in>set es. P (f x) = P x \<and> (P x \<longrightarrow> Q (f x))) \<Longrightarrow> find P (filter Q (map f es)) = map_option f (find P es)"
  by (induction es) auto

lemma find_append: "find P (xs @ ys) = (case find P xs of Some x \<Rightarrow> Some x | None \<Rightarrow> find P ys)"
  by (induction xs) auto

lemma take_methods_keeps [simp]:
  "re_value (take_methods e x) = re_value x" "re_implicit (take_methods e x) = re_implicit x"
  by (simp_all add: take_methods_def)

lemma take_methods_has:
  assumes "ms_plain (re_methods e)" "ms_plain (re_methods x)"
  shows "ms_plain (re_methods (take_methods e x))"
    and "ms_has (re_methods (take_methods e x)) m \<longleftrightarrow> ms_has (re_methods x) m \<and> \<not> (re_implicit x \<and> ms_has (re_methods e) m)"
  using assms by (auto simp: take_methods_def plain.wf_diff plain.has_diff)

definition kept_entries :: "'v route_entry \<Rightarrow> 'v route_slot \<Rightarrow> 'v route_entry list" where
  "kept_entries e s = filter (\<lambda>x. \<not> method_set_is_empty (re_methods x)) (map (take_methods e) (slot_entries s))"

lemma push_explicit_entries:
  assumes "slot_push s e = Inr s'" "\<not> re_implicit e"
  shows "slot_entries s' = kept_entries e s @ [e] \<or> slot_entries s' = e # kept_entries e s"
  using assms by (auto simp: slot_push_def slot_entries_def kept_entries_def Let_def split: if_splits)

lemma push_explicit_disjoint:
  assumes "slot_push s e = Inr s'" "\<not> re_implicit e" "slot_wf s" "ms_plain (re_methods e)" "x \<in> set (slot_entries s)"
  shows "\<not> (ms_has (re_methods (take_methods e x)) m \<and> ms_has (re_methods e) m)"
proof -
  have x: "ms_plain (re_methods x)" using assms(3,5) by (simp add: slot_wf_def)
  have "re_implicit x \<or> \<not> sets_intersect (re_methods x) (re_methods e)"
    using assms(1,2,5) by (auto simp: slot_push_def list_ex_iff split: if_splits)
  then show ?thesis using plain.meets_iff [OF x assms(4)] take_methods_has(2) [OF assms(4) x, of m] by blast
qed

lemma kept_disjoint:
  assumes "slot_wf s" "ms_plain (re_methods e)"
  shows "disjoint_entries (kept_entries e s)"
proof -
  have d: "sorted_wrt (\<lambda>a b. \<forall>m. \<not> (ms_has (re_methods a) m \<and> ms_has (re_methods b) m)) (slot_entries s)"
    and p: "x \<in> set (slot_entries s) \<Longrightarrow> ms_plain (re_methods x)" for x
    using assms(1) by (simp_all only: slot_wf_def disjoint_entries_def)
  have "disjoint_entries (map (take_methods e) (slot_entries s))"
    unfolding disjoint_entries_def sorted_wrt_map
    by (rule sorted_wrt_mono_rel [OF _ d]) (use take_methods_has(2) [OF assms(2) p] in blast)
  then show ?thesis unfolding kept_entries_def disjoint_entries_def by (rule sorted_wrt_filter)
qed

lemma push_explicit_wf:
  assumes "slot_push s e = Inr s'" "\<not> re_implicit e" "slot_wf s" "ms_plain (re_methods e)" "\<not> method_set_is_empty (re_methods e)"
  shows "slot_wf s'"
proof -
  have k: "\<forall>x\<in>set (kept_entries e s). ms_plain (re_methods x) \<and> \<not> method_set_is_empty (re_methods x) \<and>
      (\<forall>m. \<not> (ms_has (re_methods x) m \<and> ms_has (re_methods e) m))"
    using assms(3) take_methods_has(1) [OF assms(4)] push_explicit_disjoint [OF assms(1-4)]
    by (auto simp: kept_entries_def slot_wf_def)
  show ?thesis using push_explicit_entries [OF assms(1,2)] k kept_disjoint [OF assms(3,4)] assms(4,5)
    unfolding slot_wf_def by (elim disjE) (simp_all add: disjoint_append)
qed

lemma push_explicit_routed:
  assumes "slot_push s e = Inr s'" "\<not> re_implicit e" "slot_wf s" "ms_plain (re_methods e)" "m \<in> set standard_methods"
  shows "routed s' m = (if ms_has (re_methods e) m then Some (re_value e, False) else routed s m)"
proof -
  let ?P = "\<lambda>x. entry_allows x m"
  have kept: "find ?P (kept_entries e s) = map_option (take_methods e) (slot_find s m)" if "\<not> ms_has (re_methods e) m"
    unfolding kept_entries_def slot_find_entries
  proof (rule find_filter_map, intro ballI)
    fix x assume "x \<in> set (slot_entries s)"
    then have x: "ms_plain (re_methods x)" using assms(3) by (simp add: slot_wf_def)
    show "?P (take_methods e x) = ?P x \<and> (?P x \<longrightarrow> \<not> method_set_is_empty (re_methods (take_methods e x)))"
      unfolding entry_allows_standard [OF assms(5)] plain_nonempty [OF take_methods_has(1) [OF assms(4) x]]
      using take_methods_has(2) [OF assms(4) x, of m] that by blast
  qed
  have none: "find ?P (kept_entries e s) = None" if "ms_has (re_methods e) m"
    using that push_explicit_disjoint [OF assms(1-4)] by (auto simp: find_None_iff kept_entries_def entry_allows_standard [OF assms(5)])
  show ?thesis
  proof (cases "ms_has (re_methods e) m")
    case True
    then show ?thesis using push_explicit_entries [OF assms(1,2)] none [OF True] assms(2)
      by (auto simp: routed_def slot_find_entries find_append entry_allows_standard [OF assms(5)])
  next
    case False
    then show ?thesis using push_explicit_entries [OF assms(1,2)] kept [OF False]
      by (auto simp: routed_def slot_find_entries find_append entry_allows_standard [OF assms(5)] option.map_comp comp_def
          split: option.splits)
  qed
qed

definition gap_entry :: "'v route_entry \<Rightarrow> 'v route_slot \<Rightarrow> 'v route_entry" where
  "gap_entry e s = e\<lparr>re_methods := foldl without (re_methods e) (map re_methods (slot_entries s))\<rparr>"

lemma push_implicit_entries:
  assumes "re_implicit e"
  shows "slot_push s e = Inr (if method_set_is_empty (re_methods (gap_entry e s)) then s
    else s\<lparr>slot_rest := slot_rest s @ [gap_entry e s]\<rparr>)"
  using assms by (simp add: slot_push_def gap_entry_def Let_def foldl_map comp_def)

lemma gap_entry_has:
  assumes "slot_wf s" "ms_plain (re_methods e)"
  shows "ms_plain (re_methods (gap_entry e s))"
    and "ms_has (re_methods (gap_entry e s)) m \<longleftrightarrow> ms_has (re_methods e) m \<and> (\<forall>x\<in>set (slot_entries s). \<not> ms_has (re_methods x) m)"
  using plain.has_foldl_diff [OF assms(2), of "map re_methods (slot_entries s)" m] assms(1)
  by (auto simp: gap_entry_def slot_wf_def)

lemma push_implicit:
  assumes "slot_push s e = Inr s'" "re_implicit e" "slot_wf s" "ms_plain (re_methods e)"
  shows "slot_wf s'"
    and "m \<in> set standard_methods \<Longrightarrow>
      routed s' m = (if ms_has (re_methods e) m \<and> routed s m = None then Some (re_value e, True) else routed s m)"
proof -
  let ?g = "gap_entry e s"
  have s': "slot_entries s' = slot_entries s @ (if method_set_is_empty (re_methods ?g) then [] else [?g])"
    using assms(1) unfolding push_implicit_entries [OF assms(2)] by (auto simp: slot_entries_def)
  have "disjoint_entries (slot_entries s @ [?g])"
    unfolding disjoint_append gap_entry_has(2) [OF assms(3,4)] using assms(3) unfolding slot_wf_def by blast
  then show "slot_wf s'" using assms(3) gap_entry_has(1) [OF assms(3,4)] unfolding slot_wf_def s' by simp
  assume m: "m \<in> set standard_methods"
  have g: "re_value ?g = re_value e" "re_implicit ?g" using assms(2) by (simp_all add: gap_entry_def)
  have none: "slot_find s m = None \<longleftrightarrow> (\<forall>x\<in>set (slot_entries s). \<not> ms_has (re_methods x) m)"
    unfolding slot_find_entries by (rule find_none [OF m])
  show "routed s' m = (if ms_has (re_methods e) m \<and> routed s m = None then Some (re_value e, True) else routed s m)"
  proof (cases "slot_find s m")
    case None
    then have "ms_has (re_methods ?g) m \<longleftrightarrow> ms_has (re_methods e) m" using none gap_entry_has(2) [OF assms(3,4)] by simp
    moreover have "find (\<lambda>x. entry_allows x m) (slot_entries s) = None" using None by (simp only: slot_find_entries)
    moreover have "method_set_is_empty (re_methods ?g) \<Longrightarrow> \<not> ms_has (re_methods ?g) m"
      using plain_nonempty [OF gap_entry_has(1) [OF assms(3,4)]] by blast
    ultimately show ?thesis using g
      by (auto simp: routed_def slot_find_entries s' find_append entry_allows_standard [OF m])
  next
    case (Some x)
    then show ?thesis by (simp add: routed_def slot_find_entries s' find_append)
  qed
qed

lemma push_rejects:
  assumes "slot_push s e = Inl e'" "slot_wf s" "ms_plain (re_methods e)"
  shows "e' = e \<and> \<not> re_implicit e \<and> (\<exists>m. ms_has (re_methods e) m \<and> (\<exists>v. routed s m = Some (v, False)))"
proof -
  have i: "\<not> re_implicit e"
  proof
    assume "re_implicit e"
    from push_implicit_entries [OF this, of s] assms(1) show False by simp
  qed
  let ?clash = "list_ex (\<lambda>x. \<not> re_implicit x \<and> sets_intersect (re_methods x) (re_methods e)) (slot_entries s)"
  have clash: "?clash"
  proof (rule ccontr)
    assume "\<not> ?clash"
    with i assms(1) show False by (simp only: slot_push_def Let_def if_False sum.distinct)
  qed
  have e: "e' = e" using i assms(1) clash by (simp only: slot_push_def if_False if_True sum.inject)
  obtain x where x: "x \<in> set (slot_entries s)" "\<not> re_implicit x" "sets_intersect (re_methods x) (re_methods e)"
    using clash unfolding list_ex_iff by blast
  obtain m where m: "ms_has (re_methods x) m" "ms_has (re_methods e) m"
    using x(1,3) assms(2,3) plain.meets_iff [of "re_methods x" "re_methods e"] unfolding slot_wf_def by blast
  then have std: "m \<in> set standard_methods" unfolding ms_has_def by blast
  have "slot_find s m = Some x"
    unfolding slot_find_entries using find_unique [of "slot_entries s" m x, OF _ std] assms(2) x(1) m(1) unfolding slot_wf_def by blast
  then have "routed s m = Some (re_value x, False)" using x(2) by (simp add: routed_def)
  then show ?thesis using e i m(2) by blast
qed

lemma push_clash:
  assumes "slot_wf s" "ms_plain (re_methods e)" "\<not> re_implicit e"
    and "ms_has (re_methods e) m" "routed s m = Some (v, False)"
  shows "slot_push s e = Inl e"
proof -
  have std: "m \<in> set standard_methods" using assms(4) by (simp add: ms_has_def)
  obtain x where x: "slot_find s m = Some x" "\<not> re_implicit x" using assms(5) by (auto simp: routed_def)
  have "x \<in> set (slot_entries s)" "ms_has (re_methods x) m"
    using x(1) find_unique [of "slot_entries s" m x, OF _ std] assms(1) unfolding slot_find_entries slot_wf_def by blast+
  moreover from this have "sets_intersect (re_methods x) (re_methods e)"
    using plain.meets_iff [of "re_methods x" "re_methods e"] assms(1,2,4) unfolding slot_wf_def by blast
  ultimately have "list_ex (\<lambda>x. \<not> re_implicit x \<and> sets_intersect (re_methods x) (re_methods e)) (slot_entries s)"
    using x(2) unfolding list_ex_iff by blast
  then show ?thesis using assms(3) by (simp only: slot_push_def if_False if_True)
qed

text \<open>C31. Adding a route whose methods are among the nine standard ones, or any method, to a pattern whose routes are
  of this kind. An explicit route is refused, and handed back, exactly when one of its methods leads to an explicit route
  there; otherwise its methods lead to it and every other standard method leads where it did. An implicit route is never
  refused and serves the methods that nothing routed. The method sets stay disjoint and non-empty. Custom methods are
  excluded, and do not satisfy this (\<open>custom_methods_shadowed\<close>).\<close>

theorem slot_push_correct:
  assumes "slot_wf s" and "ms_plain (re_methods e)" and "\<not> method_set_is_empty (re_methods e)"
  shows "(slot_push s e = Inl e \<longleftrightarrow> \<not> re_implicit e \<and> list_ex (\<lambda>m. ms_has (re_methods e) m \<and> (\<exists>v. routed s m = Some (v, False))) standard_methods) \<and>
    (case slot_push s e of
      Inl e' \<Rightarrow> e' = e
    | Inr s' \<Rightarrow> slot_wf s' \<and>
        list_all (\<lambda>m. routed s' m =
          (if ms_has (re_methods e) m \<and> (re_implicit e \<longrightarrow> routed s m = None) then Some (re_value e, re_implicit e)
           else routed s m)) standard_methods)"
proof (cases "slot_push s e")
  case (Inl e')
  then show ?thesis using push_rejects [OF Inl assms(1,2)] by (auto simp: list_ex_iff ms_has_def)
next
  case (Inr s')
  have "\<not> (\<not> re_implicit e \<and> list_ex (\<lambda>m. ms_has (re_methods e) m \<and> (\<exists>v. routed s m = Some (v, False))) standard_methods)"
    using push_clash [OF assms(1,2)] Inr by (auto simp: list_ex_iff)
  moreover have "slot_wf s' \<and> list_all (\<lambda>m. routed s' m =
      (if ms_has (re_methods e) m \<and> (re_implicit e \<longrightarrow> routed s m = None) then Some (re_value e, re_implicit e)
       else routed s m)) standard_methods"
  proof (cases "re_implicit e")
    case True
    then show ?thesis using push_implicit [OF Inr True assms(1,2)] by (auto simp: list_all_iff)
  next
    case False
    then show ?thesis using push_explicit_wf [OF Inr False assms] push_explicit_routed [OF Inr False assms(1,2)]
      by (auto simp: list_all_iff)
  qed
  ultimately show ?thesis by (simp add: Inr)
qed

definition explicit_get :: "nat route_entry" where
  "explicit_get = \<lparr>re_methods = method_set_of_strings [''GET''], re_value = 1, re_implicit = False\<rparr>"

definition implicit_any :: "nat route_slot" where
  "implicit_any = slot_new \<lparr>re_methods = method_set_all, re_value = 0, re_implicit = True\<rparr>"

lemma explicit_get_plain: "ms_plain (re_methods explicit_get)" "ms_plain method_set_all"
proof -
  have "ms_standard (re_methods explicit_get) = push_bit 0 1" "ms_custom (re_methods explicit_get) = []" by code_simp+
  then show "ms_plain (re_methods explicit_get)" using bit_flag [of 0] by (simp add: ms_plain_def)
  show "ms_plain method_set_all" by (simp add: ms_plain_def method_set_all_def bit_ALL)
qed

lemma implicit_any_wf: "slot_wf implicit_any"
proof -
  have "\<not> method_set_is_empty method_set_all" by code_simp
  then show ?thesis
    using explicit_get_plain(2) by (simp add: slot_wf_def implicit_any_def slot_new_def slot_entries_def disjoint_entries_def)
qed

theorem slot_push_correct_witness:
  "case slot_push implicit_any explicit_get of
      Inl e' \<Rightarrow> False
    | Inr s' \<Rightarrow> slot_wf s' \<and> routed s' ''GET'' = Some (1, False) \<and> routed s' ''POST'' = Some (0, True)"
proof -
  have h: "\<not> method_set_is_empty (re_methods explicit_get)" by code_simp
  have i: "\<not> re_implicit explicit_get" "re_value explicit_get = 1" "ms_has (re_methods explicit_get) ''GET''"
    "\<not> ms_has (re_methods explicit_get) ''POST''" "routed implicit_any ''POST'' = Some (0, True)"
    "\<not> isl (slot_push implicit_any explicit_get)" "''GET'' \<in> set standard_methods" "''POST'' \<in> set standard_methods"
    by code_simp+
  then obtain s' where s': "slot_push implicit_any explicit_get = Inr s'" by (cases "slot_push implicit_any explicit_get") auto
  show ?thesis using slot_push_correct [OF implicit_any_wf explicit_get_plain(1) h] i(1-5,7-8)
    unfolding s' sum.case list_all_iff by simp
qed

text \<open>
  Custom methods fall outside that contract: \<open>without\<close> leaves a set that accepts any method as it is when it
  takes custom methods away, and drops every custom method when it takes standard ones away. So an explicit route
  for a custom method, at a path where a wildcard route for any method registered first, is never reached, and an
  explicit route for GET makes the wildcard route lose the custom methods it served.
\<close>

theorem custom_methods_shadowed:
  "(case slot_push implicit_any \<lparr>re_methods = method_set_of_strings [''PROPFIND''], re_value = 1, re_implicit = False\<rparr> of
      Inl e \<Rightarrow> False
    | Inr s \<Rightarrow> length (slot_entries s) = 2 \<and> routed s ''PROPFIND'' = Some (0, True)) \<and>
   routed implicit_any ''PROPFIND'' = Some (0, True) \<and>
   (case slot_push implicit_any explicit_get of Inl e \<Rightarrow> False | Inr s \<Rightarrow> routed s ''PROPFIND'' = None)"
  by code_simp

end
