(* ===== verification/Sni_Table.thy ===== *)
theory Sni_Table
  imports Ascii "HOL-Library.AList"
begin

text \<open>
  The host table of the router, \<^verbatim>\<open>libs/ophan-router/src/sni.rs\<close>: exact host names and \<^verbatim>\<open>*.\<close> wildcards, matched
  without regard to ASCII case. The hash maps are association lists.
\<close>

definition MAX_SNI_LEN :: nat where "MAX_SNI_LEN = 1024"

definition MAX_LABELS :: nat where "MAX_LABELS = 32"

record sni_table =
  sni_exact :: "(string \<times> u32) list"
  sni_wildcard :: "(string \<times> u32) list"

definition sni_new :: sni_table where
  "sni_new = \<lparr>sni_exact = [], sni_wildcard = []\<rparr>"

definition sni_add_route :: "sni_table \<Rightarrow> string \<Rightarrow> u32 \<Rightarrow> sni_table" where
  "sni_add_route t host target_id =
     (let host = to_ascii_lowercase host in
      case strip_prefix ''*.'' host of
        Some suffix \<Rightarrow> t\<lparr>sni_wildcard := AList.update suffix target_id (sni_wildcard t)\<rparr>
      | None \<Rightarrow> t\<lparr>sni_exact := AList.update host target_id (sni_exact t)\<rparr>)"

text \<open>The wildcard loop at label count \<open>labels\<close>, on the bytes that are left.\<close>

fun wildcard_loop :: "(string \<times> u32) list \<Rightarrow> nat \<Rightarrow> string \<Rightarrow> u32 option" where
  "wildcard_loop wildcard labels [] = None"
| "wildcard_loop wildcard labels (b # rest) =
     (if b = CHR ''.'' then
        let labels = labels + 1 in
        if labels > MAX_LABELS then None
        else case map_of wildcard rest of
            Some target \<Rightarrow> Some target
          | None \<Rightarrow> wildcard_loop wildcard labels rest
      else wildcard_loop wildcard labels rest)"

definition route_wildcard :: "sni_table \<Rightarrow> string \<Rightarrow> u32 option" where
  "route_wildcard t sni = (if sni_wildcard t = [] then None else wildcard_loop (sni_wildcard t) 1 sni)"

definition is_ascii_uppercase :: "char \<Rightarrow> bool" where
  "is_ascii_uppercase c \<longleftrightarrow> 65 \<le> (of_char c :: nat) \<and> (of_char c :: nat) \<le> 90"

definition sni_route :: "sni_table \<Rightarrow> string \<Rightarrow> u32 option" where
  "sni_route t sni =
     (let sni = (case strip_suffix ''.'' sni of Some s \<Rightarrow> s | None \<Rightarrow> sni);
          len = length sni in
      if len = 0 \<or> len > MAX_SNI_LEN then None
      else case map_of (sni_exact t) sni of
          Some target \<Rightarrow> Some target
        | None \<Rightarrow>
            if \<not> list_ex is_ascii_uppercase sni then route_wildcard t sni
            else
              let lower = to_ascii_lowercase sni in
              case map_of (sni_exact t) lower of
                Some target \<Rightarrow> Some target
              | None \<Rightarrow> route_wildcard t lower)"

section \<open>What a table of registrations resolves to\<close>

definition sni_register :: "(string \<times> u32) list \<Rightarrow> sni_table" where
  "sni_register rs = foldl (\<lambda>t (host, target). sni_add_route t host target) sni_new rs"

text \<open>The target registered last for a name.\<close>

definition registered :: "(string \<times> u32) list \<Rightarrow> string \<Rightarrow> u32 option" where
  "registered rs name = map_of (rev (map (\<lambda>(host, target). (to_ascii_lowercase host, target)) rs)) name"

fun label_suffixes :: "string \<Rightarrow> string list" where
  "label_suffixes [] = []"
| "label_suffixes (b # rest) = (if b = CHR ''.'' then [rest] else []) @ label_suffixes rest"

fun first_registered :: "(string \<times> u32) list \<Rightarrow> string list \<Rightarrow> u32 option" where
  "first_registered rs [] = None"
| "first_registered rs (s # ss) =
     (case registered rs (''*.'' @ s) of Some target \<Rightarrow> Some target | None \<Rightarrow> first_registered rs ss)"

lemma strip_prefix_None: "strip_prefix p s = None \<longleftrightarrow> \<not> (\<exists>r. s = p @ r)"
  using strip_prefix_Some_iff [of p s] by (metis not_None_eq)

lemma registered_snoc:
  "registered (rs @ [(host, target)]) name = (if name = to_ascii_lowercase host then Some target else registered rs name)"
  by (simp add: registered_def)

lemma register_snoc: "sni_register (rs @ [(host, target)]) = sni_add_route (sni_register rs) host target"
  by (simp add: sni_register_def)

lemma register_exact:
  "map_of (sni_exact (sni_register rs)) name = (if strip_prefix ''*.'' name = None then registered rs name else None)"
proof (induction rs rule: rev_induct)
  case Nil
  show ?case by (simp add: sni_register_def sni_new_def registered_def)
next
  case (snoc r rs)
  obtain host target where r: "r = (host, target)" by (cases r)
  show ?case
    using snoc.IH unfolding r register_snoc registered_snoc sni_add_route_def Let_def
    by (auto simp: update_conv split: option.splits)
qed

lemma register_wildcard: "map_of (sni_wildcard (sni_register rs)) name = registered rs (''*.'' @ name)"
proof (induction rs rule: rev_induct)
  case Nil
  show ?case by (simp add: sni_register_def sni_new_def registered_def)
next
  case (snoc r rs)
  obtain host target where r: "r = (host, target)" by (cases r)
  show ?case
  proof (cases "strip_prefix ''*.'' (to_ascii_lowercase host)")
    case None
    then have "''*.'' @ name \<noteq> to_ascii_lowercase host" using strip_prefix_None by metis
    then show ?thesis using snoc.IH None unfolding r register_snoc registered_snoc sni_add_route_def Let_def by simp
  next
    case (Some suffix)
    then have "to_ascii_lowercase host = ''*.'' @ suffix" by (simp add: strip_prefix_Some_iff)
    then have "''*.'' @ name = to_ascii_lowercase host \<longleftrightarrow> name = suffix" by auto
    then show ?thesis using snoc.IH Some unfolding r register_snoc registered_snoc sni_add_route_def Let_def
      by (simp add: update_conv)
  qed
qed

lemma wildcard_loop_suffixes:
  assumes "\<And>s. map_of w s = registered rs (''*.'' @ s)" "labels \<le> MAX_LABELS"
  shows "wildcard_loop w labels sni = first_registered rs (take (MAX_LABELS - labels) (label_suffixes sni))"
  using assms(2)
proof (induction sni arbitrary: labels)
  case (Cons b rest)
  show ?case
  proof (cases "b = CHR ''.''")
    case True
    show ?thesis
    proof (cases "labels + 1 > MAX_LABELS")
      case False
      then have "MAX_LABELS - labels = Suc (MAX_LABELS - (labels + 1))" by simp
      then show ?thesis using True False Cons.IH [of "labels + 1"] by (simp add: assms(1) split: option.splits)
    qed (use True Cons.prems in simp)
  qed (use Cons in simp)
qed simp

lemma route_wildcard_registered:
  "route_wildcard (sni_register rs) sni = first_registered rs (take (MAX_LABELS - 1) (label_suffixes sni))"
proof (cases "sni_wildcard (sni_register rs) = []")
  case True
  then have "registered rs (''*.'' @ s) = None" for s using register_wildcard [of rs s] by simp
  then have "first_registered rs ss = None" for ss by (induction ss) auto
  then show ?thesis using True by (simp add: route_wildcard_def)
next
  case False
  then show ?thesis
    using wildcard_loop_suffixes [of _ rs 1, OF register_wildcard] by (simp add: route_wildcard_def MAX_LABELS_def)
qed

lemma ascii_lower_fixed: "\<not> is_ascii_uppercase c \<Longrightarrow> ascii_lower c = c"
  by (auto simp: ascii_lower_def is_ascii_uppercase_def)

lemma to_ascii_lowercase_fixed: "\<not> list_ex is_ascii_uppercase s \<Longrightarrow> to_ascii_lowercase s = s"
  by (induction s) (auto simp: ascii_lower_fixed)

lemma registered_lower: "registered rs name = Some target \<Longrightarrow> to_ascii_lowercase name = name"
  by (auto simp: registered_def dest!: map_of_SomeD)

definition sni_name :: "string \<Rightarrow> string" where
  "sni_name sni = to_ascii_lowercase (case strip_suffix ''.'' sni of Some s \<Rightarrow> s | None \<Rightarrow> sni)"

text \<open>C32. A host table resolves a name as its registrations say: the final dot and the case of the name do not
  matter, the last registration of that exact name wins, and otherwise the wildcard with the longest suffix at a label
  boundary, among the first 31 of them; an empty name and one longer than 1024 bytes resolve to nothing. The number of
  labels bounds the wildcard search only: a name of any number of labels is found by an exact registration, or by a
  wildcard within its first 31 suffixes.\<close>

theorem sni_route_correct:
  "sni_route (sni_register rs) sni =
     (let name = sni_name sni in
      if name = [] \<or> length name > 1024 then None
      else case (if strip_prefix ''*.'' name = None then registered rs name else None) of
          Some target \<Rightarrow> Some target
        | None \<Rightarrow> first_registered rs (take 31 (label_suffixes name)))"
proof -
  define s where "s = (case strip_suffix ''.'' sni of Some s \<Rightarrow> s | None \<Rightarrow> sni)"
  have name: "sni_name sni = to_ascii_lowercase s" by (simp add: sni_name_def s_def)
  have raw: "map_of (sni_exact (sni_register rs)) s = Some target \<Longrightarrow> to_ascii_lowercase s = s" for target
    using registered_lower [of rs s] by (simp add: register_exact split: if_splits)
  have len: "(to_ascii_lowercase s = [] \<or> length (to_ascii_lowercase s) > 1024) \<longleftrightarrow> (length s = 0 \<or> length s > MAX_SNI_LEN)"
    by (simp add: MAX_SNI_LEN_def)
  have labels: "MAX_LABELS - 1 = 31" by (simp add: MAX_LABELS_def)
  show ?thesis
    unfolding sni_route_def s_def [symmetric] name Let_def len route_wildcard_registered labels register_exact [symmetric]
    using raw to_ascii_lowercase_fixed [of s] by (auto split: option.splits)
qed

text \<open>
  The limit of 32 labels does not refuse a name: one of 41 labels is found by its exact registration and by a wildcard.
\<close>

lemma label_limit_examples:
  "sni_route (sni_register [(concat (replicate 40 ''a.'') @ ''com'', 7)]) (concat (replicate 40 ''a.'') @ ''com'') = Some 7"
  "sni_route (sni_register [(''*.'' @ concat (replicate 39 ''a.'') @ ''com'', 8)]) (concat (replicate 40 ''a.'') @ ''com'') = Some 8"
  by code_simp+

end
