(* ===== verification/Route_Pattern.thy ===== *)
theory Route_Pattern
  imports Ascii
begin

text \<open>
  The path syntax of routes, \<^verbatim>\<open>libs/ophan-router/src/pattern.rs\<close>: \<^verbatim>\<open>:name\<close> and \<^verbatim>\<open>*\<close> become the braces of the
  radix tree. The scanning loop is a partial function of the bytes that are left, so that its end is a theorem.
\<close>

fun has_matchit_wildcard :: "string \<Rightarrow> bool" where
  "has_matchit_wildcard [] = False"
| "has_matchit_wildcard (b # rest) =
     (if b = CHR ''{'' \<and> rest \<noteq> [] \<and> hd rest \<noteq> CHR ''{'' then True else has_matchit_wildcard rest)"

definition is_ascii_whitespace :: "char \<Rightarrow> bool" where
  "is_ascii_whitespace c \<longleftrightarrow> (of_char c :: nat) \<in> {9, 10, 12, 13, 32}"

definition is_pattern_meta :: "char \<Rightarrow> bool" where
  "is_pattern_meta c \<longleftrightarrow> c = CHR ''{'' \<or> c = CHR ''}'' \<or> c = CHR '':'' \<or> c = CHR ''*''"

partial_function (option) normalize_loop :: "bool \<Rightarrow> string \<Rightarrow> string \<Rightarrow> string option" where
  "normalize_loop in_brace rest result =
     (case rest of
        [] \<Rightarrow> Some result
      | b # tail \<Rightarrow>
          if b = CHR ''{'' then normalize_loop True tail (result @ ''{'')
          else if b = CHR ''}'' then normalize_loop False tail (result @ ''}'')
          else if b = CHR '':'' \<and> \<not> in_brace then
            let name = takeWhile (\<lambda>c. c \<noteq> CHR ''/'') tail in
            if name \<noteq> [] then normalize_loop in_brace (drop (length name) tail) (result @ ''{'' @ name @ ''}'')
            else normalize_loop in_brace tail (result @ '':'')
          else if b = CHR ''*'' \<and> \<not> in_brace then
            normalize_loop in_brace tail (result @ (if list_all is_ascii_whitespace tail then ''{*_}'' else ''{_}''))
          else
            let text = takeWhile (\<lambda>c. \<not> is_pattern_meta c) rest in
            normalize_loop in_brace (drop (length text) rest) (result @ text))"

declare normalize_loop.simps [code]

definition normalize_pattern :: "string \<Rightarrow> string option" where
  "normalize_pattern pattern =
     (if has_matchit_wildcard pattern then Some pattern else normalize_loop False pattern [])"

section \<open>The loop ends\<close>

text \<open>
  Inside braces the loop would stand still on a \<^verbatim>\<open>:\<close> or \<^verbatim>\<open>*\<close>. Without a wildcard the opening braces are the last
  bytes of the pattern, so it never gets there.
\<close>

definition only_open :: "string \<Rightarrow> bool" where
  "only_open s \<longleftrightarrow> (\<forall>c\<in>set s. c = CHR ''{'')"

lemma has_wildcard_append: "has_matchit_wildcard s \<Longrightarrow> has_matchit_wildcard (r @ s)"
  by (induction r) auto

lemma open_brace_tail: "\<not> has_matchit_wildcard (CHR ''{'' # s) \<Longrightarrow> only_open s"
proof (induction s)
  case (Cons c s)
  have c: "c = CHR ''{''"
  proof (rule ccontr)
    assume "c \<noteq> CHR ''{''"
    with Cons.prems show False by simp
  qed
  then have "\<not> has_matchit_wildcard (CHR ''{'' # s)" using Cons.prems has_wildcard_append [of "c # s" "''{''"] by auto
  then show ?case using Cons.IH c by (simp add: only_open_def)
qed (simp add: only_open_def)

lemma no_wildcard_drop: "\<not> has_matchit_wildcard s \<Longrightarrow> \<not> has_matchit_wildcard (drop n s)"
  using has_wildcard_append [of "drop n s" "take n s"] by auto

lemma braced_has_wildcard: "has_matchit_wildcard (CHR ''{'' # s @ CHR ''}'' # r)"
  by (induction s) auto

definition keeps_or_braces :: "string \<Rightarrow> string \<Rightarrow> string option \<Rightarrow> bool" where
  "keeps_or_braces rest result r \<longleftrightarrow> (\<exists>out. r = Some (result @ out) \<and> (out = rest \<or> has_matchit_wildcard out))"

lemma keeps_or_braces_step:
  "keeps_or_braces (drop (length s) rest) (result @ s) r \<Longrightarrow> take (length s) rest = s \<Longrightarrow> keeps_or_braces rest result r"
  unfolding keeps_or_braces_def by (metis append.assoc append_take_drop_id has_wildcard_append)

lemma keeps_or_braces_brace:
  assumes "keeps_or_braces rest' (result @ ''{'' @ s @ ''}'') r"
  shows "keeps_or_braces rest result r"
proof -
  obtain out where out: "r = Some ((result @ ''{'' @ s @ ''}'') @ out)" using assms by (auto simp: keeps_or_braces_def)
  have "has_matchit_wildcard (''{'' @ s @ ''}'' @ out)" using braced_has_wildcard by simp
  then show ?thesis unfolding keeps_or_braces_def out by auto
qed

lemma loop_nil: "normalize_loop in_brace [] result = Some result"
  by (subst normalize_loop.simps) simp

lemma loop_open: "normalize_loop in_brace (CHR ''{'' # tail) result = normalize_loop True tail (result @ ''{'')"
  by (subst normalize_loop.simps) simp

lemma loop_close: "normalize_loop in_brace (CHR ''}'' # tail) result = normalize_loop False tail (result @ ''}'')"
  by (subst normalize_loop.simps) simp

lemma loop_colon:
  "normalize_loop False (CHR '':'' # tail) result =
     (let name = takeWhile (\<lambda>c. c \<noteq> CHR ''/'') tail in
      if name \<noteq> [] then normalize_loop False (drop (length name) tail) (result @ ''{'' @ name @ ''}'')
      else normalize_loop False tail (result @ '':''))"
  by (subst normalize_loop.simps) simp

lemma loop_star:
  "normalize_loop False (CHR ''*'' # tail) result =
     normalize_loop False tail (result @ ''{'' @ (if list_all is_ascii_whitespace tail then ''*_'' else ''_'') @ ''}'')"
  by (subst normalize_loop.simps) simp

lemma loop_text:
  assumes "\<not> is_pattern_meta b"
  shows "normalize_loop in_brace (b # tail) result =
     (let text = b # takeWhile (\<lambda>c. \<not> is_pattern_meta c) tail in
      normalize_loop in_brace (drop (length text) (b # tail)) (result @ text))"
  using assms by (subst normalize_loop.simps) (simp add: is_pattern_meta_def)

lemma normalize_loop_ends:
  assumes "\<not> has_matchit_wildcard rest" "in_brace \<Longrightarrow> only_open rest"
  shows "keeps_or_braces rest result (normalize_loop in_brace rest result)"
  using assms
proof (induction "length rest" arbitrary: rest in_brace result rule: less_induct)
  case less
  show ?case
  proof (cases rest)
    case Nil
    then show ?thesis by (simp add: loop_nil keeps_or_braces_def)
  next
    case (Cons b tail)
    have IH: "keeps_or_braces (drop n tail) out (normalize_loop in_b (drop n tail) out)"
      if "in_b \<Longrightarrow> only_open (drop n tail)" for n in_b out
      using that less.hyps [of "drop n tail" in_b out] no_wildcard_drop [OF less.prems(1), of "Suc n"] Cons by simp
    have copy: "keeps_or_braces (b # tail) result (normalize_loop in_b tail (result @ [b]))" if "in_b \<Longrightarrow> only_open tail" for in_b
      using IH [of in_b 0 "result @ [b]"] that by (intro keeps_or_braces_step [of "[b]" "b # tail"]) simp_all
    have brace: "keeps_or_braces (b # tail) result (normalize_loop False (drop n tail) (result @ ''{'' @ s @ ''}''))" for n s
      by (rule keeps_or_braces_brace, rule IH) simp
    have out: "b \<noteq> CHR ''{'' \<Longrightarrow> \<not> in_brace"
      using less.prems(2) unfolding Cons only_open_def by (meson list.set_intros(1))
    consider (lbrace) "b = CHR ''{''" | (rbrace) "b = CHR ''}''" | (colon) "b = CHR '':''" | (star) "b = CHR ''*''" | (plain) "\<not> is_pattern_meta b"
      unfolding is_pattern_meta_def by blast
    then show ?thesis
    proof cases
      case lbrace
      then have "only_open tail" using less.prems(1) Cons open_brace_tail by blast
      then show ?thesis using copy [of True] unfolding Cons lbrace loop_open by blast
    next
      case rbrace
      then show ?thesis using copy [of False] unfolding Cons rbrace loop_close by blast
    next
      case colon
      then have i: "in_brace = False" using out by simp
      show ?thesis using copy [of False] brace unfolding Cons colon i loop_colon Let_def by simp
    next
      case star
      then have i: "in_brace = False" using out by simp
      show ?thesis using brace [of 0] unfolding Cons star i loop_star by (simp only: drop_0)
    next
      case plain
      then have i: "in_brace = False" using out unfolding is_pattern_meta_def by blast
      let ?text = "takeWhile (\<lambda>c. \<not> is_pattern_meta c) tail"
      have "keeps_or_braces (b # tail) result (normalize_loop False (drop (length ?text) tail) (result @ b # ?text))"
        using IH [of False "length ?text" "result @ b # ?text"]
        by (intro keeps_or_braces_step [of "b # ?text" "b # tail"]) (simp_all add: takeWhile_eq_take [symmetric])
      then show ?thesis unfolding Cons i loop_text [OF plain] Let_def by simp
    qed
  qed
qed

text \<open>C33. Normalizing a route pattern always ends, and normalizing its result changes nothing: either the pattern
  has no placeholder and is kept as it is, or the result has a braced one.\<close>

theorem normalize_pattern_ends:
  "\<exists>out. normalize_pattern pattern = Some out \<and> normalize_pattern out = Some out \<and> (out = pattern \<or> has_matchit_wildcard out)"
proof (cases "has_matchit_wildcard pattern")
  case True
  then show ?thesis by (simp add: normalize_pattern_def)
next
  case False
  then obtain out where out: "normalize_loop False pattern [] = Some out" "out = pattern \<or> has_matchit_wildcard out"
    using normalize_loop_ends [of pattern False "[]"] by (auto simp: keeps_or_braces_def)
  then show ?thesis using False by (auto simp: normalize_pattern_def)
qed

end
