(* ===== verification/Route_Escape.thy ===== *)
theory Route_Escape
  imports Ascii "HOL-Library.Monad_Syntax"
begin

text \<open>
  Route patterns with escaped braces, \<^verbatim>\<open>libs/ophan-router/src/escape.rs\<close>, and the search for wildcards and the
  renaming of parameters in them, from \<^verbatim>\<open>tree.rs\<close>. A result \<open>None\<close> stands for a panic (a slice out of range, an
  \<^verbatim>\<open>unwrap\<close> or \<^verbatim>\<open>assert!\<close> that fails). The second part gives both representations of a pattern their meaning: the
  list of its bytes, each marked escaped or not.
\<close>

section \<open>Unescaped routes\<close>

record unescaped_route =
  ur_inner :: string
  ur_escaped :: "nat list"

definition ur_default :: unescaped_route where
  "ur_default = \<lparr>ur_inner = [], ur_escaped = []\<rparr>"

text \<open>The unescaping loop at index \<open>i\<close>: of two equal braces the first is removed and the index noted.\<close>

fun unescape_loop :: "nat \<Rightarrow> string \<Rightarrow> string \<times> nat list" where
  "unescape_loop i [] = ([], [])"
| "unescape_loop i [c] = ([c], [])"
| "unescape_loop i (c # d # rest) =
     (if (c = CHR ''{'' \<and> d = CHR ''{'') \<or> (c = CHR ''}'' \<and> d = CHR ''}'') then
        let (inner, escaped) = unescape_loop (i + 1) rest in (d # inner, i # escaped)
      else
        let (inner, escaped) = unescape_loop (i + 1) (d # rest) in (c # inner, escaped))"

definition ur_new :: "string \<Rightarrow> unescaped_route" where
  "ur_new route = (let (inner, escaped) = unescape_loop 0 route in \<lparr>ur_inner = inner, ur_escaped = escaped\<rparr>)"

definition ur_is_escaped :: "unescaped_route \<Rightarrow> nat \<Rightarrow> bool" where
  "ur_is_escaped r i \<longleftrightarrow> i \<in> set (ur_escaped r)"

text \<open>\<^verbatim>\<open>splice\<close> gives the new route and the bytes it removed.\<close>

definition shift_escaped :: "nat \<Rightarrow> int \<Rightarrow> nat \<Rightarrow> nat" where
  "shift_escaped range_end offset i = (if i > range_end then nat (int i + offset) else i)"

definition ur_splice :: "unescaped_route \<Rightarrow> nat \<times> nat \<Rightarrow> string \<Rightarrow> (unescaped_route \<times> string) option" where
  "ur_splice r rng replace =
     (let (start, stop) = rng;
          escaped = filter (\<lambda>x. \<not> (start \<le> x \<and> x < stop)) (ur_escaped r);
          offset = int (length replace) - int (stop - start);
          escaped = map (shift_escaped stop offset) escaped
      in if start \<le> stop \<and> stop \<le> length (ur_inner r)
         then Some (\<lparr>ur_inner = take start (ur_inner r) @ replace @ drop stop (ur_inner r), ur_escaped = escaped\<rparr>,
                    take (stop - start) (drop start (ur_inner r)))
         else None)"

definition ur_append :: "unescaped_route \<Rightarrow> unescaped_route \<Rightarrow> unescaped_route" where
  "ur_append r other =
     \<lparr>ur_inner = ur_inner r @ ur_inner other,
      ur_escaped = ur_escaped r @ map (\<lambda>i. length (ur_inner r) + i) (ur_escaped other)\<rparr>"

definition ur_truncate :: "unescaped_route \<Rightarrow> nat \<Rightarrow> unescaped_route" where
  "ur_truncate r to = \<lparr>ur_inner = take to (ur_inner r), ur_escaped = filter (\<lambda>x. x < to) (ur_escaped r)\<rparr>"

section \<open>References into routes\<close>

record unescaped_ref =
  rf_inner :: string
  rf_escaped :: "nat list"
  rf_offset :: int

definition ur_as_ref :: "unescaped_route \<Rightarrow> unescaped_ref" where
  "ur_as_ref r = \<lparr>rf_inner = ur_inner r, rf_escaped = ur_escaped r, rf_offset = 0\<rparr>"

definition rf_to_owned :: "unescaped_ref \<Rightarrow> unescaped_route" where
  "rf_to_owned r =
     \<lparr>ur_inner = rf_inner r,
      ur_escaped = map nat (filter (\<lambda>i. 0 \<le> i \<and> i < int (length (rf_inner r))) (map (\<lambda>i. int i + rf_offset r) (rf_escaped r)))\<rparr>"

definition rf_is_escaped :: "unescaped_ref \<Rightarrow> nat \<Rightarrow> bool" where
  "rf_is_escaped r i \<longleftrightarrow> (let j = int i - rf_offset r in 0 \<le> j \<and> nat j \<in> set (rf_escaped r))"

definition rf_slice_off :: "unescaped_ref \<Rightarrow> nat \<Rightarrow> unescaped_ref option" where
  "rf_slice_off r start =
     (if start \<le> length (rf_inner r)
      then Some (r\<lparr>rf_inner := drop start (rf_inner r), rf_offset := rf_offset r - int start\<rparr>) else None)"

definition rf_slice_until :: "unescaped_ref \<Rightarrow> nat \<Rightarrow> unescaped_ref option" where
  "rf_slice_until r stop =
     (if stop \<le> length (rf_inner r) then Some (r\<lparr>rf_inner := take stop (rf_inner r)\<rparr>) else None)"

section \<open>Wildcards\<close>

datatype insert_error =
  Conflict string
| InvalidParamSegment
| InvalidParam
| InvalidCatchAll
| MethodConflict string

text \<open>The search for the closing brace of a wildcard opened at \<open>start\<close>, at index \<open>i\<close>.\<close>

fun find_close :: "unescaped_ref \<Rightarrow> nat \<Rightarrow> nat \<Rightarrow> string \<Rightarrow> insert_error + (nat \<times> nat) option" where
  "find_close path start i [] = Inl InvalidParam"
| "find_close path start i (c # rest) =
     (if c = CHR ''}'' then
        if rf_is_escaped path i then find_close path start (i + 1) rest
        else if i - 1 < length (rf_inner path) \<and> rf_inner path ! (i - 1) = CHR ''*'' then Inl InvalidParam
        else Inr (Some (start, i + 1))
      else if c = CHR ''*'' \<or> c = CHR ''/'' then Inl InvalidParam
      else find_close path start (i + 1) rest)"

fun find_open :: "unescaped_ref \<Rightarrow> nat \<Rightarrow> string \<Rightarrow> insert_error + (nat \<times> nat) option" where
  "find_open path start [] = Inr None"
| "find_open path start (c # rest) =
     (if c = CHR ''}'' \<and> \<not> rf_is_escaped path start then Inl InvalidParam
      else if c \<noteq> CHR ''{'' \<or> rf_is_escaped path start then find_open path (start + 1) rest
      else if rest \<noteq> [] \<and> hd rest = CHR ''}'' then Inl InvalidParam
      else find_close path start (start + 2) (drop 1 rest))"

definition find_wildcard :: "unescaped_ref \<Rightarrow> insert_error + (nat \<times> nat) option" where
  "find_wildcard path = find_open path 0 (rf_inner path)"

text \<open>
  The renaming of parameters. \<open>Some (Inl e)\<close> is the error \<open>e\<close>, \<open>Some (Inr (path, original))\<close> the renamed route with
  the names it had. The byte \<open>nxt\<close> is the next name.
\<close>

partial_function (option) normalize_params_loop ::
  "unescaped_route \<Rightarrow> nat \<Rightarrow> string list \<Rightarrow> u8 \<Rightarrow> (insert_error + unescaped_route \<times> string list) option" where
  "normalize_params_loop path start original nxt =
     do {
       rest \<leftarrow> rf_slice_off (ur_as_ref path) start;
       (case find_wildcard rest of
          Inl e \<Rightarrow> Some (Inl e)
        | Inr None \<Rightarrow> Some (Inr (path, original))
        | Inr (Some (s, e)) \<Rightarrow>
            (let ws = s + start; we = e + start in
             if we - ws < 2 then Some (Inl InvalidParam)
             else if ur_inner path ! (ws + 1) = CHR ''*'' then normalize_params_loop path we original nxt
             else do {
               (path', removed) \<leftarrow> ur_splice path (ws, we) [CHR ''{'', char_of (unat nxt), CHR ''}''];
               (let nxt' = nxt + 1 in
                if nxt' \<le> 122
                then normalize_params_loop path' (ws + 3) (original @ [butlast (drop 1 removed)]) nxt'
                else None)
             }))
     }"

declare normalize_params_loop.simps [code]

definition normalize_params :: "unescaped_route \<Rightarrow> (insert_error + unescaped_route \<times> string list) option" where
  "normalize_params path = normalize_params_loop path 0 [] 97"

partial_function (option) denormalize_params_loop ::
  "unescaped_route \<Rightarrow> string list \<Rightarrow> nat \<Rightarrow> nat \<Rightarrow> unescaped_route option" where
  "denormalize_params_loop route params start i =
     do {
       rest \<leftarrow> rf_slice_off (ur_as_ref route) start;
       (case find_wildcard rest of
          Inl e \<Rightarrow> None
        | Inr None \<Rightarrow> Some route
        | Inr (Some (s, e)) \<Rightarrow>
            (let ws = s + start; we = e + start in
             if i < length params then do {
               let nxt = CHR ''{'' # params ! i @ [CHR ''}''];
               (route', removed) \<leftarrow> ur_splice route (ws, we) nxt;
               denormalize_params_loop route' params (ws + length nxt) (i + 1)
             }
             else Some route))
     }"

declare denormalize_params_loop.simps [code]

definition denormalize_params :: "unescaped_route \<Rightarrow> string list \<Rightarrow> unescaped_route option" where
  "denormalize_params route params = denormalize_params_loop route params 0 0"

lemma escape_examples:
  "map_option (map_sum id (\<lambda>(r, n). (ur_inner r, n))) (normalize_params (ur_new ''/{foo}/x{{y}}/{bar}.png'')) =
     Some (Inr (''/{a}/x{y}/{b}.png'', [''foo'', ''bar'']))"
  "map_option (map_sum id (\<lambda>(r, n). (ur_inner r, n))) (normalize_params (ur_new ''/{f}{{bar'')) = Some (Inr (''/{a}{bar'', [''f'']))"
  "normalize_params (ur_new ''/{foo}{{bar'') = Some (Inl InvalidParam)"
  by code_simp+

end
