(* ===== verification/Route_Params.thy ===== *)
theory Route_Params
  imports Ascii
begin

text \<open>
  The parameters of a match, \<^verbatim>\<open>libs/ophan-router/src/params.rs\<close>: up to three in an inline array, more in a vector. Both
  forms stand for the list of parameters; the locale below states the laws the tree search relies on.
\<close>

record param =
  pm_key :: string
  pm_value :: string

definition EMPTY_PARAM :: param where
  "EMPTY_PARAM = \<lparr>pm_key = [], pm_value = []\<rparr>"

definition SMALL :: nat where "SMALL = 3"

datatype params = Small "param list" nat | Large "param list"

definition params_new :: params where
  "params_new = Small (replicate SMALL EMPTY_PARAM) 0"

fun params_len :: "params \<Rightarrow> nat" where
  "params_len (Small arr n) = n"
| "params_len (Large vec) = length vec"

fun params_truncate :: "params \<Rightarrow> nat \<Rightarrow> params" where
  "params_truncate (Small arr m) n = Small arr n"
| "params_truncate (Large vec) n = Large (take n vec)"

text \<open>The text of a key or value; a byte string that is not UTF-8 panics.\<close>

definition from_utf8_unwrap :: "string \<Rightarrow> string option" where
  "from_utf8_unwrap s = (if utf8_valid s then Some s else None)"

definition first_value :: "string \<Rightarrow> param list \<Rightarrow> string option option" where
  "first_value key ps =
     (case find (\<lambda>param. pm_key param = key) ps of
        None \<Rightarrow> Some None
      | Some param \<Rightarrow> map_option Some (from_utf8_unwrap (pm_value param)))"

fun params_get :: "params \<Rightarrow> string \<Rightarrow> string option option" where
  "params_get (Small arr n) key = first_value key (take n arr)"
| "params_get (Large vec) key = first_value key vec"

fun params_is_empty :: "params \<Rightarrow> bool" where
  "params_is_empty (Small arr n) = (n = 0)"
| "params_is_empty (Large vec) = (vec = [])"

definition drain_to_vec :: "param \<Rightarrow> param list \<Rightarrow> param list" where
  "drain_to_vec elem arr = arr @ [elem]"

fun params_push :: "params \<Rightarrow> string \<Rightarrow> string \<Rightarrow> params" where
  "params_push (Small arr n) key value =
     (if n \<ge> SMALL then Large (drain_to_vec \<lparr>pm_key = key, pm_value = value\<rparr> arr)
      else Small (arr[n := \<lparr>pm_key = key, pm_value = value\<rparr>]) (n + 1))"
| "params_push (Large vec) key value = Large (vec @ [\<lparr>pm_key = key, pm_value = value\<rparr>])"

text \<open>The entries of a list changed by a function of their position, which may panic.\<close>

fun for_each_entry :: "(nat \<Rightarrow> param \<Rightarrow> param option) \<Rightarrow> nat \<Rightarrow> param list \<Rightarrow> param list option" where
  "for_each_entry f i [] = Some []"
| "for_each_entry f i (p # ps) =
     (case f i p of
        None \<Rightarrow> None
      | Some p' \<Rightarrow> map_option (\<lambda>ps'. p' # ps') (for_each_entry f (i + 1) ps))"

fun for_each_key_mut :: "(nat \<Rightarrow> param \<Rightarrow> param option) \<Rightarrow> params \<Rightarrow> params option" where
  "for_each_key_mut f (Small arr n) = map_option (\<lambda>ps. Small (ps @ drop n arr) n) (for_each_entry f 0 (take n arr))"
| "for_each_key_mut f (Large vec) = map_option Large (for_each_entry f 0 vec)"

fun params_entries :: "params \<Rightarrow> param list" where
  "params_entries (Small arr n) = take n arr"
| "params_entries (Large vec) = vec"

fun iter_items :: "param list \<Rightarrow> (string \<times> string) list option" where
  "iter_items [] = Some []"
| "iter_items (p # ps) =
     (case (from_utf8_unwrap (pm_key p), from_utf8_unwrap (pm_value p)) of
        (Some k, Some v) \<Rightarrow> map_option (\<lambda>items. (k, v) # items) (iter_items ps)
      | _ \<Rightarrow> None)"

definition params_iter :: "params \<Rightarrow> (string \<times> string) list option" where
  "params_iter p = iter_items (params_entries p)"

section \<open>Parameters as a list\<close>

fun params_wf :: "params \<Rightarrow> bool" where
  "params_wf (Small arr n) = (length arr = SMALL \<and> n \<le> SMALL)"
| "params_wf (Large vec) = True"

definition remap_keys :: "string list \<Rightarrow> nat \<Rightarrow> param \<Rightarrow> param option" where
  "remap_keys names i p = (if i < length names then Some (p\<lparr>pm_key := names ! i\<rparr>) else None)"

definition named :: "string list \<Rightarrow> string list \<Rightarrow> param list" where
  "named names values = map2 (\<lambda>k v. \<lparr>pm_key = k, pm_value = v\<rparr>) names values"

locale param_store =
  fixes wf :: "'p \<Rightarrow> bool"
    and entries :: "'p \<Rightarrow> param list"
    and new :: 'p
    and push :: "'p \<Rightarrow> string \<Rightarrow> string \<Rightarrow> 'p"
    and truncate :: "'p \<Rightarrow> nat \<Rightarrow> 'p"
    and len :: "'p \<Rightarrow> nat"
    and each_key :: "(nat \<Rightarrow> param \<Rightarrow> param option) \<Rightarrow> 'p \<Rightarrow> 'p option"
  assumes new_law: "wf new" "entries new = []"
    and push_law: "wf p \<Longrightarrow> wf (push p k v)" "wf p \<Longrightarrow> entries (push p k v) = entries p @ [\<lparr>pm_key = k, pm_value = v\<rparr>]"
    and truncate_law: "wf p \<Longrightarrow> n \<le> len p \<Longrightarrow> wf (truncate p n)" "wf p \<Longrightarrow> n \<le> len p \<Longrightarrow> entries (truncate p n) = take n (entries p)"
    and len_law: "wf p \<Longrightarrow> len p = length (entries p)"
    and each_key_law: "wf p \<Longrightarrow> for_each_entry f 0 (entries p) = Some es \<Longrightarrow> \<exists>p'. each_key f p = Some p' \<and> wf p' \<and> entries p' = es"
begin

abbreviation values_of :: "'p \<Rightarrow> string list" where
  "values_of p \<equiv> map pm_value (entries p)"

lemma push_values: "wf p \<Longrightarrow> values_of (push p k v) = values_of p @ [v]"
  by (simp add: push_law)

lemma truncate_values: "wf p \<Longrightarrow> n \<le> length (values_of p) \<Longrightarrow> values_of (truncate p n) = take n (values_of p)"
  by (simp add: truncate_law len_law take_map)

end

lemma for_each_remap:
  assumes "length ps + i = length names"
  shows "for_each_entry (remap_keys names) i ps = Some (named (drop i names) (map pm_value ps))"
  using assms
proof (induction ps arbitrary: i)
  case Nil
  then show ?case by (simp add: named_def)
next
  case (Cons p ps)
  then have i: "i < length names" by simp
  have "for_each_entry (remap_keys names) (Suc i) ps = Some (named (drop (Suc i) names) (map pm_value ps))"
    using Cons.IH [of "Suc i"] Cons.prems by simp
  moreover have "drop i names = names ! i # drop (Suc i) names" using i by (rule Cons_nth_drop_Suc [symmetric])
  moreover have "remap_keys names i p = Some \<lparr>pm_key = names ! i, pm_value = pm_value p\<rparr>" using i by (simp add: remap_keys_def)
  ultimately show ?case by (simp add: named_def)
qed

lemma for_each_length: "for_each_entry f i ps = Some es \<Longrightarrow> length es = length ps"
  by (induction ps arbitrary: i es) (auto split: option.splits)

lemma params_push_ok:
  assumes "params_wf p"
  shows "params_wf (params_push p k v)" "params_entries (params_push p k v) = params_entries p @ [\<lparr>pm_key = k, pm_value = v\<rparr>]"
proof -
  have "params_wf (params_push p k v) \<and> params_entries (params_push p k v) = params_entries p @ [\<lparr>pm_key = k, pm_value = v\<rparr>]"
  proof (cases p)
    case (Small arr n)
    show ?thesis
    proof (cases "n \<ge> SMALL")
      case True
      then show ?thesis using Small assms by (simp add: drain_to_vec_def)
    next
      case False
      then show ?thesis using Small assms by (simp add: take_Suc_conv_app_nth)
    qed
  qed (use assms in simp)
  then show "params_wf (params_push p k v)" "params_entries (params_push p k v) = params_entries p @ [\<lparr>pm_key = k, pm_value = v\<rparr>]"
    by simp_all
qed

interpretation ps: param_store params_wf params_entries params_new params_push params_truncate params_len for_each_key_mut
proof unfold_locales
  show "params_wf params_new" "params_entries params_new = []" by (simp_all add: params_new_def)
next
  fix p k v assume "params_wf p"
  then show "params_wf (params_push p k v)" "params_entries (params_push p k v) = params_entries p @ [\<lparr>pm_key = k, pm_value = v\<rparr>]"
    by (rule params_push_ok)+
next
  fix p n assume "params_wf p" "n \<le> params_len p"
  then show "params_wf (params_truncate p n)" "params_entries (params_truncate p n) = take n (params_entries p)"
    by (cases p; simp add: min_def)+
next
  fix p assume "params_wf p"
  then show "params_len p = length (params_entries p)" by (cases p) simp_all
next
  fix p f es assume "params_wf p" "for_each_entry f 0 (params_entries p) = Some es"
  then show "\<exists>p'. for_each_key_mut f p = Some p' \<and> params_wf p' \<and> params_entries p' = es"
    using for_each_length [of f 0 "params_entries p" es] by (cases p) auto
qed

text \<open>C34. The parameter list behaves as the list of its entries whether it is stored inline or on the heap: pushing
  appends, truncating to a length within it keeps that many, the length, emptiness and lookup by key (the first entry
  of that key) agree with the list, and renaming the keys with as many names gives each entry its name.\<close>

theorem params_refine_list:
  assumes "params_wf p"
  shows "params_entries params_new = [] \<and>
     params_wf (params_push p k v) \<and> params_entries (params_push p k v) = params_entries p @ [\<lparr>pm_key = k, pm_value = v\<rparr>] \<and>
     params_len p = length (params_entries p) \<and> (params_is_empty p \<longleftrightarrow> params_entries p = []) \<and>
     params_get p key = first_value key (params_entries p) \<and>
     (n \<le> params_len p \<longrightarrow> params_wf (params_truncate p n) \<and> params_entries (params_truncate p n) = take n (params_entries p)) \<and>
     (length names = params_len p \<longrightarrow>
        (\<exists>p'. for_each_key_mut (remap_keys names) p = Some p' \<and> params_wf p' \<and>
          params_entries p' = named names (map pm_value (params_entries p))))"
proof (intro conjI impI)
  show "params_is_empty p \<longleftrightarrow> params_entries p = []" using assms by (cases p) (auto simp: SMALL_def)
  show "params_get p key = first_value key (params_entries p)" by (cases p) simp_all
  assume "length names = params_len p"
  then have "for_each_entry (remap_keys names) 0 (params_entries p) = Some (named names (map pm_value (params_entries p)))"
    using for_each_remap [of "params_entries p" 0 names] ps.len_law [OF assms] by simp
  then show "\<exists>p'. for_each_key_mut (remap_keys names) p = Some p' \<and> params_wf p' \<and>
      params_entries p' = named names (map pm_value (params_entries p))"
    by (rule ps.each_key_law [OF assms])
qed (use assms in \<open>simp_all add: ps.new_law ps.push_law ps.truncate_law ps.len_law\<close>)

definition three_params :: params where
  "three_params = params_push (params_push (params_push params_new ''a'' ''1'') ''b'' ''2'') ''a'' ''3''"

theorem params_refine_list_witness:
  "params_wf three_params \<and> params_entries (params_push three_params ''d'' ''4'') = params_entries three_params @ [\<lparr>pm_key = ''d'', pm_value = ''4''\<rparr>] \<and>
   params_get three_params ''a'' = Some (Some ''1'') \<and> params_entries (params_truncate three_params 2) = take 2 (params_entries three_params) \<and>
   (\<exists>p'. for_each_key_mut (remap_keys [''x'', ''y'', ''z'']) three_params = Some p')"
proof -
  have "params_wf three_params" "params_len three_params = 3" "first_value ''a'' (params_entries three_params) = Some (Some ''1'')"
    by code_simp+
  then show ?thesis
    using params_refine_list [of three_params "''d''" "''4''" "''a''" 2 "[''x'', ''y'', ''z'']"] by auto
qed

end
