(* ===== verification/Route_Tree.thy ===== *)
theory Route_Tree
  imports Route_Escape Route_Params
begin

text \<open>
  The radix tree of the router, \<^verbatim>\<open>libs/ophan-router/src/tree.rs\<close>, and the errors of \<^verbatim>\<open>error.rs\<close> it builds: insertion,
  removal, the search with backtracking and the traversal. A walk that moves a mutable reference down the tree is a
  recursion that gives the changed subtree back. \<open>None\<close> stands for a panic or a walk without end.
\<close>

section \<open>Nodes\<close>

datatype node_type = Root | Param bool | CatchAll | Static

datatype 'v rnode = Node
  (nd_prefix: unescaped_route)
  (nd_priority: u32)
  (nd_wild_child: bool)
  (nd_indices: string)
  (nd_type: node_type)
  (nd_children: "'v rnode list")
  (nd_value: "'v option")
  (nd_remapping: "string list")

definition node_default :: "'v rnode" where
  "node_default = Node ur_default 0 False [] Static [] None []"

primrec set_prefix :: "unescaped_route \<Rightarrow> 'v rnode \<Rightarrow> 'v rnode" where
  "set_prefix p (Node pre pri wild idx ty cs v rm) = Node p pri wild idx ty cs v rm"

primrec add_priority :: "'v rnode \<Rightarrow> 'v rnode" where
  "add_priority (Node pre pri wild idx ty cs v rm) = Node pre (pri + 1) wild idx ty cs v rm"

primrec set_wild_child :: "bool \<Rightarrow> 'v rnode \<Rightarrow> 'v rnode" where
  "set_wild_child w (Node pre pri wild idx ty cs v rm) = Node pre pri w idx ty cs v rm"

primrec set_indices :: "string \<Rightarrow> 'v rnode \<Rightarrow> 'v rnode" where
  "set_indices is (Node pre pri wild idx ty cs v rm) = Node pre pri wild is ty cs v rm"

primrec set_type :: "node_type \<Rightarrow> 'v rnode \<Rightarrow> 'v rnode" where
  "set_type t (Node pre pri wild idx ty cs v rm) = Node pre pri wild idx t cs v rm"

primrec set_children :: "'v rnode list \<Rightarrow> 'v rnode \<Rightarrow> 'v rnode" where
  "set_children ds (Node pre pri wild idx ty cs v rm) = Node pre pri wild idx ty ds v rm"

primrec set_value :: "'v option \<Rightarrow> 'v rnode \<Rightarrow> 'v rnode" where
  "set_value u (Node pre pri wild idx ty cs v rm) = Node pre pri wild idx ty cs u rm"

primrec set_remapping :: "string list \<Rightarrow> 'v rnode \<Rightarrow> 'v rnode" where
  "set_remapping r (Node pre pri wild idx ty cs v rm) = Node pre pri wild idx ty cs v r"

definition update_child :: "nat \<Rightarrow> 'v rnode \<Rightarrow> 'v rnode \<Rightarrow> 'v rnode" where
  "update_child i child node = set_children ((nd_children node)[i := child]) node"

abbreviation nd_bytes :: "'v rnode \<Rightarrow> string" where
  "nd_bytes node \<equiv> ur_inner (nd_prefix node)"

definition is_param :: "node_type \<Rightarrow> bool" where
  "is_param t \<longleftrightarrow> (case t of Param suffix \<Rightarrow> True | _ \<Rightarrow> False)"

definition empty_or_slash :: "string \<Rightarrow> bool" where
  "empty_or_slash s \<longleftrightarrow> s = '''' \<or> s = ''/''"

text \<open>The end of the segment that \<open>s\<close> starts in, its slash included.\<close>

definition segment_end :: "string \<Rightarrow> nat" where
  "segment_end s = (case position (\<lambda>b. b = CHR ''/'') s of Some b \<Rightarrow> b + 1 | None \<Rightarrow> length s)"

section \<open>Wildcards within a segment\<close>

fun wild_child_in_segment :: "'v rnode \<Rightarrow> bool" where
  "wild_child_in_segment (Node pre pri wild idx ty cs v rm) \<longleftrightarrow>
     (if CHR ''/'' \<in> set (ur_inner pre) then False
      else if is_param ty then True
      else list_ex wild_child_in_segment cs)"

fun prefix_wild_child_in_segment :: "'v rnode \<Rightarrow> bool" where
  "prefix_wild_child_in_segment (Node pre pri wild idx ty cs v rm) \<longleftrightarrow>
     (if ty = Root \<and> ur_inner pre = [] then False
      else if ends_with (ur_inner pre) ''/'' then list_ex prefix_wild_child_in_segment cs
      else list_ex wild_child_in_segment cs)"

fun suffix_wild_child_in_segment :: "'v rnode \<Rightarrow> bool" where
  "suffix_wild_child_in_segment (Node pre pri wild idx ty cs v rm) \<longleftrightarrow>
     (if ty = Param True then True
      else list_ex (\<lambda>child. if CHR ''/'' \<in> set (nd_bytes child) then False else suffix_wild_child_in_segment child) cs)"

section \<open>Children\<close>

definition insert_at :: "nat \<Rightarrow> 'a \<Rightarrow> 'a list \<Rightarrow> 'a list" where
  "insert_at i x xs = take i xs @ x # drop i xs"

definition add_child :: "'v rnode \<Rightarrow> 'v rnode \<Rightarrow> 'v rnode \<times> nat" where
  "add_child node child =
     (let len = length (nd_children node) in
      if nd_wild_child node \<and> len > 0
      then (set_children (insert_at (len - 1) child (nd_children node)) node, len - 1)
      else (set_children (nd_children node @ [child]) node, len))"

text \<open>\<^verbatim>\<open>slice::partition_point\<close> of the standard library.\<close>

definition partition_point :: "('a \<Rightarrow> bool) \<Rightarrow> 'a list \<Rightarrow> nat" where
  "partition_point pred xs =
     (case binary_search_by (\<lambda>x. if pred x then Less else Greater) xs of Inr i \<Rightarrow> i | Inl i \<Rightarrow> i)"

definition add_suffix_child :: "'v rnode \<Rightarrow> 'v rnode \<Rightarrow> 'v rnode \<times> nat" where
  "add_suffix_child node child =
     (let i = partition_point (\<lambda>n. length (nd_bytes n) \<ge> length (nd_bytes child)) (nd_children node)
      in (set_children (insert_at i child (nd_children node)) node, i))"

fun move_front :: "nat \<Rightarrow> u32 \<Rightarrow> 'v rnode list \<Rightarrow> 'v rnode list \<times> nat" where
  "move_front 0 priority cs = (cs, 0)"
| "move_front (Suc u) priority cs =
     (if nd_priority (cs ! u) < priority
      then move_front u priority (cs[u := cs ! Suc u, Suc u := cs ! u])
      else (cs, Suc u))"

definition rotate_index :: "nat \<Rightarrow> nat \<Rightarrow> string \<Rightarrow> string option" where
  "rotate_index updated i idx =
     (if i < length idx
      then Some (take updated idx @ [idx ! i] @ drop updated (take i idx) @ drop (Suc i) idx)
      else None)"

definition update_child_priority :: "'v rnode \<Rightarrow> nat \<Rightarrow> ('v rnode \<times> nat) option" where
  "update_child_priority node i =
     (if i < length (nd_children node) then
        let cs = (nd_children node)[i := add_priority (nd_children node ! i)];
            (cs, updated) = move_front i (nd_priority (cs ! i)) cs;
            node = set_children cs node
        in if updated \<noteq> i
           then map_option (\<lambda>idx. (set_indices idx node, updated)) (rotate_index updated i (nd_indices node))
           else Some (node, updated)
      else None)"

section \<open>Insertion\<close>

text \<open>
  Why a walk failed: a conflict of the bytes that were left with a node, from which \<^verbatim>\<open>InsertError::conflict\<close> renders
  its message, or an error of the route itself.
\<close>

datatype 'v insert_fault = Clash unescaped_ref "'v rnode" | Bad insert_error

text \<open>
  Inserts a route into a node with no value yet. The node that takes the value also takes the remapping, which the
  callers in the source store through the reference they get back.
\<close>

partial_function (option) insert_route ::
  "string list \<Rightarrow> 'v \<Rightarrow> 'v rnode \<Rightarrow> unescaped_ref \<Rightarrow> ('v rnode \<times> ('v insert_fault + unit)) option" where
  "insert_route remapping val node prefix =
     (case find_wildcard prefix of
        Inl e \<Rightarrow> Some (node, Inl (Bad e))
      | Inr None \<Rightarrow>
          Some (set_remapping remapping (set_prefix (rf_to_owned prefix) (set_value (Some val) node)), Inr ())
      | Inr (Some (ws, we)) \<Rightarrow>
          if rf_inner prefix ! (ws + 1) = CHR ''*'' then
            if we \<noteq> length (rf_inner prefix) then Some (node, Inl (Bad InvalidCatchAll))
            else do {
              front \<leftarrow> rf_slice_until prefix ws;
              rest \<leftarrow> rf_slice_off prefix ws;
              let node = (if ws > 0 then set_prefix (rf_to_owned front) node else node);
              let child = Node (rf_to_owned rest) 1 False [] CatchAll [] (Some val) remapping;
              let (node, i) = add_child node child;
              Some (set_wild_child True node, Inr ())
            }
          else do {
            front \<leftarrow> rf_slice_until prefix ws;
            rest \<leftarrow> rf_slice_off prefix ws;
            let node = (if ws > 0 then set_prefix (rf_to_owned front) node else node);
            let terminator = segment_end (rf_inner rest);
            wildcard \<leftarrow> rf_slice_until rest (we - ws);
            segment \<leftarrow> rf_slice_until rest terminator;
            suffix \<leftarrow> rf_slice_off segment (length (rf_inner wildcard));
            rest \<leftarrow> rf_slice_off rest terminator;
            (if (case find_wildcard suffix of Inr (Some w) \<Rightarrow> True | _ \<Rightarrow> False)
             then Some (node, Inl (Bad InvalidParamSegment))
             else do {
               let has_suffix = (\<not> empty_or_slash (rf_inner suffix));
               let param = Node (rf_to_owned wildcard) 1 False [] (Param has_suffix) [] None [];
               let last = (if rf_inner suffix \<noteq> [] then Node (rf_to_owned suffix) 1 False [] Static [] None [] else param);
               let at_last = (\<lambda>last. let param = (if rf_inner suffix \<noteq> [] then fst (add_suffix_child param last) else last)
                                     in set_wild_child True (fst (add_child node param)));
               (if rf_inner rest = [] then Some (at_last (set_remapping remapping (set_value (Some val) last)), Inr ())
                else if rf_inner rest ! 0 \<noteq> CHR ''{'' \<or> rf_is_escaped rest 0 then do {
                  (child, res) \<leftarrow> insert_route remapping val (add_priority node_default) rest;
                  Some (at_last (fst (add_child (set_indices (nd_indices last @ [rf_inner rest ! 0]) last) child)), res)
                }
                else do {
                  (last, res) \<leftarrow> insert_route remapping val last rest;
                  Some (at_last last, res)
                })
             })
          })"

declare insert_route.simps [code]

text \<open>The number of leading bytes that a route and a node's prefix share, marks included.\<close>

definition common_prefix_len :: "unescaped_ref \<Rightarrow> 'v rnode \<Rightarrow> nat" where
  "common_prefix_len remaining node =
     (let len = min (length (rf_inner remaining)) (length (nd_bytes node)) in
      case find (\<lambda>i. rf_inner remaining ! i \<noteq> nd_bytes node ! i \<or>
                   rf_is_escaped remaining i \<noteq> ur_is_escaped (nd_prefix node) i) [0..<len] of
        Some i \<Rightarrow> i
      | None \<Rightarrow> len)"

definition fork_node :: "nat \<Rightarrow> 'v rnode \<Rightarrow> 'v rnode option" where
  "fork_node common node =
     do {
       suffix \<leftarrow> rf_slice_off (ur_as_ref (nd_prefix node)) common;
       front \<leftarrow> rf_slice_until (ur_as_ref (nd_prefix node)) common;
       let child = Node (rf_to_owned suffix) (nd_priority node - 1) (nd_wild_child node) (nd_indices node) Static
                     (nd_children node) (nd_value node) (nd_remapping node);
       Some (Node (rf_to_owned front) (nd_priority node) False [nd_bytes node ! common] (nd_type node) [child] None [])
     }"

text \<open>
  The scan of the suffixes of a parameter: the index of the child that has this suffix, and whether some child before
  it differs by a trailing slash.
\<close>

definition slash_apart :: "string \<Rightarrow> string \<Rightarrow> bool" where
  "slash_apart prefix suffix \<longleftrightarrow>
     (if length prefix \<le> length suffix
      then take (length prefix) suffix = prefix \<and> drop (length prefix) suffix = ''/''
      else take (length suffix) prefix = suffix \<and> drop (length suffix) prefix = ''/'')"

fun suffix_scan :: "string \<Rightarrow> nat \<Rightarrow> bool \<Rightarrow> 'v rnode list \<Rightarrow> nat option \<times> bool" where
  "suffix_scan suffix i extra [] = (None, extra)"
| "suffix_scan suffix i extra (child # children) =
     (if nd_bytes child = suffix then (Some i, extra)
      else suffix_scan suffix (i + 1) (extra \<or> slash_apart (nd_bytes child) suffix) children)"

text \<open>The child whose index is the next byte; an unescaped brace has none.\<close>

fun find_index :: "char \<Rightarrow> bool \<Rightarrow> nat \<Rightarrow> string \<Rightarrow> nat option" where
  "find_index nxt escaped i [] = None"
| "find_index nxt escaped i (c # cs) =
     (if nxt = c \<and> \<not> ((nxt = CHR ''{'' \<or> nxt = CHR ''}'') \<and> \<not> escaped) then Some i
      else find_index nxt escaped (i + 1) cs)"

text \<open>The conflicts of a parameter's suffix and a static prefix that leads to it.\<close>

definition wildcard_end :: "unescaped_ref \<Rightarrow> (nat \<times> nat) option" where
  "wildcard_end r = (case find_wildcard r of Inr (Some w) \<Rightarrow> Some w | _ \<Rightarrow> None)"

definition static_conflict :: "unescaped_ref \<Rightarrow> 'v rnode \<Rightarrow> bool option" where
  "static_conflict remaining node =
     do {
       let terminator = (case position (\<lambda>b. b = CHR ''/'') (rf_inner remaining) of Some b \<Rightarrow> b | None \<Rightarrow> length (rf_inner remaining));
       segment \<leftarrow> rf_slice_until remaining terminator;
       (case wildcard_end segment of
          None \<Rightarrow> Some False
        | Some (ws, we) \<Rightarrow>
            if ws > 0 \<and> suffix_wild_child_in_segment node then Some True
            else do {
              suffix \<leftarrow> rf_slice_off segment we;
              Some (\<not> empty_or_slash (rf_inner suffix) \<and> prefix_wild_child_in_segment node)
            })
     }"

definition same_param_conflict :: "unescaped_ref \<Rightarrow> 'v rnode \<Rightarrow> 'v rnode \<Rightarrow> bool option" where
  "same_param_conflict remaining parent node =
     (if \<not> ends_with (nd_bytes parent) ''/'' \<and> nd_type node = Param True then do {
        segment \<leftarrow> rf_slice_until remaining (segment_end (rf_inner remaining));
        (case wildcard_end segment of
           None \<Rightarrow> Some False
         | Some (ws, we) \<Rightarrow> do {
             suffix \<leftarrow> rf_slice_off remaining we;
             Some (empty_or_slash (rf_inner suffix))
           })
      }
      else Some False)"

definition new_param_conflict :: "unescaped_ref \<Rightarrow> nat \<Rightarrow> unescaped_ref \<Rightarrow> 'v rnode \<Rightarrow> bool option" where
  "new_param_conflict common_remaining common remaining node =
     (case wildcard_end remaining of
        None \<Rightarrow> Some False
      | Some (ws, we) \<Rightarrow> do {
          suffix \<leftarrow> rf_slice_off remaining we;
          Some ((\<not> empty_or_slash (rf_inner suffix) \<and> prefix_wild_child_in_segment node) \<or>
                (common > 0 \<and> rf_inner common_remaining ! (common - 1) \<noteq> CHR ''/'' \<and> suffix_wild_child_in_segment node))
        })"

text \<open>
  The walk of an insertion at \<open>node\<close>. The parent is given with the index of the node, so that a test on the parent
  sees the node as it is now.
\<close>

definition parent_now :: "('v rnode \<times> nat) option \<Rightarrow> 'v rnode \<Rightarrow> 'v rnode option" where
  "parent_now parent node = map_option (\<lambda>(p, i). update_child i node p) parent"

definition insert_new_suffix ::
  "string list \<Rightarrow> 'v \<Rightarrow> bool \<Rightarrow> 'v rnode \<Rightarrow> unescaped_ref \<Rightarrow> unescaped_ref \<Rightarrow> nat \<Rightarrow> ('v rnode \<times> ('v insert_fault + unit)) option" where
  "insert_new_suffix remapping val has_suffix node remaining suffix terminator =
     do {
       let has_suffix = (has_suffix \<or> \<not> empty_or_slash (rf_inner suffix));
       let node = set_type (Param has_suffix) node;
       let child = Node (rf_to_owned suffix) 1 False [] Static [] None [];
       rest \<leftarrow> rf_slice_off remaining terminator;
       (if terminator = length (rf_inner remaining)
        then Some (fst (add_suffix_child node (set_remapping remapping (set_value (Some val) child))), Inr ())
        else if rf_inner rest ! 0 \<noteq> CHR ''{'' \<or> rf_is_escaped rest 0 then do {
          (last, res) \<leftarrow> insert_route remapping val (add_priority node_default) rest;
          Some (fst (add_suffix_child node (fst (add_child (set_indices (nd_indices child @ [rf_inner rest ! 0]) child) last))), res)
        }
        else do {
          (last, res) \<leftarrow> insert_route remapping val child rest;
          Some (fst (add_suffix_child node last), res)
        })
     }"

partial_function (option) insert_walk ::
  "string list \<Rightarrow> 'v \<Rightarrow> ('v rnode \<times> nat) option \<Rightarrow> 'v rnode \<Rightarrow> unescaped_ref \<Rightarrow> ('v rnode \<times> ('v insert_fault + unit)) option" where
  "insert_walk remapping val parent node remaining =
     (let common = common_prefix_len remaining node in
      if length (nd_bytes node) > common then do {
        node \<leftarrow> fork_node common node;
        insert_walk remapping val parent node remaining
      }
      else if length (rf_inner remaining) = common then
        (if nd_value node \<noteq> None then Some (node, Inl (Clash remaining node))
         else Some (set_remapping remapping (set_value (Some val) node), Inr ()))
      else do {
        let common_remaining = remaining;
        remaining \<leftarrow> rf_slice_off remaining common;
        let nxt = rf_inner remaining ! 0;
        (case nd_type node of
           Param has_suffix \<Rightarrow> do {
             let terminator = segment_end (rf_inner remaining);
             suffix \<leftarrow> rf_slice_until remaining terminator;
             (case suffix_scan (rf_inner suffix) 0 False (nd_children node) of
                (Some i, extra) \<Rightarrow> do {
                  let child = add_priority (nd_children node ! i);
                  (child, res) \<leftarrow> insert_walk remapping val (Some (update_child i child node, i)) child remaining;
                  Some (update_child i child node, res)
                }
              | (None, extra) \<Rightarrow>
                  (case (if \<not> extra \<and> \<not> empty_or_slash (rf_inner suffix) then parent_now parent node else None) of
                     Some p \<Rightarrow>
                       if prefix_wild_child_in_segment p then Some (node, Inl (Clash common_remaining p))
                       else if wildcard_end suffix \<noteq> None then Some (node, Inl (Bad InvalidParamSegment))
                       else insert_new_suffix remapping val has_suffix node remaining suffix terminator
                   | None \<Rightarrow>
                       if wildcard_end suffix \<noteq> None then Some (node, Inl (Bad InvalidParamSegment))
                       else insert_new_suffix remapping val has_suffix node remaining suffix terminator))
           }
         | _ \<Rightarrow>
             (case find_index nxt (rf_is_escaped remaining 0) 0 (nd_indices node) of
                Some i \<Rightarrow> do {
                  (node, i) \<leftarrow> update_child_priority node i;
                  (child, res) \<leftarrow> insert_walk remapping val (Some (node, i)) (nd_children node ! i) remaining;
                  Some (update_child i child node, res)
                }
              | None \<Rightarrow>
                  if (nxt \<noteq> CHR ''{'' \<or> rf_is_escaped remaining 0) \<and> nd_type node \<noteq> CatchAll then do {
                    conflict \<leftarrow> static_conflict remaining node;
                    (if conflict then Some (node, Inl (Clash remaining node))
                     else do {
                       let (node, i) = add_child (set_indices (nd_indices node @ [nxt]) node) node_default;
                       (node, i) \<leftarrow> update_child_priority node i;
                       (child, res) \<leftarrow> insert_route remapping val (nd_children node ! i) remaining;
                       Some (update_child i child node, res)
                     })
                  }
                  else if nd_wild_child node then
                    (if nd_children node = [] then None
                     else do {
                       let i = length (nd_children node) - 1;
                       let child = add_priority (nd_children node ! i);
                       let node = update_child i child node;
                       (if (length (nd_bytes child) \<le> length (rf_inner remaining) \<and>
                            take (length (nd_bytes child)) (rf_inner remaining) \<noteq> nd_bytes child) \<or>
                           nd_type child = CatchAll
                        then Some (node, Inl (Clash remaining child))
                        else do {
                          conflict \<leftarrow> same_param_conflict remaining node child;
                          (if conflict then Some (node, Inl (Clash remaining node))
                           else do {
                             (child, res) \<leftarrow> insert_walk remapping val (Some (node, i)) child remaining;
                             Some (update_child i child node, res)
                           })
                        })
                     })
                  else do {
                    conflict \<leftarrow> new_param_conflict common_remaining common remaining node;
                    (if conflict then Some (node, Inl (Clash remaining node))
                     else insert_route remapping val node remaining)
                  }))
      })"

declare insert_walk.simps [code]

text \<open>The route of the conflict, as \<^verbatim>\<open>InsertError::conflict\<close> renders it.\<close>

fun append_first_children :: "unescaped_route \<Rightarrow> 'v rnode \<Rightarrow> unescaped_route \<times> 'v rnode" where
  "append_first_children route (Node pre pri wild idx ty [] v rm) = (route, Node pre pri wild idx ty [] v rm)"
| "append_first_children route (Node pre pri wild idx ty (c # cs) v rm) =
     append_first_children (ur_append route (nd_prefix c)) c"

definition conflict_error :: "unescaped_route \<Rightarrow> unescaped_ref \<Rightarrow> 'v rnode \<Rightarrow> insert_error option" where
  "conflict_error route prefix current =
     do {
       route \<leftarrow>
         (if rf_inner prefix = nd_bytes current then denormalize_params route (nd_remapping current)
          else if length (rf_inner prefix) \<le> length (ur_inner route) then
            (let route = ur_truncate route (length (ur_inner route) - length (rf_inner prefix));
                 route = (if ends_with (ur_inner route) (nd_bytes current) then route else ur_append route (nd_prefix current));
                 (route, last) = append_first_children route current
             in denormalize_params route (nd_remapping last))
          else None);
       map_option Conflict (from_utf8_unwrap (ur_inner route))
     }"

text \<open>The insertion up to the rendering of a conflict.\<close>

definition insert_normalized :: "unescaped_route \<Rightarrow> string list \<Rightarrow> 'v \<Rightarrow> 'v rnode \<Rightarrow> ('v rnode \<times> ('v insert_fault + unit)) option" where
  "insert_normalized route remapping val node =
     do {
       let node = add_priority node;
       (if nd_value node = None \<and> nd_children node = [] then do {
          (node, res) \<leftarrow> insert_route remapping val node (ur_as_ref route);
          Some (case res of Inl e \<Rightarrow> node | Inr u \<Rightarrow> set_type Root node, res)
        }
        else insert_walk remapping val None node (ur_as_ref route))
     }"

definition node_insert :: "string \<Rightarrow> 'v \<Rightarrow> 'v rnode \<Rightarrow> ('v rnode \<times> (insert_error + unit)) option" where
  "node_insert route val node =
     do {
       normalized \<leftarrow> normalize_params (ur_new route);
       (case normalized of
          Inl e \<Rightarrow> Some (node, Inl e)
        | Inr (route, remapping) \<Rightarrow> do {
            (node, res) \<leftarrow> insert_normalized route remapping val node;
            (case res of
               Inr u \<Rightarrow> Some (node, Inr ())
             | Inl (Bad e) \<Rightarrow> Some (node, Inl e)
             | Inl (Clash prefix current) \<Rightarrow> do {
                 e \<leftarrow> conflict_error route prefix current;
                 Some (node, Inl e)
               })
          })
     }"

section \<open>Removal\<close>

definition remove_at :: "nat \<Rightarrow> 'a list \<Rightarrow> 'a list" where
  "remove_at i xs = take i xs @ drop (Suc i) xs"

definition remove_child :: "'v rnode \<Rightarrow> nat \<Rightarrow> string list \<Rightarrow> ('v rnode \<times> 'v option) option" where
  "remove_child node i remapping =
     (if i < length (nd_children node) then
        let child = nd_children node ! i in
        if nd_remapping child \<noteq> remapping then Some (node, None)
        else if nd_children child = [] then
          let removed = set_children (remove_at i (nd_children node)) node in
          if nd_type child = Static \<and> \<not> is_param (nd_type node) then
            if i < length (nd_indices node)
            then Some (set_indices (remove_at i (nd_indices node)) removed, nd_value child)
            else None
          else Some (set_wild_child False removed, nd_value child)
        else Some (update_child i (set_value None child) node, nd_value child)
      else None)"

fun suffix_child :: "string \<Rightarrow> nat \<Rightarrow> 'v rnode list \<Rightarrow> nat option" where
  "suffix_child suffix i [] = None"
| "suffix_child suffix i (child # children) =
     (if nd_bytes child = suffix then Some i else suffix_child suffix (i + 1) children)"

text \<open>One turn of the walk of a removal: a result, or the child and the bytes it goes on with.\<close>

definition remove_step :: "string list \<Rightarrow> 'v rnode \<Rightarrow> string \<Rightarrow> ('v rnode \<times> 'v option) option + (nat \<times> string)" where
  "remove_step remapping node remaining =
     (if length remaining \<le> length (nd_bytes node) then Inl (Some (node, None))
      else if take (length (nd_bytes node)) remaining \<noteq> nd_bytes node then Inl (Some (node, None))
      else
        let remaining = drop (length (nd_bytes node)) remaining; nxt = remaining ! 0; terminator = segment_end remaining in
        (case (if is_param (nd_type node) then suffix_child (take terminator remaining) 0 (nd_children node) else None) of
           Some i \<Rightarrow>
             if terminator = length remaining then Inl (remove_child node i remapping)
             else Inr (i, drop (terminator - length (nd_bytes (nd_children node ! i))) remaining)
         | None \<Rightarrow>
             (case position (\<lambda>c. c = nxt) (nd_indices node) of
                Some i \<Rightarrow>
                  if i < length (nd_children node) \<and> nd_bytes (nd_children node ! i) = remaining
                  then Inl (remove_child node i remapping)
                  else Inr (i, remaining)
              | None \<Rightarrow>
                  if \<not> nd_wild_child node then Inl (Some (node, None))
                  else if nd_children node = [] then Inl None
                  else
                    let i = length (nd_children node) - 1 in
                    if nd_bytes (nd_children node ! i) = remaining then Inl (remove_child node i remapping)
                    else Inr (i, remaining))))"

partial_function (option) remove_walk :: "string list \<Rightarrow> 'v rnode \<Rightarrow> string \<Rightarrow> ('v rnode \<times> 'v option) option" where
  "remove_walk remapping node remaining =
     (case remove_step remapping node remaining of
        Inl result \<Rightarrow> result
      | Inr (i, rest) \<Rightarrow>
          if i < length (nd_children node) then do {
            (child, value) \<leftarrow> remove_walk remapping (nd_children node ! i) rest;
            Some (update_child i child node, value)
          }
          else None)"

declare remove_walk.simps [code]

definition node_remove :: "string \<Rightarrow> 'v rnode \<Rightarrow> ('v rnode \<times> 'v option) option" where
  "node_remove route node =
     do {
       normalized \<leftarrow> normalize_params (ur_new route);
       (case normalized of
          Inl e \<Rightarrow> Some (node, None)
        | Inr (route, remapping) \<Rightarrow>
            if ur_inner route = nd_bytes node
            then Some (if nd_children node = [] then node_default else set_value None node, nd_value node)
            else remove_walk remapping node (ur_inner route))
     }"

section \<open>Traversal\<close>

partial_function (option) for_each_loop :: "(unescaped_route \<times> 'v rnode) list \<Rightarrow> (string \<times> 'v) list \<Rightarrow> (string \<times> 'v) list option" where
  "for_each_loop queue visited =
     (case queue of
        [] \<Rightarrow> Some visited
      | (prefix, node) # queue \<Rightarrow> do {
          prefix \<leftarrow> denormalize_params prefix (nd_remapping node);
          visited \<leftarrow>
            (case nd_value node of
               Some value \<Rightarrow> do { path \<leftarrow> from_utf8_unwrap (ur_inner prefix); Some (visited @ [(path, value)]) }
             | None \<Rightarrow> Some visited);
          for_each_loop (queue @ map (\<lambda>child. (ur_append prefix (nd_prefix child), child)) (nd_children node)) visited
        })"

declare for_each_loop.simps [code]

definition node_for_each :: "'v rnode \<Rightarrow> (string \<times> 'v) list option" where
  "node_for_each node = for_each_loop [(nd_prefix node, node)] []"

section \<open>Search\<close>

datatype match_error = NotFound | MethodNotAllowed | HostNotFound

definition status_code :: "match_error \<Rightarrow> nat" where
  "status_code e = (case e of NotFound \<Rightarrow> 404 | MethodNotAllowed \<Rightarrow> 405 | HostNotFound \<Rightarrow> 421)"

record 'v skipped =
  sk_node :: "'v rnode"
  sk_path :: string
  sk_params :: nat

text \<open>The last skipped node that the path can go back to, with those below it.\<close>

fun pop_skipped :: "string \<Rightarrow> 'v skipped list \<Rightarrow> ('v skipped \<times> 'v skipped list) option" where
  "pop_skipped path [] = None"
| "pop_skipped path (s # skipped) =
     (if ends_with (sk_path s) path then Some (s, skipped) else pop_skipped path skipped)"

text \<open>The first child of a parameter whose suffix ends the segment: the length of the parameter and the child.\<close>

fun match_suffix :: "string \<Rightarrow> nat \<Rightarrow> 'v rnode list \<Rightarrow> (nat \<times> 'v rnode) option" where
  "match_suffix path terminator [] = None"
| "match_suffix path terminator (child # children) =
     (if length (nd_bytes child) \<ge> terminator then match_suffix path terminator children
      else
        let suffix_start = terminator - length (nd_bytes child) in
        if drop suffix_start (take terminator path) = nd_bytes child then Some (suffix_start, child)
        else match_suffix path terminator children)"

text \<open>
  One turn of the search: the node it is at, the path that is left, whether it is coming back to a skipped node, the
  parameters so far and the stack of skipped nodes, top first. Leaving the inner loop is going back.
\<close>

record 'v at_state =
  as_node :: "'v rnode"
  as_path :: string
  as_backtracking :: bool
  as_params :: params
  as_skipped :: "'v skipped list"

datatype 'v at_next = Continue "'v at_state" | Return "match_error + 'v \<times> params" | Panic

definition go_back :: "string \<Rightarrow> params \<Rightarrow> 'v skipped list \<Rightarrow> 'v at_next" where
  "go_back path params skipped =
     (case pop_skipped path skipped of
        None \<Rightarrow> Return (Inl NotFound)
      | Some (s, skipped) \<Rightarrow>
          Continue \<lparr>as_node = sk_node s, as_path = sk_path s, as_backtracking = True,
            as_params = params_truncate params (sk_params s), as_skipped = skipped\<rparr>)"

definition found :: "'v \<Rightarrow> string list \<Rightarrow> params \<Rightarrow> 'v at_next" where
  "found value names params =
     (case for_each_key_mut (remap_keys names) params of None \<Rightarrow> Panic | Some params \<Rightarrow> Return (Inr (value, params)))"

definition at_param :: "'v rnode \<Rightarrow> string \<Rightarrow> params \<Rightarrow> 'v skipped list \<Rightarrow> 'v at_next" where
  "at_param node path params skipped =
     (case position (\<lambda>c. c = CHR ''/'') path of
        Some terminator \<Rightarrow>
          if terminator = 0 then go_back path params skipped
          else (case nd_children node of
              [child] \<Rightarrow>
                Continue \<lparr>as_node = child, as_path = drop terminator path, as_backtracking = False,
                  as_params = params_push params [] (take terminator path), as_skipped = skipped\<rparr>
            | _ \<Rightarrow> go_back path params skipped)
      | None \<Rightarrow>
          (case nd_value node of
             None \<Rightarrow> go_back path params skipped
           | Some value \<Rightarrow> found value (nd_remapping node) (params_push params [] path)))"

definition at_param_suffix :: "'v rnode \<Rightarrow> string \<Rightarrow> params \<Rightarrow> 'v skipped list \<Rightarrow> 'v at_next" where
  "at_param_suffix node path params skipped =
     (let slash = position (\<lambda>c. c = CHR ''/'') path in
      if slash = Some 0 then go_back path params skipped
      else
        let terminator = (case slash of Some i \<Rightarrow> i + 1 | None \<Rightarrow> length path) in
        (case match_suffix path terminator (nd_children node) of
           Some (suffix_start, child) \<Rightarrow>
             Continue \<lparr>as_node = child, as_path = drop suffix_start path, as_backtracking = False,
               as_params = params_push params [] (take suffix_start path), as_skipped = skipped\<rparr>
         | None \<Rightarrow>
             (case (if slash = None then nd_value node else None) of
                None \<Rightarrow> go_back path params skipped
              | Some value \<Rightarrow> found value (nd_remapping node) (params_push params [] path))))"

definition at_catch_all :: "'v rnode \<Rightarrow> string \<Rightarrow> params \<Rightarrow> 'v at_next" where
  "at_catch_all node path params =
     (case nd_value node of
        None \<Rightarrow> Return (Inl NotFound)
      | Some value \<Rightarrow>
          (case for_each_key_mut (remap_keys (nd_remapping node)) params of
             None \<Rightarrow> Panic
           | Some params \<Rightarrow>
               if length (nd_bytes node) < 3 then Panic
               else Return (Inr (value, params_push params (drop 2 (butlast (nd_bytes node))) path))))"

definition at_step :: "'v at_state \<Rightarrow> 'v at_next" where
  "at_step st =
     (let node = as_node st; path = as_path st; params = as_params st; skipped = as_skipped st in
      if length path \<le> length (nd_bytes node) then
        (case (if path = nd_bytes node then nd_value node else None) of
           Some value \<Rightarrow> found value (nd_remapping node) params
         | None \<Rightarrow> go_back path params skipped)
      else if take (length (nd_bytes node)) path \<noteq> nd_bytes node then go_back path params skipped
      else
        let previous = path; path = drop (length (nd_bytes node)) path in
        (case (if as_backtracking st then None else position (\<lambda>c. c = path ! 0) (nd_indices node)) of
           Some i \<Rightarrow>
             if i < length (nd_children node) then
               Continue \<lparr>as_node = nd_children node ! i, as_path = path, as_backtracking = as_backtracking st, as_params = params,
                 as_skipped = (if nd_wild_child node
                   then \<lparr>sk_node = node, sk_path = previous, sk_params = params_len params\<rparr> # skipped else skipped)\<rparr>
             else Panic
         | None \<Rightarrow>
             if \<not> nd_wild_child node then go_back path params skipped
             else if nd_children node = [] then Panic
             else
               let node = last (nd_children node) in
               (case nd_type node of
                  Param suffix \<Rightarrow> (if suffix then at_param_suffix else at_param) node path params skipped
                | CatchAll \<Rightarrow> at_catch_all node path params
                | _ \<Rightarrow> Panic)))"

partial_function (option) at_loop :: "'v at_state \<Rightarrow> (match_error + 'v \<times> params) option" where
  "at_loop st = (case at_step st of Continue st \<Rightarrow> at_loop st | Return r \<Rightarrow> Some r | Panic \<Rightarrow> None)"

declare at_loop.simps [code]

definition node_at :: "'v rnode \<Rightarrow> string \<Rightarrow> (match_error + 'v \<times> params) option" where
  "node_at node path =
     at_loop \<lparr>as_node = node, as_path = path, as_backtracking = False, as_params = params_new, as_skipped = []\<rparr>"

end
