(* ===== verification/Route_Meaning.thy ===== *)
theory Route_Meaning
  imports Route_Tree
begin

text \<open>
  What the nodes of the radix tree mean. A pattern is a list of bytes, parameters and a final catch-all; filling it
  with values gives the paths it stands for. A tree stands for the list of its routes, and the invariant of the tree
  ties the prefixes, indices and child lists of its nodes to them.
\<close>

section \<open>Patterns\<close>

type_synonym marked = "(char \<times> bool) list"

datatype pelem = PChar char | PParam | PCatchAll marked

definition is_brace :: "char \<Rightarrow> bool" where
  "is_brace c \<longleftrightarrow> c = CHR ''{'' \<or> c = CHR ''}''"

definition mark :: "char \<Rightarrow> char \<times> bool" where
  "mark c = (c, is_brace c)"

text \<open>A normalized pattern as marked bytes, when \<open>k\<close> parameters come before it.\<close>

definition param_name :: "nat \<Rightarrow> char" where
  "param_name k = char_of (97 + k)"

fun render :: "nat \<Rightarrow> pelem list \<Rightarrow> marked" where
  "render k [] = []"
| "render k (PChar c # es) = mark c # render k es"
| "render k (PParam # es) = (CHR ''{'', False) # (param_name k, False) # (CHR ''}'', False) # render (k + 1) es"
| "render k (PCatchAll name # es) = (CHR ''{'', False) # (CHR ''*'', False) # name @ (CHR ''}'', False) # render k es"

fun fill :: "pelem list \<Rightarrow> string list \<Rightarrow> string option" where
  "fill [] vs = (if vs = [] then Some [] else None)"
| "fill (PChar c # es) vs = map_option (\<lambda>s. c # s) (fill es vs)"
| "fill (PParam # es) vs =
     (case vs of
        [] \<Rightarrow> None
      | v # vs \<Rightarrow> if v \<noteq> [] \<and> CHR ''/'' \<notin> set v then map_option (\<lambda>s. v @ s) (fill es vs) else None)"
| "fill (PCatchAll name # es) vs = (if es = [] \<and> length vs = 1 \<and> hd vs \<noteq> [] then Some (hd vs) else None)"

lemma fill_chars: "fill (map PChar cs @ es) vs = map_option (\<lambda>s. cs @ s) (fill es vs)"
  by (induction cs) (simp_all add: option.map_comp comp_def option.map_ident)

section \<open>The marked bytes of a route\<close>

definition rf_view :: "unescaped_ref \<Rightarrow> marked" where
  "rf_view r = map (\<lambda>i. (rf_inner r ! i, rf_is_escaped r i)) [0..<length (rf_inner r)]"

definition ur_view :: "unescaped_route \<Rightarrow> marked" where
  "ur_view r = rf_view (ur_as_ref r)"

lemma length_rf_view [simp]: "length (rf_view r) = length (rf_inner r)"
  by (simp add: rf_view_def)

lemma rf_view_nth: "i < length (rf_inner r) \<Longrightarrow> rf_view r ! i = (rf_inner r ! i, rf_is_escaped r i)"
  by (simp add: rf_view_def)

lemma fst_rf_view: "map fst (rf_view r) = rf_inner r"
  by (simp add: rf_view_def comp_def map_nth)

lemma fst_ur_view: "map fst (ur_view r) = ur_inner r"
  by (simp add: ur_view_def fst_rf_view ur_as_ref_def)

lemma ur_view_as_ref: "rf_view (ur_as_ref r) = ur_view r"
  by (simp add: ur_view_def)

lemma slice_off_view: "n \<le> length (rf_inner r) \<Longrightarrow> \<exists>r'. rf_slice_off r n = Some r' \<and> rf_view r' = drop n (rf_view r)"
proof -
  assume n: "n \<le> length (rf_inner r)"
  let ?r = "r\<lparr>rf_inner := drop n (rf_inner r), rf_offset := rf_offset r - int n\<rparr>"
  have "rf_view ?r = drop n (rf_view r)"
    by (rule nth_equalityI) (use n in \<open>auto simp: rf_view_nth rf_is_escaped_def Let_def algebra_simps\<close>)
  then show ?thesis using n by (simp add: rf_slice_off_def)
qed

lemma slice_until_view: "n \<le> length (rf_inner r) \<Longrightarrow> \<exists>r'. rf_slice_until r n = Some r' \<and> rf_view r' = take n (rf_view r)"
proof -
  assume n: "n \<le> length (rf_inner r)"
  let ?r = "r\<lparr>rf_inner := take n (rf_inner r)\<rparr>"
  have "rf_view ?r = take n (rf_view r)"
    by (rule nth_equalityI) (use n in \<open>auto simp: rf_view_nth rf_is_escaped_def\<close>)
  then show ?thesis using n by (simp add: rf_slice_until_def)
qed

lemma to_owned_view: "ur_view (rf_to_owned r) = rf_view r"
proof (rule nth_equalityI)
  show "length (ur_view (rf_to_owned r)) = length (rf_view r)"
    by (simp add: ur_view_def ur_as_ref_def rf_to_owned_def)
next
  fix i assume "i < length (ur_view (rf_to_owned r))"
  then have i: "i < length (rf_inner r)" by (simp add: ur_view_def ur_as_ref_def rf_to_owned_def)
  have "i \<in> set (ur_escaped (rf_to_owned r)) \<longleftrightarrow> rf_is_escaped r i"
  proof
    assume "i \<in> set (ur_escaped (rf_to_owned r))"
    then obtain e where e: "e \<in> set (rf_escaped r)" "0 \<le> int e + rf_offset r" "i = nat (int e + rf_offset r)"
      by (auto simp: rf_to_owned_def)
    then have "int i - rf_offset r = int e" by simp
    then show "rf_is_escaped r i" using e(1) by (simp add: rf_is_escaped_def)
  next
    assume "rf_is_escaped r i"
    then obtain j where j: "j = int i - rf_offset r" "0 \<le> j" "nat j \<in> set (rf_escaped r)" by (auto simp: rf_is_escaped_def Let_def)
    have "int (nat j) + rf_offset r = int i" using j(1,2) by simp
    then show "i \<in> set (ur_escaped (rf_to_owned r))" using j(3) i by (force simp: rf_to_owned_def image_iff)
  qed
  then show "ur_view (rf_to_owned r) ! i = rf_view r ! i"
    using i by (simp add: ur_view_def rf_view_nth ur_as_ref_def rf_is_escaped_def rf_to_owned_def Let_def)
qed

section \<open>Routes of a tree\<close>

definition elems_of :: "unescaped_route \<Rightarrow> node_type \<Rightarrow> pelem list" where
  "elems_of pre ty =
     (case ty of
        Param suffix \<Rightarrow> [PParam]
      | CatchAll \<Rightarrow> [PCatchAll (drop 2 (butlast (ur_view pre)))]
      | _ \<Rightarrow> map PChar (ur_inner pre))"

abbreviation node_elems :: "'v rnode \<Rightarrow> pelem list" where
  "node_elems n \<equiv> elems_of (nd_prefix n) (nd_type n)"

type_synonym 'v route = "pelem list \<times> string list \<times> 'v"

definition below :: "pelem list \<Rightarrow> 'v route \<Rightarrow> 'v route" where
  "below es r = (es @ fst r, snd r)"

fun node_routes :: "'v rnode \<Rightarrow> 'v route list" where
  "node_routes (Node pre pri wild idx ty cs v rm) =
     (case v of Some value \<Rightarrow> [(elems_of pre ty, rm, value)] | None \<Rightarrow> []) @
     concat (map (\<lambda>c. map (below (elems_of pre ty)) (node_routes c)) cs)"

definition own_routes :: "'v rnode \<Rightarrow> 'v route set" where
  "own_routes n = (case nd_value n of Some value \<Rightarrow> {(node_elems n, nd_remapping n, value)} | None \<Rightarrow> {})"

lemma set_node_routes: "set (node_routes n) = own_routes n \<union> (\<Union>c\<in>set (nd_children n). below (node_elems n) ` set (node_routes c))"
  by (cases n) (auto simp: own_routes_def split: option.splits)

definition suffix_ok :: "bool \<Rightarrow> string \<Rightarrow> bool" where
  "suffix_ok suffix s \<longleftrightarrow> s \<noteq> [] \<and> CHR ''/'' \<notin> set (butlast s) \<and> (suffix \<or> s = ''/'')"

text \<open>The bytes of a catch-all name.\<close>

definition name_byte :: "char \<times> bool \<Rightarrow> bool" where
  "name_byte x \<longleftrightarrow> fst x \<noteq> CHR ''*'' \<and> fst x \<noteq> CHR ''/'' \<and> (fst x = CHR ''}'' \<longrightarrow> snd x)"

definition catch_ok :: "marked \<Rightarrow> bool" where
  "catch_ok name \<longleftrightarrow> name \<noteq> [] \<and> list_all name_byte name"

definition starts_with :: "char \<Rightarrow> 'v rnode \<Rightarrow> bool" where
  "starts_with i c \<longleftrightarrow> list_all (\<lambda>r. fst r \<noteq> [] \<and> hd (fst r) = PChar i) (node_routes c)"

text \<open>
  The invariant of a node below \<open>k\<close> parameters. The static children come first, one for each index, and the wildcard
  child last; the children of a parameter are its static suffixes; a catch-all is a leaf.
\<close>

fun node_wf :: "nat \<Rightarrow> 'v rnode \<Rightarrow> bool" where
  "node_wf k (Node pre pri wild idx ty cs v rm) \<longleftrightarrow>
     ur_view pre = render k (elems_of pre ty) \<and>
     (v = None \<or> length rm = k + (if is_param ty then 1 else 0)) \<and>
     (case ty of
        Param suffix \<Rightarrow>
          idx = [] \<and> \<not> wild \<and> distinct (map nd_bytes cs) \<and>
          list_all (\<lambda>c. nd_type c = Static \<and> suffix_ok suffix (nd_bytes c) \<and> node_wf (k + 1) c) cs
      | CatchAll \<Rightarrow> idx = [] \<and> \<not> wild \<and> cs = [] \<and> v \<noteq> None \<and> catch_ok (drop 2 (butlast (ur_view pre)))
      | _ \<Rightarrow>
          distinct idx \<and> length cs = length idx + (if wild then 1 else 0) \<and> list_all (node_wf k) cs \<and>
          list_all2 (\<lambda>i c. nd_type c = Static \<and> starts_with i c) idx (take (length idx) cs) \<and>
          (wild \<longrightarrow> nd_type (last cs) = CatchAll \<or> is_param (nd_type (last cs))))"

definition is_static :: "'v rnode \<Rightarrow> bool" where
  "is_static n \<longleftrightarrow> nd_type n = Root \<or> nd_type n = Static"

text \<open>The invariant of a node by its kind.\<close>

definition static_wf :: "nat \<Rightarrow> 'v rnode \<Rightarrow> bool" where
  "static_wf k n \<longleftrightarrow>
     is_static n \<and> ur_view (nd_prefix n) = map mark (nd_bytes n) \<and> (nd_value n = None \<or> length (nd_remapping n) = k) \<and>
     distinct (nd_indices n) \<and> length (nd_children n) = length (nd_indices n) + (if nd_wild_child n then 1 else 0) \<and>
     (\<forall>c\<in>set (nd_children n). node_wf k c) \<and>
     (\<forall>i<length (nd_indices n). nd_type (nd_children n ! i) = Static \<and> starts_with (nd_indices n ! i) (nd_children n ! i)) \<and>
     (nd_wild_child n \<longrightarrow> nd_type (last (nd_children n)) = CatchAll \<or> is_param (nd_type (last (nd_children n))))"

definition param_wf :: "nat \<Rightarrow> bool \<Rightarrow> 'v rnode \<Rightarrow> bool" where
  "param_wf k suffix n \<longleftrightarrow>
     nd_type n = Param suffix \<and> ur_view (nd_prefix n) = render k [PParam] \<and> (nd_value n = None \<or> length (nd_remapping n) = k + 1) \<and>
     nd_indices n = [] \<and> \<not> nd_wild_child n \<and> distinct (map nd_bytes (nd_children n)) \<and>
     (\<forall>c\<in>set (nd_children n). nd_type c = Static \<and> suffix_ok suffix (nd_bytes c) \<and> node_wf (k + 1) c)"

definition catch_wf :: "nat \<Rightarrow> 'v rnode \<Rightarrow> bool" where
  "catch_wf k n \<longleftrightarrow>
     nd_type n = CatchAll \<and> ur_view (nd_prefix n) = render k (node_elems n) \<and> nd_value n \<noteq> None \<and> length (nd_remapping n) = k \<and>
     nd_indices n = [] \<and> \<not> nd_wild_child n \<and> nd_children n = [] \<and> catch_ok (drop 2 (butlast (ur_view (nd_prefix n))))"

lemma render_chars: "render k (map PChar cs) = map mark cs"
  by (induction cs) simp_all

lemma elems_static: "is_static n \<Longrightarrow> node_elems n = map PChar (nd_bytes n)"
  by (auto simp: is_static_def elems_of_def)

lemma list_all2_index:
  "list_all2 P idx (take (length idx) cs) \<longleftrightarrow> length idx \<le> length cs \<and> (\<forall>i<length idx. P (idx ! i) (cs ! i))"
  by (auto simp: list_all2_conv_all_nth min_def)

lemma node_wf_static: "is_static n \<Longrightarrow> node_wf k n \<longleftrightarrow> static_wf k n"
  by (cases n) (auto simp: static_wf_def is_static_def elems_of_def render_chars list_all2_index list_all2_conv_all_nth list_all_iff is_param_def)

lemma node_wf_param: "nd_type n = Param suffix \<Longrightarrow> node_wf k n \<longleftrightarrow> param_wf k suffix n"
  by (cases n) (auto simp: param_wf_def elems_of_def list_all_iff is_param_def)

lemma node_wf_catch: "nd_type n = CatchAll \<Longrightarrow> node_wf k n \<longleftrightarrow> catch_wf k n"
  by (cases n) (auto simp: catch_wf_def elems_of_def is_param_def)

lemmas node_wf_kinds = node_wf_static node_wf_param node_wf_catch

lemma node_wf_default: "node_wf k node_default" "is_static node_default"
  by (simp_all add: node_default_def ur_default_def elems_of_def ur_view_def rf_view_def ur_as_ref_def is_static_def)

end
