(* ===== verification/Route_Insert.thy ===== *)
theory Route_Insert
  imports Route_Meaning "HOL-Library.Multiset"
begin

text \<open>
  Insertion into the radix tree keeps its invariant; it adds exactly the new route, or leaves the routes as they were.
\<close>

section \<open>Patterns that can be inserted\<close>

fun nparams :: "pelem list \<Rightarrow> nat" where
  "nparams [] = 0"
| "nparams (PParam # es) = Suc (nparams es)"
| "nparams (e # es) = nparams es"

text \<open>One wildcard in a segment at most; \<open>b\<close> says that the segment already has one.\<close>

fun seg_ok :: "bool \<Rightarrow> pelem list \<Rightarrow> bool" where
  "seg_ok b [] = True"
| "seg_ok b (PChar c # es) = seg_ok (b \<and> c \<noteq> CHR ''/'') es"
| "seg_ok b (PParam # es) = (\<not> b \<and> seg_ok True es)"
| "seg_ok b (PCatchAll name # es) = (\<not> b \<and> seg_ok True es)"

definition catch_names_ok :: "pelem list \<Rightarrow> bool" where
  "catch_names_ok es \<longleftrightarrow> list_all (\<lambda>e. case e of PCatchAll name \<Rightarrow> catch_ok name | _ \<Rightarrow> True) es"

text \<open>A pattern below \<open>k\<close> parameters.\<close>

definition pattern_ok :: "nat \<Rightarrow> pelem list \<Rightarrow> bool" where
  "pattern_ok k es \<longleftrightarrow> catch_names_ok es \<and> k + nparams es \<le> 25"

lemma nparams_append [simp]: "nparams (es @ fs) = nparams es + nparams fs"
  by (induction es rule: nparams.induct) simp_all

lemma nparams_chars [simp]: "nparams (map PChar cs) = 0"
  by (induction cs) simp_all

lemma render_append: "render k (es @ fs) = render k es @ render (k + nparams es) fs"
  by (induction k es rule: render.induct) simp_all

lemma render_split: "render k (map PChar cs @ es) = map mark cs @ render k es"
  by (simp add: render_append render_chars)

lemma seg_ok_mono: "seg_ok True es \<Longrightarrow> seg_ok b es"
proof (induction es arbitrary: b)
  case (Cons e es)
  show ?case
  proof (cases e)
    case (PChar c)
    then show ?thesis using Cons.prems Cons.IH by (cases "c = CHR ''/''") simp_all
  qed (use Cons.prems in simp_all)
qed simp

lemma seg_ok_chars: "CHR ''/'' \<notin> set cs \<Longrightarrow> seg_ok b (map PChar cs @ es) \<longleftrightarrow> seg_ok b es"
  by (induction cs) auto

lemma seg_ok_tail: "seg_ok b (map PChar cs @ es) \<Longrightarrow> seg_ok False es"
proof (induction cs arbitrary: b)
  case Nil
  then show ?case by (cases b) (auto intro: seg_ok_mono)
qed auto

fun leading :: "pelem list \<Rightarrow> string" where
  "leading (PChar c # es) = c # leading es"
| "leading es = []"

fun after_leading :: "pelem list \<Rightarrow> pelem list" where
  "after_leading (PChar c # es) = after_leading es"
| "after_leading es = es"

lemma leading_split: "es = map PChar (leading es) @ after_leading es"
  by (induction es rule: leading.induct) simp_all

lemma after_leading_cases:
  obtains (none) "after_leading es = []" | (param) fs where "after_leading es = PParam # fs"
    | (catch) name fs where "after_leading es = PCatchAll name # fs"
  by (induction es rule: leading.induct) auto

section \<open>Wildcards of a rendered pattern\<close>

lemma letter_ok:
  assumes "k < 26"
  shows "param_name k \<notin> {CHR ''{'', CHR ''}'', CHR ''*'', CHR ''/''}"
proof -
  have "of_char (param_name k) = 97 + k" using assms by (simp add: param_name_def of_char_char_of_nat)
  moreover have "(of_char c :: nat) \<notin> {97..<123}" if "c \<in> {CHR ''{'', CHR ''}'', CHR ''*'', CHR ''/''}" for c
    using that by auto
  ultimately show ?thesis using assms by fastforce
qed

lemma view_at:
  assumes "rf_view r = pre @ (c, e) # post"
  shows "drop (length pre) (rf_inner r) = c # map fst post" "rf_is_escaped r (length pre) = e"
    and "drop (Suc (length pre)) (rf_inner r) = map fst post" "length pre < length (rf_inner r)"
    and "rf_inner r ! length pre = c"
proof -
  have inner: "rf_inner r = map fst pre @ c # map fst post" using assms by (simp flip: fst_rf_view)
  then show "drop (length pre) (rf_inner r) = c # map fst post" "length pre < length (rf_inner r)" "rf_inner r ! length pre = c"
      "drop (Suc (length pre)) (rf_inner r) = map fst post"
    by (simp_all add: nth_append)
  then have "rf_view r ! length pre = (rf_inner r ! length pre, rf_is_escaped r (length pre))" by (simp add: rf_view_nth)
  then show "rf_is_escaped r (length pre) = e" using assms by (simp add: nth_append)
qed

lemma fst_mark [simp]: "fst (mark c) = c" "fst \<circ> mark = id"
  by (auto simp: mark_def)

lemma find_open_skip: "rf_is_escaped r s \<or> \<not> is_brace c \<Longrightarrow> find_open r s (c # rest) = find_open r (Suc s) rest"
  by (auto simp: is_brace_def)

lemma find_open_brace:
  "\<not> rf_is_escaped r s \<Longrightarrow> d \<noteq> CHR ''}'' \<Longrightarrow> find_open r s (CHR ''{'' # d # rest) = find_close r s (s + 2) rest"
  by simp

lemma find_close_stop:
  "\<not> rf_is_escaped r i \<Longrightarrow> rf_inner r ! (i - 1) \<noteq> CHR ''*'' \<Longrightarrow> find_close r s i (CHR ''}'' # rest) = Inr (Some (s, Suc i))"
  by simp

lemma find_close_skip:
  "c \<noteq> CHR ''*'' \<Longrightarrow> c \<noteq> CHR ''/'' \<Longrightarrow> (c = CHR ''}'' \<Longrightarrow> rf_is_escaped r i) \<Longrightarrow> find_close r s i (c # rest) = find_close r s (Suc i) rest"
  by simp

declare find_open.simps [simp del] find_close.simps [simp del]

lemma find_open_chars:
  assumes "rf_view r = pre @ map mark cs @ post"
  shows "find_open r (length pre) (map fst (map mark cs @ post)) = find_open r (length pre + length cs) (map fst post)"
  using assms
proof (induction cs arbitrary: pre)
  case (Cons c cs)
  have v: "rf_view r = pre @ (c, is_brace c) # map mark cs @ post" using Cons.prems by (simp add: mark_def)
  have "find_open r (length (pre @ [mark c])) (map fst (map mark cs @ post)) = find_open r (length (pre @ [mark c]) + length cs) (map fst post)"
    by (rule Cons.IH) (simp add: v mark_def)
  moreover have "find_open r (length pre) (c # map fst (map mark cs @ post)) = find_open r (Suc (length pre)) (map fst (map mark cs @ post))"
    using view_at(2) [OF v] by (intro find_open_skip) simp
  ultimately show ?case by simp
qed simp

lemma find_wildcard_chars: "rf_view r = map mark cs \<Longrightarrow> find_wildcard r = Inr None"
  using find_open_chars [of r "[]" cs "[]"] fst_rf_view [of r] by (simp add: find_wildcard_def find_open.simps(1))

lemma find_close_name:
  assumes "rf_view r = pre @ name @ (CHR ''}'', False) # post" "0 < length pre" "fst (last (pre @ name)) \<noteq> CHR ''*''"
    and "list_all name_byte name"
  shows "find_close r s (length pre) (map fst (name @ (CHR ''}'', False) # post)) = Inr (Some (s, length pre + length name + 1))"
  using assms
proof (induction name arbitrary: pre)
  case Nil
  have v: "rf_view r = pre @ (CHR ''}'', False) # post" using Nil.prems(1) by simp
  obtain ini l where pre: "pre = ini @ [l]" using Nil.prems(2) by (cases pre rule: rev_cases) auto
  obtain c e where l: "l = (c, e)" by (cases l)
  have "rf_view r = ini @ (c, e) # (CHR ''}'', False) # post" using v pre l by simp
  then have "rf_inner r ! length ini = c" by (rule view_at(5))
  moreover have "c \<noteq> CHR ''*''" using Nil.prems(3) pre l by simp
  ultimately show ?case using view_at(2) [OF v] pre find_close_stop [of r "length pre"] by simp
next
  case (Cons x name)
  obtain c e where x: "x = (c, e)" by (cases x)
  have v: "rf_view r = pre @ (c, e) # name @ (CHR ''}'', False) # post" using Cons.prems(1) x by simp
  have "find_close r s (length (pre @ [x])) (map fst (name @ (CHR ''}'', False) # post)) = Inr (Some (s, length (pre @ [x]) + length name + 1))"
  proof (rule Cons.IH)
    show "rf_view r = (pre @ [x]) @ name @ (CHR ''}'', False) # post" using Cons.prems(1) by (simp only: append.assoc append_Cons append_Nil)
    show "fst (last ((pre @ [x]) @ name)) \<noteq> CHR ''*''" using Cons.prems(3) by (simp only: append.assoc append_Cons append_Nil not_False_eq_True)
  qed (use Cons.prems(4) in simp_all)
  moreover have "find_close r s (length pre) (c # map fst (name @ (CHR ''}'', False) # post)) =
      find_close r s (Suc (length pre)) (map fst (name @ (CHR ''}'', False) # post))"
  proof (rule find_close_skip)
    have ok: "c \<noteq> CHR ''*'' \<and> c \<noteq> CHR ''/'' \<and> (c = CHR ''}'' \<longrightarrow> e)" using Cons.prems(4) unfolding x by (simp add: name_byte_def)
    then show "c \<noteq> CHR ''*''" "c \<noteq> CHR ''/''" by blast+
    show "rf_is_escaped r (length pre)" if "c = CHR ''}''" using ok that view_at(2) [OF v] by blast
  qed
  ultimately show ?case using x by simp
qed

lemma find_wildcard_param:
  assumes "rf_view r = map mark cs @ (CHR ''{'', False) # (c, False) # (CHR ''}'', False) # post" "c \<notin> {CHR ''}'', CHR ''*'', CHR ''/''}"
  shows "find_wildcard r = Inr (Some (length cs, length cs + 3))"
proof -
  let ?pre = "map mark cs"
  have op: "find_wildcard r = find_open r (length cs) (map fst ((CHR ''{'', False) # (c, False) # (CHR ''}'', False) # post))"
    using find_open_chars [of r "[]" cs "(CHR ''{'', False) # (c, False) # (CHR ''}'', False) # post"] assms(1) fst_rf_view [of r]
    by (simp add: find_wildcard_def)
  have v: "rf_view r = ?pre @ (CHR ''{'', False) # (c, False) # (CHR ''}'', False) # post" using assms(1) .
  have "find_close r (length cs) (length (?pre @ [(CHR ''{'', False), (c, False)])) (map fst ([] @ (CHR ''}'', False) # post)) =
      Inr (Some (length cs, length (?pre @ [(CHR ''{'', False), (c, False)]) + length ([] :: marked) + 1))"
  proof (rule find_close_name)
    show "rf_view r = (?pre @ [(CHR ''{'', False), (c, False)]) @ [] @ (CHR ''}'', False) # post" using v by simp
    show "fst (last ((?pre @ [(CHR ''{'', False), (c, False)]) @ [])) \<noteq> CHR ''*''" using assms(2) by simp
  qed simp_all
  then show ?thesis using op view_at(2) [OF v] assms(2) find_open_brace [of r "length cs" c] by simp
qed

lemma find_wildcard_catch:
  assumes "rf_view r = map mark cs @ (CHR ''{'', False) # (CHR ''*'', False) # name @ (CHR ''}'', False) # post" "catch_ok name"
  shows "find_wildcard r = Inr (Some (length cs, length cs + 3 + length name))"
proof -
  let ?pre = "map mark cs" and ?rest = "name @ (CHR ''}'', False) # post"
  have op: "find_wildcard r = find_open r (length cs) (map fst ((CHR ''{'', False) # (CHR ''*'', False) # ?rest))"
    using find_open_chars [of r "[]" cs "(CHR ''{'', False) # (CHR ''*'', False) # ?rest"] assms(1) fst_rf_view [of r]
    by (simp add: find_wildcard_def)
  have v: "rf_view r = ?pre @ (CHR ''{'', False) # (CHR ''*'', False) # ?rest" using assms(1) .
  obtain x xs where name: "name = x # xs" using assms(2) by (cases name) (auto simp: catch_ok_def)
  have ok: "list_all name_byte name" using assms(2) by (simp add: catch_ok_def)
  moreover have "last name \<in> set name" using name by simp
  ultimately have last: "fst (last name) \<noteq> CHR ''*''" unfolding list_all_iff name_byte_def by blast
  have "find_close r (length cs) (length (?pre @ [(CHR ''{'', False), (CHR ''*'', False)])) (map fst ?rest) =
      Inr (Some (length cs, length (?pre @ [(CHR ''{'', False), (CHR ''*'', False)]) + length name + 1))"
  proof (rule find_close_name [OF _ _ _ ok])
    show "rf_view r = (?pre @ [(CHR ''{'', False), (CHR ''*'', False)]) @ ?rest" using v by simp
    show "fst (last ((?pre @ [(CHR ''{'', False), (CHR ''*'', False)]) @ name)) \<noteq> CHR ''*''" using last name by simp
  qed simp
  then show ?thesis using op view_at(2) [OF v] find_open_brace [of r "length cs" "CHR ''*''"] by simp
qed

section \<open>Changing one part of a node\<close>

lemma set_prefix_sel [simp]:
  "nd_prefix (set_prefix p n) = p" "nd_wild_child (set_prefix p n) = nd_wild_child n" "nd_indices (set_prefix p n) = nd_indices n"
  "nd_type (set_prefix p n) = nd_type n" "nd_children (set_prefix p n) = nd_children n" "nd_value (set_prefix p n) = nd_value n"
  "nd_remapping (set_prefix p n) = nd_remapping n"
  by (cases n, simp)+

lemma add_priority_sel [simp]:
  "nd_prefix (add_priority n) = nd_prefix n" "nd_wild_child (add_priority n) = nd_wild_child n" "nd_indices (add_priority n) = nd_indices n"
  "nd_type (add_priority n) = nd_type n" "nd_children (add_priority n) = nd_children n" "nd_value (add_priority n) = nd_value n"
  "nd_remapping (add_priority n) = nd_remapping n"
  by (cases n, simp)+

lemma set_wild_child_sel [simp]:
  "nd_prefix (set_wild_child w n) = nd_prefix n" "nd_wild_child (set_wild_child w n) = w" "nd_indices (set_wild_child w n) = nd_indices n"
  "nd_type (set_wild_child w n) = nd_type n" "nd_children (set_wild_child w n) = nd_children n" "nd_value (set_wild_child w n) = nd_value n"
  "nd_remapping (set_wild_child w n) = nd_remapping n"
  by (cases n, simp)+

lemma set_indices_sel [simp]:
  "nd_prefix (set_indices x n) = nd_prefix n" "nd_wild_child (set_indices x n) = nd_wild_child n" "nd_indices (set_indices x n) = x"
  "nd_type (set_indices x n) = nd_type n" "nd_children (set_indices x n) = nd_children n" "nd_value (set_indices x n) = nd_value n"
  "nd_remapping (set_indices x n) = nd_remapping n"
  by (cases n, simp)+

lemma set_type_sel [simp]:
  "nd_prefix (set_type x n) = nd_prefix n" "nd_wild_child (set_type x n) = nd_wild_child n" "nd_indices (set_type x n) = nd_indices n"
  "nd_type (set_type x n) = x" "nd_children (set_type x n) = nd_children n" "nd_value (set_type x n) = nd_value n"
  "nd_remapping (set_type x n) = nd_remapping n"
  by (cases n, simp)+

lemma set_children_sel [simp]:
  "nd_prefix (set_children x n) = nd_prefix n" "nd_wild_child (set_children x n) = nd_wild_child n" "nd_indices (set_children x n) = nd_indices n"
  "nd_type (set_children x n) = nd_type n" "nd_children (set_children x n) = x" "nd_value (set_children x n) = nd_value n"
  "nd_remapping (set_children x n) = nd_remapping n"
  by (cases n, simp)+

lemma set_value_sel [simp]:
  "nd_prefix (set_value x n) = nd_prefix n" "nd_wild_child (set_value x n) = nd_wild_child n" "nd_indices (set_value x n) = nd_indices n"
  "nd_type (set_value x n) = nd_type n" "nd_children (set_value x n) = nd_children n" "nd_value (set_value x n) = x"
  "nd_remapping (set_value x n) = nd_remapping n"
  by (cases n, simp)+

lemma set_remapping_sel [simp]:
  "nd_prefix (set_remapping x n) = nd_prefix n" "nd_wild_child (set_remapping x n) = nd_wild_child n" "nd_indices (set_remapping x n) = nd_indices n"
  "nd_type (set_remapping x n) = nd_type n" "nd_children (set_remapping x n) = nd_children n" "nd_value (set_remapping x n) = nd_value n"
  "nd_remapping (set_remapping x n) = x"
  by (cases n, simp)+

lemma update_child_sel [simp]:
  "nd_prefix (update_child i c n) = nd_prefix n" "nd_wild_child (update_child i c n) = nd_wild_child n" "nd_indices (update_child i c n) = nd_indices n"
  "nd_type (update_child i c n) = nd_type n" "nd_children (update_child i c n) = (nd_children n)[i := c]" "nd_value (update_child i c n) = nd_value n"
  "nd_remapping (update_child i c n) = nd_remapping n"
  by (simp_all add: update_child_def)

text \<open>Routes and the invariant depend on the parts of a node only, not on its priority.\<close>

definition routes_of :: "pelem list \<Rightarrow> 'v option \<Rightarrow> string list \<Rightarrow> 'v rnode list \<Rightarrow> 'v route set" where
  "routes_of es v rm cs = (\<lambda>x. (es, rm, x)) ` set_option v \<union> (\<Union>c\<in>set cs. below es ` set (node_routes c))"

lemma node_routes_of: "set (node_routes n) = routes_of (node_elems n) (nd_value n) (nd_remapping n) (nd_children n)"
  unfolding set_node_routes [of n] own_routes_def routes_of_def by (cases "nd_value n") simp_all

lemma add_priority_routes [simp]: "node_routes (add_priority n) = node_routes n"
  by (cases n) simp

lemma add_priority_wf [simp]: "node_wf k (add_priority n) = node_wf k n" "starts_with i (add_priority n) = starts_with i n"
  by (cases n, simp_all add: starts_with_def)+

definition wild_node :: "nat \<Rightarrow> 'v rnode \<Rightarrow> bool" where
  "wild_node k c \<longleftrightarrow> node_wf k c \<and> (nd_type c = CatchAll \<or> is_param (nd_type c))"

definition index_node :: "nat \<Rightarrow> char \<Rightarrow> 'v rnode \<Rightarrow> bool" where
  "index_node k i c \<longleftrightarrow> node_wf k c \<and> nd_type c = Static \<and> starts_with i c"

text \<open>The head of a static node, and its children in two parts.\<close>

definition static_head :: "nat \<Rightarrow> 'v rnode \<Rightarrow> bool" where
  "static_head k n \<longleftrightarrow>
     is_static n \<and> ur_view (nd_prefix n) = map mark (nd_bytes n) \<and> (nd_value n = None \<or> length (nd_remapping n) = k)"

definition children_wf :: "nat \<Rightarrow> bool \<Rightarrow> string \<Rightarrow> 'v rnode list \<Rightarrow> bool" where
  "children_wf k wild idx cs \<longleftrightarrow>
     distinct idx \<and> (\<exists>ss ws. cs = ss @ ws \<and> list_all2 (index_node k) idx ss \<and> (if wild then \<exists>c. ws = [c] \<and> wild_node k c else ws = []))"

lemma static_wf_parts: "static_wf k n \<longleftrightarrow> static_head k n \<and> children_wf k (nd_wild_child n) (nd_indices n) (nd_children n)"
proof
  assume wf: "static_wf k n"
  let ?m = "length (nd_indices n)" and ?cs = "nd_children n"
  have "list_all2 (index_node k) (nd_indices n) (take ?m ?cs)"
    using wf by (auto simp: static_wf_def list_all2_conv_all_nth index_node_def)
  moreover have "if nd_wild_child n then \<exists>c. drop ?m ?cs = [c] \<and> wild_node k c else drop ?m ?cs = []"
  proof (cases "nd_wild_child n")
    case True
    then have len: "length ?cs = Suc ?m" using wf by (simp add: static_wf_def)
    then have "drop ?m ?cs = [?cs ! ?m]" "?cs ! ?m = last ?cs"
      by (simp_all add: Cons_nth_drop_Suc [symmetric] last_conv_nth) (metis diff_Suc_1 last_conv_nth length_0_conv nat.distinct(1))
    moreover have "last ?cs \<in> set ?cs" using len by (intro last_in_set) auto
    ultimately show ?thesis using wf True by (auto simp: static_wf_def wild_node_def)
  qed (use wf in \<open>simp add: static_wf_def\<close>)
  ultimately have "children_wf k (nd_wild_child n) (nd_indices n) ?cs"
    using wf unfolding children_wf_def static_wf_def by (metis append_take_drop_id)
  then show "static_head k n \<and> children_wf k (nd_wild_child n) (nd_indices n) ?cs"
    using wf by (simp add: static_head_def static_wf_def)
next
  assume a: "static_head k n \<and> children_wf k (nd_wild_child n) (nd_indices n) (nd_children n)"
  then obtain ss ws where s: "nd_children n = ss @ ws" "list_all2 (index_node k) (nd_indices n) ss"
      "if nd_wild_child n then \<exists>c. ws = [c] \<and> wild_node k c else ws = []"
    by (auto simp: children_wf_def)
  then have "length (nd_indices n) = length ss" "\<forall>i<length ss. index_node k (nd_indices n ! i) (ss ! i)"
    by (auto simp: list_all2_conv_all_nth)
  then show "static_wf k n"
    using a s(1,3) unfolding static_wf_def static_head_def children_wf_def
    by (auto simp: nth_append index_node_def wild_node_def in_set_conv_nth split: if_splits)
qed

section \<open>Operations on the children\<close>

definition rot :: "nat \<Rightarrow> nat \<Rightarrow> 'a list \<Rightarrow> 'a list" where
  "rot u i xs = take u xs @ [xs ! i] @ drop u (take i xs) @ drop (Suc i) xs"

lemma rot_id: "i < length xs \<Longrightarrow> rot i i xs = xs"
  by (simp add: rot_def Cons_nth_drop_Suc)

lemma mset_rot: "u \<le> i \<Longrightarrow> i < length xs \<Longrightarrow> mset (rot u i xs) = mset xs"
proof -
  assume a: "u \<le> i" "i < length xs"
  have "xs = take u xs @ drop u (take i xs) @ [xs ! i] @ drop (Suc i) xs"
  proof -
    have "take u xs @ drop u (take i xs) = take i xs" using a(1) append_take_drop_id [of u "take i xs"] by (simp add: min_def)
    then show ?thesis using id_take_nth_drop [OF a(2)] by (metis append.assoc append_Cons append_Nil)
  qed
  then have "mset xs = mset (take u xs @ drop u (take i xs) @ [xs ! i] @ drop (Suc i) xs)" by (rule arg_cong)
  then show ?thesis by (simp add: rot_def)
qed

lemma set_rot: "u \<le> i \<Longrightarrow> i < length xs \<Longrightarrow> set (rot u i xs) = set xs"
  using mset_rot by (metis set_mset_mset)

lemma distinct_rot: "u \<le> i \<Longrightarrow> i < length xs \<Longrightarrow> distinct xs \<Longrightarrow> distinct (rot u i xs)"
  using mset_rot by (metis mset_eq_imp_distinct_iff)

lemma nth_rot: "u \<le> i \<Longrightarrow> i < length xs \<Longrightarrow> rot u i xs ! u = xs ! i"
  by (simp add: rot_def nth_append)

lemma length_rot: "u \<le> i \<Longrightarrow> i < length xs \<Longrightarrow> length (rot u i xs) = length xs"
  by (simp add: rot_def)

lemma rot_append: "u \<le> i \<Longrightarrow> i < length xs \<Longrightarrow> rot u i (xs @ ys) = rot u i xs @ ys"
  by (simp add: rot_def nth_append)

lemma list_all2_rot:
  assumes "list_all2 P xs ys" "u \<le> i" "i < length xs"
  shows "list_all2 P (rot u i xs) (rot u i ys)"
  unfolding rot_def using assms
  by (intro list_all2_appendI list_all2_takeI list_all2_dropI) (auto simp: list_all2_nthD)

lemma rot_swap:
  assumes "w \<le> u" "Suc u < length xs"
  shows "rot w u (xs[u := xs ! Suc u, Suc u := xs ! u]) = rot w (Suc u) xs"
proof -
  let ?ys = "xs[u := xs ! Suc u, Suc u := xs ! u]"
  have "drop (Suc u) ?ys = ?ys ! Suc u # drop (Suc (Suc u)) ?ys" using assms(2) by (intro Cons_nth_drop_Suc [symmetric]) simp
  then have "drop (Suc u) ?ys = xs ! u # drop (Suc (Suc u)) xs" using assms(2) by (simp only: nth_list_update_eq length_list_update drop_update_cancel lessI less_SucI)
  moreover have "drop w (take (Suc u) xs) = drop w (take u xs) @ [xs ! u]" using assms by (simp add: take_Suc_conv_app_nth)
  ultimately show ?thesis using assms by (simp add: rot_def)
qed

lemma move_front_rot: "i < length cs \<Longrightarrow> \<exists>u\<le>i. move_front i p cs = (rot u i cs, u)"
proof (induction i arbitrary: cs)
  case 0
  then show ?case by (auto simp: rot_id)
next
  case (Suc j)
  show ?case
  proof (cases "nd_priority (cs ! j) < p")
    case True
    let ?cs = "cs[j := cs ! Suc j, Suc j := cs ! j]"
    obtain u where u: "u \<le> j" "move_front j p ?cs = (rot u j ?cs, u)" using Suc.IH [of ?cs] Suc.prems by auto
    have "rot u j ?cs = rot u (Suc j) cs" by (rule rot_swap [OF u(1) Suc.prems])
    then have "move_front (Suc j) p cs = (rot u (Suc j) cs, u)" using True u(2) by simp
    moreover have "u \<le> Suc j" using u(1) by simp
    ultimately show ?thesis by blast
  next
    case False
    then have "move_front (Suc j) p cs = (rot (Suc j) (Suc j) cs, Suc j)" using rot_id [OF Suc.prems] by simp
    then show ?thesis by blast
  qed
qed

lemma children_wf_length: "children_wf k wild idx cs \<Longrightarrow> length cs = length idx + (if wild then 1 else 0)"
  by (auto simp: children_wf_def dest!: list_all2_lengthD split: if_splits)

lemma children_wf_nth: "children_wf k wild idx cs \<Longrightarrow> i < length idx \<Longrightarrow> index_node k (idx ! i) (cs ! i)"
  by (auto simp: children_wf_def nth_append list_all2_conv_all_nth)

lemma children_wf_update:
  assumes "children_wf k wild idx cs" "i < length idx" "index_node k (idx ! i) c"
  shows "children_wf k wild idx (cs[i := c])"
proof -
  obtain ss ws where s: "cs = ss @ ws" "list_all2 (index_node k) idx ss" "if wild then \<exists>c. ws = [c] \<and> wild_node k c else ws = []"
    and d: "distinct idx" using assms(1) by (auto simp: children_wf_def)
  have "i < length ss" using assms(2) s(2) by (simp add: list_all2_lengthD)
  then have "cs[i := c] = ss[i := c] @ ws" using s(1) by (simp add: list_update_append)
  moreover have "list_all2 (index_node k) idx (ss[i := c])"
    using list_all2_update_cong [OF s(2) assms(3), of i] by simp
  ultimately show ?thesis using s(3) d unfolding children_wf_def by blast
qed

lemma children_wf_update_wild:
  assumes "children_wf k True idx cs" "wild_node k c"
  shows "children_wf k True idx (cs[length cs - 1 := c])"
proof -
  obtain ss w where s: "cs = ss @ [w]" "list_all2 (index_node k) idx ss" and d: "distinct idx"
    using assms(1) by (auto simp: children_wf_def)
  then have "cs[length cs - 1 := c] = ss @ [c]" by simp
  then show ?thesis using s(2) d assms(2) unfolding children_wf_def by auto
qed

lemma children_wf_rot:
  assumes "children_wf k wild idx cs" "u \<le> i" "i < length idx"
  shows "children_wf k wild (rot u i idx) (rot u i cs)"
proof -
  obtain ss ws where s: "cs = ss @ ws" "list_all2 (index_node k) idx ss" "if wild then \<exists>c. ws = [c] \<and> wild_node k c else ws = []"
    and d: "distinct idx" using assms(1) by (auto simp: children_wf_def)
  have "i < length ss" using assms(3) s(2) by (simp add: list_all2_lengthD)
  then have "rot u i cs = rot u i ss @ ws" using s(1) rot_append [OF assms(2)] by simp
  then show ?thesis using list_all2_rot [OF s(2) assms(2,3)] s(3) distinct_rot [OF assms(2,3) d] unfolding children_wf_def by blast
qed

lemma children_wf_add:
  assumes "children_wf k wild idx cs" "index_node k i c" "i \<notin> set idx"
  shows "children_wf k wild (idx @ [i]) (insert_at (length idx) c cs)"
proof -
  obtain ss ws where s: "cs = ss @ ws" "list_all2 (index_node k) idx ss" "if wild then \<exists>c. ws = [c] \<and> wild_node k c else ws = []"
    and d: "distinct idx" using assms(1) by (auto simp: children_wf_def)
  have "length idx = length ss" using s(2) by (rule list_all2_lengthD)
  then have "insert_at (length idx) c cs = (ss @ [c]) @ ws" using s(1) by (simp add: insert_at_def)
  moreover have "list_all2 (index_node k) (idx @ [i]) (ss @ [c])" using s(2) assms(2) by (simp add: list_all2_appendI)
  moreover have "distinct (idx @ [i])" using d assms(3) by simp
  ultimately show ?thesis using s(3) unfolding children_wf_def by blast
qed

lemma children_wf_add_wild:
  "children_wf k False idx cs \<Longrightarrow> wild_node k c \<Longrightarrow> children_wf k True idx (cs @ [c])"
  by (auto simp: children_wf_def)

lemma insert_at_end: "insert_at (length cs) c cs = cs @ [c]"
  by (simp add: insert_at_def)

lemma set_insert_at: "set (insert_at i c cs) = insert c (set cs)"
proof -
  have "set cs = set (take i cs) \<union> set (drop i cs)" by (metis append_take_drop_id set_append)
  then show ?thesis by (simp add: insert_at_def)
qed

lemma add_child_parts:
  assumes "children_wf k (nd_wild_child n) (nd_indices n) (nd_children n)"
  shows "add_child (set_indices idx n) c = (set_children (insert_at (length (nd_indices n)) c (nd_children n)) (set_indices idx n), length (nd_indices n))"
  using children_wf_length [OF assms] insert_at_end [of "nd_children n" c] by (auto simp: add_child_def Let_def)

section \<open>What an insertion gains\<close>

definition gain :: "'v route \<Rightarrow> 'v insert_fault + unit \<Rightarrow> 'v rnode \<Rightarrow> 'v rnode \<Rightarrow> bool" where
  "gain r res n n' \<longleftrightarrow> set (node_routes n') = set (node_routes n) \<union> (case res of Inr u \<Rightarrow> {r} | Inl f \<Rightarrow> {})"

lemma Union_update:
  assumes "i < length cs" "F c = F (cs ! i) \<union> X"
  shows "(\<Union>x\<in>set (cs[i := c]). F x) = (\<Union>x\<in>set cs. F x) \<union> X"
proof -
  have nth: "(\<Union>x\<in>set ds. F x) = (\<Union>j\<in>{..<length ds}. F (ds ! j))" for ds by (auto simp: set_conv_nth)
  have "F (cs[i := c] ! j) = F (cs ! j) \<union> (if j = i then X else {})" if "j < length cs" for j
    using assms that by (cases "j = i") simp_all
  then have "(\<Union>j\<in>{..<length cs}. F (cs[i := c] ! j)) = (\<Union>j\<in>{..<length cs}. F (cs ! j) \<union> (if j = i then X else {}))" by simp
  also have "\<dots> = (\<Union>j\<in>{..<length cs}. F (cs ! j)) \<union> X" using assms(1) by (auto split: if_splits)
  finally show ?thesis unfolding nth by simp
qed

lemma gain_child:
  assumes "gain r res (nd_children n ! i) c" "i < length (nd_children n)"
  shows "gain (below (node_elems n) r) res n (update_child i c n)"
proof -
  let ?F = "\<lambda>c. below (node_elems n) ` set (node_routes c)" and ?X = "case res of Inr u \<Rightarrow> {r} | Inl f \<Rightarrow> {}"
  have "?F c = ?F (nd_children n ! i) \<union> below (node_elems n) ` ?X" using assms(1) by (simp add: gain_def image_Un)
  from Union_update [OF assms(2), of ?F, OF this]
  have "(\<Union>x\<in>set ((nd_children n)[i := c]). ?F x) = (\<Union>x\<in>set (nd_children n). ?F x) \<union> below (node_elems n) ` ?X" .
  then have "set (node_routes (update_child i c n)) = set (node_routes n) \<union> below (node_elems n) ` ?X"
    unfolding node_routes_of [of n] node_routes_of [of "update_child i c n"] routes_of_def update_child_sel by (simp only: Un_assoc)
  then show ?thesis by (cases res) (simp_all add: gain_def)
qed

lemma gain_same: "set (node_routes n') = set (node_routes n) \<Longrightarrow> gain r res n' m \<Longrightarrow> gain r res n m"
  by (simp add: gain_def)

definition same_head :: "'v rnode \<Rightarrow> 'v rnode \<Rightarrow> bool" where
  "same_head n n' \<longleftrightarrow>
     nd_prefix n' = nd_prefix n \<and> nd_type n' = nd_type n \<and> nd_value n' = nd_value n \<and> nd_remapping n' = nd_remapping n"

lemma same_head_static: "same_head n n' \<Longrightarrow> static_head k n' \<longleftrightarrow> static_head k n"
  by (simp add: same_head_def static_head_def is_static_def)

lemma routes_set_cong:
  assumes "same_head n n'" "(\<lambda>c. set (node_routes c)) ` set (nd_children n') = (\<lambda>c. set (node_routes c)) ` set (nd_children n)"
  shows "set (node_routes n') = set (node_routes n)"
proof -
  have "(\<Union>c\<in>set (nd_children n'). below es ` set (node_routes c)) = (\<Union>c\<in>set (nd_children n). below es ` set (node_routes c))" for es
  proof -
    have "(\<Union>c\<in>S. below es ` set (node_routes c)) = \<Union> ((`) (below es) ` ((\<lambda>c. set (node_routes c)) ` S))" for S :: "'a rnode set"
      by (simp add: image_image)
    then show ?thesis using assms(2) by metis
  qed
  then show ?thesis using assms(1) unfolding node_routes_of [of n] node_routes_of [of n'] routes_of_def same_head_def by simp
qed

lemma update_child_priority_ok:
  assumes "children_wf k (nd_wild_child n) (nd_indices n) (nd_children n)" "i < length (nd_indices n)"
  shows "\<exists>n' u. update_child_priority n i = Some (n', u) \<and> same_head n n' \<and> nd_wild_child n' = nd_wild_child n \<and>
    children_wf k (nd_wild_child n') (nd_indices n') (nd_children n') \<and> u < length (nd_indices n') \<and>
    nd_children n' ! u = add_priority (nd_children n ! i) \<and> nd_indices n' ! u = nd_indices n ! i \<and>
    set (node_routes n') = set (node_routes n)"
proof -
  let ?cs = "(nd_children n)[i := add_priority (nd_children n ! i)]" and ?idx = "nd_indices n"
  have len: "i < length (nd_children n)" using children_wf_length [OF assms(1)] assms(2) by simp
  obtain u where u: "u \<le> i" "move_front i (nd_priority (?cs ! i)) ?cs = (rot u i ?cs, u)"
    using move_front_rot [of i ?cs] len by auto
  let ?n = "set_indices (rot u i ?idx) (set_children (rot u i ?cs) n)"
  have "update_child_priority n i = Some (?n, u)"
  proof (cases "u = i")
    case True
    then show ?thesis using u(2) len rot_id [OF assms(2)] by (cases n) (simp add: update_child_priority_def Let_def)
  next
    case False
    then show ?thesis using u(2) len assms(2) by (simp add: update_child_priority_def Let_def rotate_index_def rot_def)
  qed
  moreover have "index_node k (?idx ! i) (add_priority (nd_children n ! i))"
    using children_wf_nth [OF assms] by (simp add: index_node_def)
  then have wf: "children_wf k (nd_wild_child n) ?idx ?cs" by (rule children_wf_update [OF assms])
  have "children_wf k (nd_wild_child n) (rot u i ?idx) (rot u i ?cs)" by (rule children_wf_rot [OF wf u(1) assms(2)])
  moreover have "set (node_routes ?n) = set (node_routes n)"
  proof (rule routes_set_cong)
    show "same_head n ?n" by (simp add: same_head_def)
    have "(\<lambda>c. set (node_routes c)) ` set ?cs = (\<lambda>c. set (node_routes c)) ` set (nd_children n)"
      using len by (metis (no_types, lifting) add_priority_routes list.set_map list_update_id map_update)
    then show "(\<lambda>c. set (node_routes c)) ` set (nd_children ?n) = (\<lambda>c. set (node_routes c)) ` set (nd_children n)"
      using set_rot [OF u(1), of ?cs] len by simp
  qed
  ultimately show ?thesis
    using u(1) len assms(2) by (intro exI [of _ ?n] exI [of _ u]) (simp add: same_head_def length_rot nth_rot)
qed

section \<open>The segment after a parameter\<close>

text \<open>A pattern after a parameter: the rest of its segment, and what comes after the slash.\<close>

definition segment_split :: "string \<Rightarrow> pelem list \<Rightarrow> bool" where
  "segment_split suf fs \<longleftrightarrow>
     (suf \<noteq> [] \<and> last suf = CHR ''/'' \<and> CHR ''/'' \<notin> set (butlast suf)) \<or> (CHR ''/'' \<notin> set suf \<and> fs = [])"

lemma seg_split:
  assumes "seg_ok True es"
  shows "\<exists>suf fs. es = map PChar suf @ fs \<and> segment_split suf fs \<and> seg_ok False fs"
  using assms
proof (induction es)
  case Nil
  show ?case by (intro exI [of _ "[]"]) (simp add: segment_split_def)
next
  case (Cons e es)
  obtain c where e: "e = PChar c" using Cons.prems by (cases e) simp_all
  show ?case
  proof (cases "c = CHR ''/''")
    case True
    then show ?thesis using Cons.prems e by (intro exI [of _ "[c]"] exI [of _ es]) (simp add: segment_split_def)
  next
    case False
    then obtain suf fs where s: "es = map PChar suf @ fs" "segment_split suf fs" "seg_ok False fs" using Cons e by auto
    then have "segment_split (c # suf) fs" using False by (auto simp: segment_split_def)
    then show ?thesis using s e by (intro exI [of _ "c # suf"] exI [of _ fs]) simp
  qed
qed

lemma segment_end_split:
  assumes "CHR ''/'' \<notin> set pre" "segment_split suf fs" "fs = [] \<Longrightarrow> post = []"
  shows "segment_end (pre @ suf @ post) = length pre + length suf"
proof -
  consider (slash) "suf \<noteq> []" "last suf = CHR ''/''" "CHR ''/'' \<notin> set (butlast suf)" | (final) "CHR ''/'' \<notin> set suf" "post = []"
    using assms(2,3) unfolding segment_split_def by blast
  then show ?thesis
  proof cases
    case slash
    have suf: "suf = butlast suf @ ''/''" using slash(1,2) append_butlast_last_id [of suf] by simp
    have "pre @ suf @ post = (pre @ butlast suf) @ CHR ''/'' # post" by (subst suf) simp
    moreover have "position (\<lambda>b. b = CHR ''/'') ((pre @ butlast suf) @ CHR ''/'' # post) = Some (length (pre @ butlast suf))"
      by (rule position_append_stop) (use assms(1) slash(3) in auto)
    ultimately have "position (\<lambda>b. b = CHR ''/'') (pre @ suf @ post) = Some (length (pre @ butlast suf))" by (simp only:)
    then show ?thesis using slash(1) by (simp add: segment_end_def)
  next
    case final
    then have "position (\<lambda>b. b = CHR ''/'') (pre @ suf @ post) = None" using assms(1) by auto
    then show ?thesis using final(2) by (simp add: segment_end_def del: position_None_iff)
  qed
qed

text \<open>The bytes of a rendered parameter.\<close>

lemma param_bytes_no_slash: "k < 26 \<Longrightarrow> CHR ''/'' \<notin> set [CHR ''{'', param_name k, CHR ''}'']"
  using letter_ok [of k] by auto

lemma render_nonempty: "fs \<noteq> [] \<Longrightarrow> render k fs \<noteq> []"
  by (cases fs rule: nparams.cases) auto

section \<open>Inserting into a node without a wildcard child\<close>

lemma insert_route_none:
  "find_wildcard prefix = Inr None \<Longrightarrow>
   insert_route rm val n prefix = Some (set_remapping rm (set_prefix (rf_to_owned prefix) (set_value (Some val) n)), Inr ())"
  by (subst insert_route.simps) simp

lemma insert_route_catch:
  assumes "find_wildcard prefix = Inr (Some (ws, we))" "rf_inner prefix ! (ws + 1) = CHR ''*''"
  shows "we \<noteq> length (rf_inner prefix) \<Longrightarrow> insert_route rm val n prefix = Some (n, Inl (Bad InvalidCatchAll))"
    and "we = length (rf_inner prefix) \<Longrightarrow> rf_slice_until prefix ws = Some front \<Longrightarrow> rf_slice_off prefix ws = Some rest \<Longrightarrow>
      insert_route rm val n prefix =
        Some (set_wild_child True (fst (add_child (if ws > 0 then set_prefix (rf_to_owned front) n else n)
          (Node (rf_to_owned rest) 1 False [] CatchAll [] (Some val) rm))), Inr ())"
  using assms by (subst insert_route.simps, simp add: case_prod_unfold Let_def)+

text \<open>The part of an insertion after a parameter and its suffix.\<close>

definition insert_after :: "string list \<Rightarrow> 'v \<Rightarrow> 'v rnode \<Rightarrow> unescaped_ref \<Rightarrow> ('v rnode \<times> ('v insert_fault + unit)) option" where
  "insert_after rm val lst rest =
     (if rf_inner rest = [] then Some (set_remapping rm (set_value (Some val) lst), Inr ())
      else if rf_inner rest ! 0 \<noteq> CHR ''{'' \<or> rf_is_escaped rest 0 then do {
        (child, res) \<leftarrow> insert_route rm val (add_priority node_default) rest;
        Some (fst (add_child (set_indices (nd_indices lst @ [rf_inner rest ! 0]) lst) child), res)
      }
      else insert_route rm val lst rest)"

lemma map_option_to_bind: "map_option f m = Option.bind m (\<lambda>x. Some (f x))"
  by (cases m) simp_all

lemma insert_route_param:
  assumes "find_wildcard prefix = Inr (Some (ws, we))" "rf_inner prefix ! (ws + 1) \<noteq> CHR ''*''"
    and "rf_slice_until prefix ws = Some front" "rf_slice_off prefix ws = Some rest"
    and "rf_slice_until rest (we - ws) = Some wildcard" "rf_slice_until rest (segment_end (rf_inner rest)) = Some segment"
    and "rf_slice_off segment (length (rf_inner wildcard)) = Some suffix" "rf_slice_off rest (segment_end (rf_inner rest)) = Some post"
    and "find_wildcard suffix = Inr None"
  shows "insert_route rm val n prefix =
    (let n = (if ws > 0 then set_prefix (rf_to_owned front) n else n);
         param = Node (rf_to_owned wildcard) 1 False [] (Param (\<not> empty_or_slash (rf_inner suffix))) [] None [];
         last = (if rf_inner suffix \<noteq> [] then Node (rf_to_owned suffix) 1 False [] Static [] None [] else param)
     in map_option (\<lambda>(last, res).
          (set_wild_child True (fst (add_child n (if rf_inner suffix \<noteq> [] then fst (add_suffix_child param last) else last))), res))
        (insert_after rm val last post))"
proof -
  let ?direct = "rf_inner post ! 0 \<noteq> CHR ''{'' \<or> rf_is_escaped post 0"
  consider (none) "rf_inner post = []" | (static) "rf_inner post \<noteq> []" "?direct" | (wild) "rf_inner post \<noteq> []" "\<not> ?direct" by blast
  then show ?thesis
    by cases (use assms in \<open>subst insert_route.simps, simp add: insert_after_def Let_def case_prod_unfold map_option_to_bind\<close>)+
qed

text \<open>A node a route can be put into, and what putting it there gives.\<close>

definition ready :: "nat \<Rightarrow> pelem list \<Rightarrow> 'v rnode \<Rightarrow> bool" where
  "ready k es n \<longleftrightarrow> static_wf k n \<and> \<not> nd_wild_child n \<and> (leading es \<noteq> [] \<longrightarrow> nd_value n = None \<and> nd_children n = [])"

definition placed :: "nat \<Rightarrow> pelem list \<Rightarrow> string list \<Rightarrow> 'v \<Rightarrow> 'v rnode \<Rightarrow> 'v rnode \<Rightarrow> 'v insert_fault + unit \<Rightarrow> bool" where
  "placed k es rm val n n' res \<longleftrightarrow>
     static_wf k n' \<and> nd_type n' = nd_type n \<and> (leading es = [] \<longrightarrow> nd_prefix n' = nd_prefix n) \<and>
     gain ((if leading es = [] then node_elems n else []) @ es, rm, val) res n n'"

definition gained :: "'v route \<Rightarrow> 'v insert_fault + unit \<Rightarrow> 'v route set" where
  "gained r res = (case res of Inr u \<Rightarrow> {r} | Inl f \<Rightarrow> {})"

lemma gain_gained: "gain r res n n' \<longleftrightarrow> set (node_routes n') = set (node_routes n) \<union> gained r res"
  by (simp add: gain_def gained_def)

lemma below_gained: "below es ` gained r res = gained (below es r) res"
  by (cases res) (simp_all add: gained_def)

lemma view_bytes: "ur_view p = map mark cs \<Longrightarrow> ur_inner p = cs"
  using fst_ur_view [of p] by simp

lemma static_set_prefix: "static_wf k n \<Longrightarrow> ur_view p = map mark cs \<Longrightarrow> static_wf k (set_prefix p n)"
  by (simp add: static_wf_parts static_head_def is_static_def view_bytes)

lemma no_routes: "nd_value n = None \<Longrightarrow> nd_children n = [] \<Longrightarrow> set (node_routes n) = {}"
  unfolding node_routes_of [of n] by (simp add: routes_of_def)

lemma add_wild_ok:
  assumes "static_wf k n" "\<not> nd_wild_child n" "wild_node k c"
  defines "m \<equiv> set_wild_child True (fst (add_child n c))"
  shows "static_wf k m \<and> nd_type m = nd_type n \<and> nd_prefix m = nd_prefix n \<and>
    set (node_routes m) = set (node_routes n) \<union> below (node_elems n) ` set (node_routes c)"
proof -
  have m: "m = set_wild_child True (set_children (nd_children n @ [c]) n)" using assms(2) by (simp add: m_def add_child_def)
  have "children_wf k True (nd_indices n) (nd_children n @ [c])"
    using assms(1-3) by (intro children_wf_add_wild) (simp_all add: static_wf_parts)
  then have "static_wf k m" using assms(1) unfolding m by (simp add: static_wf_parts static_head_def is_static_def)
  moreover have "set (node_routes m) = set (node_routes n) \<union> below (node_elems n) ` set (node_routes c)"
    unfolding node_routes_of [of m] node_routes_of [of n] routes_of_def by (auto simp: m)
  ultimately show ?thesis by (simp add: m)
qed

lemma place_wild:
  assumes "ready k es n" "rf_view front = map mark (leading es)" "wild_node k c"
    and "set (node_routes c) = gained (after_leading es, rm, val) res"
    and "m = (if length (leading es) > 0 then set_prefix (rf_to_owned front) n else n)"
  shows "placed k es rm val n (set_wild_child True (fst (add_child m c))) res"
proof -
  have view: "ur_view (rf_to_owned front) = map mark (leading es)" using assms(2) by (simp add: to_owned_view)
  have m: "static_wf k m" "\<not> nd_wild_child m" "nd_type m = nd_type n" "leading es = [] \<longrightarrow> nd_prefix m = nd_prefix n"
    using assms(1,5) static_set_prefix [OF _ view, of k n] by (simp_all add: ready_def)
  have st: "is_static m" using m(1) by (simp add: static_wf_def)
  have routes: "set (node_routes m) = set (node_routes n)" using assms(1,5) by (simp add: ready_def no_routes)
  have "leading es \<noteq> [] \<longrightarrow> nd_bytes m = leading es" using assms(5) view_bytes [OF view] by simp
  then have "node_elems m @ after_leading es = (if leading es = [] then node_elems n else []) @ es"
    using elems_static [OF st] leading_split [of es] m(3,4) by (cases "leading es = []") simp_all
  then have "below (node_elems m) ` set (node_routes c) = gained ((if leading es = [] then node_elems n else []) @ es, rm, val) res"
    unfolding assms(4) below_gained by (simp only: below_def fst_conv snd_conv)
  then show ?thesis
    using add_wild_ok [OF m(1,2) assms(3)] m(3,4) routes unfolding placed_def gain_gained by (simp only:)
qed

text \<open>A static node with neither value nor children.\<close>

abbreviation bare :: "unescaped_route \<Rightarrow> u32 \<Rightarrow> 'v rnode" where
  "bare p pri \<equiv> Node p pri False [] Static [] None []"

lemma bare_wf: "ur_view p = map mark cs \<Longrightarrow> static_wf k (bare p pri)"
  by (simp add: static_wf_def is_static_def view_bytes)

lemma leading_char: "leading (PChar c # es) \<noteq> []"
  by simp

lemma placed_fresh:
  assumes "placed k es rm val n n' res" "leading es \<noteq> []" "nd_value n = None" "nd_children n = []" "nd_type n = Static"
  shows "index_node k (hd (leading es)) n'" "set (node_routes n') = gained (es, rm, val) res"
proof -
  show r: "set (node_routes n') = gained (es, rm, val) res"
    using assms(1,2) no_routes [OF assms(3,4)] by (simp add: placed_def gain_gained)
  have "hd es = PChar (hd (leading es))" "es \<noteq> []" using assms(2) by (cases es rule: leading.cases; simp)+
  then have "starts_with (hd (leading es)) n'" using r by (cases res) (auto simp: starts_with_def list_all_iff gained_def)
  moreover have "static_wf k n'" "nd_type n' = Static" using assms(1,5) by (simp_all add: placed_def)
  ultimately show "index_node k (hd (leading es)) n'" by (simp add: index_node_def node_wf_static is_static_def)
qed

lemma fresh_ready: "ready k es (add_priority node_default)"
proof -
  have "ur_view ur_default = map mark []" by (simp add: ur_view_def rf_view_def ur_as_ref_def ur_default_def)
  then show ?thesis using bare_wf [of ur_default "[]"] by (simp add: ready_def node_default_def)
qed

lemma insert_after_ok:
  assumes ih: "\<And>n prefix. gs \<noteq> [] \<Longrightarrow> ready k gs n \<Longrightarrow> rf_view prefix = render k gs \<Longrightarrow>
      \<exists>n' res. insert_route rm val n prefix = Some (n', res) \<and> placed k gs rm val n n' res"
    and "rf_view post = render k gs" "ur_view p = map mark suf" "length rm = k + nparams gs"
  shows "\<exists>n' res. insert_after rm val (bare p 1) post = Some (n', res) \<and> static_wf k n' \<and> nd_type n' = Static \<and> nd_prefix n' = p \<and>
    set (node_routes n') = gained (map PChar suf @ gs, rm, val) res"
proof -
  have inner: "rf_inner post = map fst (render k gs)" using assms(2) fst_rf_view [of post] by simp
  have elems: "node_elems (bare p 1 :: 'a rnode) = map PChar suf" using assms(3) by (simp add: elems_of_def view_bytes)
  consider (none) "gs = []" | (char) c hs where "gs = PChar c # hs" | (wild) "gs \<noteq> []" "leading gs = []" by (cases gs rule: leading.cases) auto
  then show ?thesis
  proof cases
    case none
    let ?n = "set_remapping rm (set_value (Some val) (bare p 1))"
    have "insert_after rm val (bare p 1) post = Some (?n, Inr ())" using none inner by (simp add: insert_after_def)
    moreover have "static_wf k ?n" using assms(3,4) none by (simp add: static_wf_def is_static_def view_bytes)
    ultimately show ?thesis using none elems by (intro exI [of _ ?n] exI [of _ "Inr ()"]) (simp add: gained_def)
  next
    case char
    have ne: "gs \<noteq> []" using char by simp
    obtain child res where i: "insert_route rm val (add_priority node_default) post = Some (child, res)" "placed k gs rm val (add_priority node_default) child res"
      using ih [OF ne fresh_ready assms(2)] by auto
    have child: "index_node k c child" "set (node_routes child) = gained (gs, rm, val) res"
      using placed_fresh [OF i(2)] char by (simp_all add: node_default_def)
    let ?n = "Node p 1 False [c] Static [child] None []"
    have "rf_view post = [] @ (c, is_brace c) # render k hs" using assms(2) char by (simp add: mark_def)
    then have "rf_inner post ! 0 = c" "rf_is_escaped post 0 = is_brace c" using view_at(2,5) [of post "[]" c] by simp_all
    then have "insert_after rm val (bare p 1) post = Some (?n, res)"
      using i(1) inner char by (auto simp: insert_after_def add_child_def is_brace_def)
    moreover have "children_wf k False [c] [child]" using child(1) by (simp add: children_wf_def)
    then have "static_wf k ?n" using assms(3) by (simp add: static_wf_parts static_head_def is_static_def view_bytes)
    moreover have "set (node_routes ?n) = gained (map PChar suf @ gs, rm, val) res"
      using child(2) elems below_gained [of "map PChar suf" "(gs, rm, val)" res] by (simp add: below_def)
    ultimately show ?thesis by (intro exI [of _ ?n] exI [of _ res]) simp
  next
    case wild
    have "ready k gs (bare p 1)" using bare_wf [OF assms(3)] wild by (simp add: ready_def)
    then obtain n' res where i: "insert_route rm val (bare p 1) post = Some (n', res)" "placed k gs rm val (bare p 1) n' res"
      using ih [OF wild(1) _ assms(2)] by blast
    obtain rest where "render k gs = (CHR ''{'', False) # rest" using wild by (cases gs rule: nparams.cases) auto
    then have "rf_view post = [] @ (CHR ''{'', False) # rest" using assms(2) by simp
    then have "rf_inner post ! 0 = CHR ''{''" "\<not> rf_is_escaped post 0" using view_at(2,5) [of post "[]" "CHR ''{''" False rest] by simp_all
    moreover have "rf_inner post \<noteq> []" using inner wild(1) by (simp add: render_nonempty)
    ultimately have "insert_after rm val (bare p 1) post = Some (n', res)" using i(1) by (simp add: insert_after_def)
    then show ?thesis using i(2) wild(2) elems by (simp add: placed_def gain_gained)
  qed
qed

text \<open>A parameter with its suffix.\<close>

lemma param_view_wf:
  "ur_view p = render k [PParam] \<Longrightarrow> length rm = k + 1 \<Longrightarrow> param_wf k b (Node p 1 False [] (Param b) [] (Some val) rm)"
  by (simp add: param_wf_def)

lemma param_suffix_wf:
  assumes "ur_view p = render k [PParam]" "static_wf (k + 1) c" "nd_type c = Static" "suffix_ok b (nd_bytes c)"
  shows "param_wf k b (Node p 1 False [] (Param b) [c] None [])"
  using assms by (simp add: param_wf_def node_wf_static is_static_def)

lemma param_wild: "param_wf k b c \<Longrightarrow> wild_node k c"
  by (simp add: wild_node_def node_wf_param is_param_def param_wf_def)

lemma segment_suffix_ok: "segment_split suf gs \<Longrightarrow> suf \<noteq> [] \<Longrightarrow> suffix_ok (\<not> empty_or_slash suf) suf"
  by (auto simp: segment_split_def suffix_ok_def empty_or_slash_def dest: in_set_butlastD)

lemma add_suffix_first: "fst (add_suffix_child (Node p pri w idx ty [] v rm) c) = Node p pri w idx ty [c] v rm"
  by (simp add: add_suffix_child_def insert_at_def)

text \<open>The parts that a parameter cuts a pattern into.\<close>

lemma param_slices:
  assumes "rf_view prefix = map mark cs @ render k (PParam # map PChar suf @ gs)" "segment_split suf gs" "k < 26"
  obtains front rest wildcard segment suffix post where
    "rf_slice_until prefix (length cs) = Some front" "rf_view front = map mark cs"
    "rf_slice_off prefix (length cs) = Some rest"
    "rf_slice_until rest 3 = Some wildcard" "rf_view wildcard = render k [PParam]"
    "rf_slice_until rest (segment_end (rf_inner rest)) = Some segment"
    "rf_slice_off segment (length (rf_inner wildcard)) = Some suffix" "rf_view suffix = map mark suf"
    "rf_slice_off rest (segment_end (rf_inner rest)) = Some post" "rf_view post = render (k + 1) gs"
proof -
  let ?w = "render k [PParam]" and ?g = "render (k + 1) gs"
  have v: "rf_view prefix = map mark cs @ ?w @ map mark suf @ ?g" using assms(1) by (simp add: render_split)
  have len: "length cs \<le> length (rf_inner prefix)" by (simp flip: length_rf_view add: v)
  obtain front where f: "rf_slice_until prefix (length cs) = Some front" "rf_view front = map mark cs"
    using slice_until_view [OF len] v by auto
  obtain rest where r: "rf_slice_off prefix (length cs) = Some rest" "rf_view rest = ?w @ map mark suf @ ?g"
    using slice_off_view [OF len] v by auto
  have "3 \<le> length (rf_inner rest)" by (simp flip: length_rf_view add: r)
  from slice_until_view [OF this] obtain wc where w: "rf_slice_until rest 3 = Some wc" "rf_view wc = ?w" using r(2) by auto
  have lw: "length (rf_inner wc) = 3" by (simp flip: length_rf_view add: w)
  have "segment_end (map fst ?w @ suf @ map fst ?g) = length (map fst ?w) + length suf"
    by (rule segment_end_split [OF _ assms(2)]) (use letter_ok [OF assms(3)] in auto)
  moreover have "rf_inner rest = map fst ?w @ suf @ map fst ?g" using r(2) fst_rf_view [of rest] by simp
  ultimately have t: "segment_end (rf_inner rest) = 3 + length suf" by simp
  have lt: "3 + length suf \<le> length (rf_inner rest)" by (simp flip: length_rf_view add: r)
  obtain sg where g: "rf_slice_until rest (3 + length suf) = Some sg" "rf_view sg = ?w @ map mark suf"
    using slice_until_view [OF lt] r(2) by (auto simp: numeral_3_eq_3)
  have "3 \<le> length (rf_inner sg)" by (simp flip: length_rf_view add: g)
  from slice_off_view [OF this] obtain sf where s: "rf_slice_off sg 3 = Some sf" "rf_view sf = map mark suf" using g(2) by auto
  obtain po where p: "rf_slice_off rest (3 + length suf) = Some po" "rf_view po = ?g" using slice_off_view [OF lt] r(2) by (auto simp: numeral_3_eq_3)
  show thesis by (rule that [of front rest wc sg sf po]) (use f r w g s p lw t in simp_all)
qed

lemma insert_route_param_ok:
  assumes ready: "ready k es n" and es: "after_leading es = PParam # map PChar suf @ gs" and split: "segment_split suf gs"
    and view: "rf_view prefix = render k es" and k: "k < 25" and rm: "length rm = k + 1 + nparams gs"
    and ih: "\<And>n prefix. gs \<noteq> [] \<Longrightarrow> ready (k + 1) gs n \<Longrightarrow> rf_view prefix = render (k + 1) gs \<Longrightarrow>
      \<exists>n' res. insert_route rm val n prefix = Some (n', res) \<and> placed (k + 1) gs rm val n n' res"
  shows "\<exists>n' res. insert_route rm val n prefix = Some (n', res) \<and> placed k es rm val n n' res"
proof -
  let ?cs = "leading es" and ?w = "render k [PParam]"
  have v: "rf_view prefix = map mark ?cs @ render k (PParam # map PChar suf @ gs)"
    using view leading_split [of es] es by (metis render_split)
  have name: "param_name k \<notin> {CHR ''}'', CHR ''*'', CHR ''/''}" using letter_ok [of k] k by auto
  have find: "find_wildcard prefix = Inr (Some (length ?cs, length ?cs + 3))"
    by (rule find_wildcard_param [where post = "render (k + 1) (map PChar suf @ gs)"]) (use v name in simp_all)
  have "rf_view prefix = (map mark ?cs @ [(CHR ''{'', False)]) @ (param_name k, False) # (CHR ''}'', False) # render (k + 1) (map PChar suf @ gs)"
    using v by simp
  from view_at(5) [OF this] have star: "rf_inner prefix ! (length ?cs + 1) \<noteq> CHR ''*''" using name by simp
  have k26: "k < 26" using k by simp
  from v split k26 obtain front rest wildcard segment suffix post where s:
    "rf_slice_until prefix (length ?cs) = Some front" "rf_view front = map mark ?cs"
    "rf_slice_off prefix (length ?cs) = Some rest"
    "rf_slice_until rest 3 = Some wildcard" "rf_view wildcard = ?w"
    "rf_slice_until rest (segment_end (rf_inner rest)) = Some segment"
    "rf_slice_off segment (length (rf_inner wildcard)) = Some suffix" "rf_view suffix = map mark suf"
    "rf_slice_off rest (segment_end (rf_inner rest)) = Some post" "rf_view post = render (k + 1) gs"
    by (rule param_slices)
  have suf: "rf_inner suffix = suf" using s(8) fst_rf_view [of suffix] by simp
  have p: "ur_view (rf_to_owned wildcard) = ?w" using s(5) by (simp add: to_owned_view)
  let ?b = "\<not> empty_or_slash suf"
  let ?param = "Node (rf_to_owned wildcard) 1 False [] (Param ?b) [] None []"
  let ?m = "if length ?cs > 0 then set_prefix (rf_to_owned front) n else n"
  have run: "insert_route rm val n prefix = map_option (\<lambda>(lst, res).
      (set_wild_child True (fst (add_child ?m (if suf \<noteq> [] then fst (add_suffix_child ?param lst) else lst))), res))
    (insert_after rm val (if suf \<noteq> [] then bare (rf_to_owned suffix) 1 else ?param) post)"
    using insert_route_param [OF find star s(1,3) _ s(6,7,9) find_wildcard_chars [OF s(8)], where rm = rm and val = val and n = n] s(4) suf by (simp add: Let_def)
  have "\<exists>c res. insert_route rm val n prefix = Some (set_wild_child True (fst (add_child ?m c)), res) \<and> wild_node k c \<and>
      set (node_routes c) = gained (after_leading es, rm, val) res"
  proof (cases "suf = []")
    case True
    let ?c = "Node (rf_to_owned wildcard) 1 False [] (Param ?b) [] (Some val) rm"
    have gs: "gs = []" using split True by (simp add: segment_split_def)
    then have "rf_inner post = []" using s(10) fst_rf_view [of post] by simp
    then have "insert_route rm val n prefix = Some (set_wild_child True (fst (add_child ?m ?c)), Inr ())"
      using run True by (simp add: insert_after_def)
    moreover have "wild_node k ?c" using param_view_wf [OF p] rm gs by (intro param_wild) simp
    ultimately show ?thesis using True gs es by (intro exI [of _ ?c] exI [of _ "Inr ()"]) (simp add: gained_def elems_of_def)
  next
    case False
    have "ur_view (rf_to_owned suffix) = map mark suf" using s(8) by (simp add: to_owned_view)
    with insert_after_ok [OF ih s(10) this] rm obtain lst res where l:
      "insert_after rm val (bare (rf_to_owned suffix) 1) post = Some (lst, res)" "static_wf (k + 1) lst" "nd_type lst = Static"
      "nd_prefix lst = rf_to_owned suffix" "set (node_routes lst) = gained (map PChar suf @ gs, rm, val) res" by auto
    let ?c = "Node (rf_to_owned wildcard) 1 False [] (Param ?b) [lst] None []"
    have "nd_bytes lst = suf" using l(4) suf by (simp add: rf_to_owned_def)
    then have "wild_node k ?c" using segment_suffix_ok [OF split False] l(2,3) p by (intro param_wild [where b = ?b] param_suffix_wf) simp_all
    moreover have "set (node_routes ?c) = gained (after_leading es, rm, val) res"
      using l(5) es below_gained [of "[PParam]" "(map PChar suf @ gs, rm, val)" res] by (simp add: elems_of_def below_def)
    moreover have "insert_route rm val n prefix = Some (set_wild_child True (fst (add_child ?m ?c)), res)"
      using run False l(1) by (simp add: add_suffix_first)
    ultimately show ?thesis by blast
  qed
  then obtain c res where c: "insert_route rm val n prefix = Some (set_wild_child True (fst (add_child ?m c)), res)" "wild_node k c"
      "set (node_routes c) = gained (after_leading es, rm, val) res" by blast
  from place_wild [OF ready s(2) c(2,3) refl] c(1) show ?thesis by blast
qed

lemma insert_route_catch_ok:
  assumes ready: "ready k es n" and es: "after_leading es = PCatchAll name # fs" and name: "catch_ok name"
    and view: "rf_view prefix = render k es" and rm: "length rm = k + nparams es"
  shows "\<exists>n' res. insert_route rm val n prefix = Some (n', res) \<and> placed k es rm val n n' res"
proof -
  let ?cs = "leading es" and ?w = "(CHR ''{'', False) # (CHR ''*'', False) # name @ [(CHR ''}'', False)]"
  have v: "rf_view prefix = map mark ?cs @ ?w @ render k fs" using view leading_split [of es] es by (metis render_split render.simps(4) append_Cons append.assoc append_Nil)
  have find: "find_wildcard prefix = Inr (Some (length ?cs, length ?cs + 3 + length name))"
    by (rule find_wildcard_catch [OF _ name, where post = "render k fs"]) (use v in simp)
  have "rf_view prefix = (map mark ?cs @ [(CHR ''{'', False)]) @ (CHR ''*'', False) # name @ (CHR ''}'', False) # render k fs" using v by simp
  from view_at(5) [OF this] have star: "rf_inner prefix ! (length ?cs + 1) = CHR ''*''" by simp
  have len: "length (rf_inner prefix) = length ?cs + 3 + length name + length (render k fs)" by (simp flip: length_rf_view add: v)
  show ?thesis
  proof (cases "fs = []")
    case False
    then have "insert_route rm val n prefix = Some (n, Inl (Bad InvalidCatchAll))"
      using insert_route_catch(1) [OF find star] len render_nonempty [OF False, of k] by simp
    moreover have "placed k es rm val n n (Inl (Bad InvalidCatchAll))" using ready by (simp add: placed_def ready_def gain_def)
    ultimately show ?thesis by blast
  next
    case True
    have "length ?cs \<le> length (rf_inner prefix)" using len by simp
    from slice_until_view [OF this] slice_off_view [OF this] obtain front rest where
      f: "rf_slice_until prefix (length ?cs) = Some front" "rf_view front = map mark ?cs" and
      r: "rf_slice_off prefix (length ?cs) = Some rest" "rf_view rest = ?w" using v True by auto
    let ?c = "Node (rf_to_owned rest) 1 False [] CatchAll [] (Some val) rm"
    have w: "ur_view (rf_to_owned rest) = ?w" using r(2) by (simp add: to_owned_view)
    then have elems: "elems_of (rf_to_owned rest) CatchAll = [PCatchAll name]" by (simp add: elems_of_def butlast_append)
    have "nparams es = 0" using leading_split [of es] es True by (metis nparams_append nparams_chars nparams.simps(1,4) add_0)
    then have "catch_wf k ?c" using w elems name rm by (simp add: catch_wf_def butlast_append)
    then have wild: "wild_node k ?c" using node_wf_catch [of ?c k] by (simp add: wild_node_def del: node_wf.simps)
    have "placed k es rm val n (set_wild_child True (fst (add_child (if length ?cs > 0 then set_prefix (rf_to_owned front) n else n) ?c))) (Inr ())"
      by (rule place_wild [OF ready f(2) wild _ refl]) (use elems es True in \<open>simp add: gained_def\<close>)
    moreover have "length ?cs + 3 + length name = length (rf_inner prefix)" using len True by simp
    note insert_route_catch(2) [OF find star this f(1) r(1), where rm = rm and val = val and n = n]
    ultimately show ?thesis by blast
  qed
qed

lemma insert_route_static_ok:
  assumes "ready k es n" "after_leading es = []" "es \<noteq> []" "rf_view prefix = render k es" "length rm = k + nparams es"
  shows "\<exists>n' res. insert_route rm val n prefix = Some (n', res) \<and> placed k es rm val n n' res"
proof -
  let ?cs = "leading es" and ?n = "set_remapping rm (set_prefix (rf_to_owned prefix) (set_value (Some val) n))"
  have es: "es = map PChar ?cs" using leading_split [of es] assms(2) by simp
  have ne: "?cs \<noteq> []" using es assms(3) by (metis list.simps(8))
  have v: "rf_view prefix = map mark ?cs" using assms(4) es by (metis render_chars)
  have view: "ur_view (rf_to_owned prefix) = map mark ?cs" using v by (simp add: to_owned_view)
  have "nparams es = 0" using es by (metis nparams_chars)
  then have "static_wf k ?n" using assms(1,5) view by (auto simp: ready_def static_wf_parts static_head_def is_static_def view_bytes)
  moreover have "node_elems ?n = map PChar ?cs"
    using elems_static [of ?n] view_bytes [OF view] assms(1) by (simp add: ready_def static_wf_def is_static_def)
  then have "set (node_routes ?n) = {(es, rm, val)}"
    using assms(1) ne es unfolding node_routes_of [of ?n] routes_of_def ready_def by simp
  moreover have "set (node_routes n) = {}" using assms(1) ne by (simp add: ready_def no_routes)
  ultimately have "placed k es rm val n ?n (Inr ())" using ne by (simp add: placed_def gain_def)
  then show ?thesis using insert_route_none [OF find_wildcard_chars [OF v], where rm = rm and val = val and n = n] by blast
qed

lemma pattern_ok_cons:
  assumes "pattern_ok k es" "es = map PChar cs @ fs"
  shows "pattern_ok k fs"
  using assms by (simp add: pattern_ok_def catch_names_ok_def)

lemma insert_route_ok:
  assumes "ready k es n" "rf_view prefix = render k es" "pattern_ok k es" "seg_ok False es" "es \<noteq> []" "length rm = k + nparams es"
  shows "\<exists>n' res. insert_route rm val n prefix = Some (n', res) \<and> placed k es rm val n n' res"
  using assms
proof (induction "length es" arbitrary: k es n prefix rule: less_induct)
  case less
  note split = leading_split [of es]
  have ok: "pattern_ok k (after_leading es)" using pattern_ok_cons [OF less.prems(3) split] .
  show ?case
  proof (cases es rule: after_leading_cases)
    case none
    show ?thesis by (rule insert_route_static_ok [OF less.prems(1) none less.prems(5,2,6)])
  next
    case (catch name fs)
    have "catch_ok name" using ok catch by (simp add: pattern_ok_def catch_names_ok_def)
    then show ?thesis by (rule insert_route_catch_ok [OF less.prems(1) catch _ less.prems(2,6)])
  next
    case (param fs)
    have "seg_ok False (map PChar (leading es) @ after_leading es)" using less.prems(4) by (simp only: leading_split [symmetric])
    then have "seg_ok False (after_leading es)" by (rule seg_ok_tail)
    then have "seg_ok True fs" using param by simp
    then obtain suf gs where s: "fs = map PChar suf @ gs" "segment_split suf gs" "seg_ok False gs" using seg_split by blast
    have np: "nparams es = 1 + nparams gs" using arg_cong [OF split, of nparams] param s(1) by simp
    have gs: "pattern_ok (k + 1) gs" using ok param s(1) np by (simp add: pattern_ok_def catch_names_ok_def)
    have "length gs < length es" using arg_cong [OF split, of length] param s(1) by simp
    then have ih: "\<exists>n' res. insert_route rm val n prefix = Some (n', res) \<and> placed (k + 1) gs rm val n n' res"
      if "gs \<noteq> []" "ready (k + 1) gs n" "rf_view prefix = render (k + 1) gs" for n prefix
      using less.hyps [of gs "k + 1" n prefix] that gs s(3) less.prems(6) np by simp
    have k: "k < 25" using less.prems(3) np by (simp add: pattern_ok_def)
    have rm: "length rm = k + 1 + nparams gs" using less.prems(6) np by simp
    have e: "after_leading es = PParam # map PChar suf @ gs" using param s(1) by simp
    show ?thesis by (rule insert_route_param_ok [OF less.prems(1) e s(2) less.prems(2) k rm ih])
  qed
qed

end
