(* ===== verification/Route_Search.thy ===== *)
theory Route_Search
  imports Route_Meaning
begin

text \<open>
  The search of the radix tree ends, and what it finds is a route of the tree whose pattern, filled with the values it
  gives, is the path. When no parameter has a suffix it finds a route whenever one matches.
\<close>

section \<open>Filling a context\<close>

fun catch_keys :: "pelem list \<Rightarrow> string list" where
  "catch_keys [] = []"
| "catch_keys (PCatchAll name # es) = map fst name # catch_keys es"
| "catch_keys (e # es) = catch_keys es"

lemma catch_keys_append: "catch_keys (es @ fs) = catch_keys es @ catch_keys fs"
  by (induction es rule: catch_keys.induct) simp_all

lemma catch_keys_chars [simp]: "catch_keys (map PChar cs) = []"
  by (induction cs) simp_all

definition filled :: "pelem list \<Rightarrow> string list \<Rightarrow> string \<Rightarrow> bool" where
  "filled ctx vs pre \<longleftrightarrow>
     catch_keys ctx = [] \<and> (\<forall>es ws q. fill es ws = Some q \<longrightarrow> fill (ctx @ es) (vs @ ws) = Some (pre @ q))"

lemma filled_nil: "filled [] [] []"
  by (simp add: filled_def)

lemma filled_chars: "filled ctx vs pre \<Longrightarrow> filled (ctx @ map PChar cs) vs (pre @ cs)"
  unfolding filled_def by (simp add: catch_keys_append fill_chars)

lemma filled_param:
  assumes "filled ctx vs pre" "v \<noteq> []" "CHR ''/'' \<notin> set v"
  shows "filled (ctx @ [PParam]) (vs @ [v]) (pre @ v)"
proof -
  have "fill (ctx @ PParam # es) (vs @ v # ws) = Some (pre @ v @ q)" if "fill es ws = Some q" for es ws q
  proof -
    have "fill (PParam # es) (v # ws) = Some (v @ q)" using that assms(2,3) by simp
    then show ?thesis using assms(1) unfolding filled_def by blast
  qed
  then show ?thesis using assms(1) by (simp add: filled_def catch_keys_append)
qed

section \<open>The weight of a search\<close>

fun weight :: "'v rnode \<Rightarrow> nat" where
  "weight (Node pre pri wild idx ty cs v rm) = 1 + sum_list (map weight cs)"

lemma weight_unfold: "weight n = 1 + sum_list (map weight (nd_children n))"
  by (cases n) simp

lemma weight_child: "c \<in> set (nd_children n) \<Longrightarrow> weight c < weight n"
  unfolding weight_unfold [of n] using member_le_sum_list [of "weight c" "map weight (nd_children n)"] by simp

lemma weight_two:
  assumes "i < length cs" "length cs = Suc m" "i < m"
  shows "weight (cs ! i) + weight (last cs) \<le> sum_list (map weight cs)"
proof -
  have cs: "cs = butlast cs @ [last cs]" using assms(2) by (metis append_butlast_last_id list.size(3) nat.distinct(1))
  have i: "i < length (butlast cs)" using assms(2,3) by simp
  then have "weight (cs ! i) \<in> set (map weight (butlast cs))" by (metis nth_butlast nth_mem image_eqI list.set_map)
  then have "weight (cs ! i) \<le> sum_list (map weight (butlast cs))" by (rule member_le_sum_list) simp
  then show ?thesis by (subst cs) simp
qed

definition wild_weight :: "'v rnode \<Rightarrow> nat" where
  "wild_weight n = weight (last (nd_children n))"

definition skipped_weight :: "'v skipped list \<Rightarrow> nat" where
  "skipped_weight ss = sum_list (map (\<lambda>s. wild_weight (sk_node s)) ss)"

definition state_weight :: "'v at_state \<Rightarrow> nat" where
  "state_weight st =
     (if as_backtracking st then wild_weight (as_node st) else weight (as_node st)) + skipped_weight (as_skipped st)"

lemma weight_pos: "0 < weight n"
  by (simp add: weight_unfold)

section \<open>The invariant of the search\<close>

abbreviation param_values :: "params \<Rightarrow> string list" where
  "param_values p \<equiv> map pm_value (params_entries p)"

definition located :: "'v rnode \<Rightarrow> string \<Rightarrow> 'v rnode \<Rightarrow> string \<Rightarrow> string list \<Rightarrow> bool" where
  "located t p0 n path vs \<longleftrightarrow>
     node_wf (length vs) n \<and>
     (\<exists>ctx pre. filled ctx vs pre \<and> p0 = pre @ path \<and> below ctx ` set (node_routes n) \<subseteq> set (node_routes t))"

definition entered :: "'v rnode \<Rightarrow> string \<Rightarrow> bool" where
  "entered n path \<longleftrightarrow>
     nd_wild_child n \<and> length (nd_bytes n) < length path \<and> take (length (nd_bytes n)) path = nd_bytes n"

fun skips_ok :: "'v rnode \<Rightarrow> string \<Rightarrow> string list \<Rightarrow> string \<Rightarrow> 'v skipped list \<Rightarrow> bool" where
  "skips_ok t p0 vs path [] \<longleftrightarrow> True"
| "skips_ok t p0 vs path (s # ss) \<longleftrightarrow>
     ends_with (sk_path s) path \<and> sk_params s \<le> length vs \<and> is_static (sk_node s) \<and> entered (sk_node s) (sk_path s) \<and>
     located t p0 (sk_node s) (sk_path s) (take (sk_params s) vs) \<and> skips_ok t p0 (take (sk_params s) vs) (sk_path s) ss"

definition state_ok :: "'v rnode \<Rightarrow> string \<Rightarrow> 'v at_state \<Rightarrow> bool" where
  "state_ok t p0 st \<longleftrightarrow>
     params_wf (as_params st) \<and> is_static (as_node st) \<and>
     located t p0 (as_node st) (as_path st) (param_values (as_params st)) \<and>
     skips_ok t p0 (param_values (as_params st)) (as_path st) (as_skipped st) \<and>
     (as_backtracking st \<longrightarrow> entered (as_node st) (as_path st))"

definition answer :: "'v rnode \<Rightarrow> string \<Rightarrow> 'v \<Rightarrow> params \<Rightarrow> bool" where
  "answer t p0 v p \<longleftrightarrow>
     (\<exists>es names. (es, names, v) \<in> set (node_routes t) \<and> fill es (param_values p) = Some p0 \<and>
       map pm_key (params_entries p) = names @ catch_keys es)"

lemma skips_mono:
  assumes "skips_ok t p0 vs path ss" "ends_with path path'"
  shows "skips_ok t p0 (vs @ ws) path' ss"
  using assms by (cases ss) (auto simp: ends_with_iff)

lemma located_child:
  assumes "located t p0 n path vs" "is_static n" "path = nd_bytes n @ rest" "c \<in> set (nd_children n)" "node_wf (length vs) c"
  shows "located t p0 c rest vs"
proof -
  obtain ctx pre where c: "filled ctx vs pre" "p0 = pre @ path" "below ctx ` set (node_routes n) \<subseteq> set (node_routes t)"
    using assms(1) unfolding located_def by blast
  have "filled (ctx @ node_elems n) vs (pre @ nd_bytes n)" unfolding elems_static [OF assms(2)] by (rule filled_chars [OF c(1)])
  moreover have "p0 = (pre @ nd_bytes n) @ rest" using c(2) assms(3) by simp
  moreover have "below (ctx @ node_elems n) ` set (node_routes c) \<subseteq> set (node_routes t)"
  proof -
    have "below (ctx @ node_elems n) r = below ctx (below (node_elems n) r)" for r :: "'a route" by (simp add: below_def)
    then show ?thesis using c(3) assms(4) unfolding set_node_routes [of n] by fastforce
  qed
  ultimately show ?thesis using assms(5) unfolding located_def by blast
qed

lemma located_param:
  assumes "located t p0 n (v @ rest) vs" "nd_type n = Param suffix" "v \<noteq> []" "CHR ''/'' \<notin> set v" "c \<in> set (nd_children n)"
  shows "located t p0 c rest (vs @ [v])"
proof -
  obtain ctx pre where c: "filled ctx vs pre" "p0 = pre @ v @ rest" "below ctx ` set (node_routes n) \<subseteq> set (node_routes t)"
    and wf: "param_wf (length vs) suffix n"
    using assms(1,2) unfolding located_def by (auto simp: node_wf_kinds)
  have e: "node_elems n = [PParam]" using assms(2) by (simp add: elems_of_def)
  have "filled (ctx @ [PParam]) (vs @ [v]) (pre @ v)" by (rule filled_param [OF c(1) assms(3,4)])
  moreover have "p0 = (pre @ v) @ rest" using c(2) by simp
  moreover have "below (ctx @ [PParam]) ` set (node_routes c) \<subseteq> set (node_routes t)"
  proof -
    have "below (ctx @ [PParam]) r = below ctx (below [PParam] r)" for r :: "'a route" by (simp add: below_def)
    then show ?thesis using c(3) assms(5) unfolding set_node_routes [of n] e by fastforce
  qed
  moreover have "node_wf (length (vs @ [v])) c" using wf assms(5) by (simp add: param_wf_def)
  ultimately show ?thesis unfolding located_def by blast
qed

text \<open>Naming the parameters of a node that has a value gives an answer.\<close>

lemma rename_ok:
  assumes "params_wf p" "length names = length (param_values p)"
  shows "\<exists>p'. for_each_key_mut (remap_keys names) p = Some p' \<and> params_wf p' \<and> params_entries p' = named names (param_values p)"
proof -
  have "for_each_entry (remap_keys names) 0 (params_entries p) = Some (named names (param_values p))"
    using for_each_remap [of "params_entries p" 0 names] assms(2) by simp
  then show ?thesis by (rule ps.each_key_law [OF assms(1)])
qed

lemma named_proj:
  "length names = length vs \<Longrightarrow> map pm_key (named names vs) = names" "length names = length vs \<Longrightarrow> map pm_value (named names vs) = vs"
  by (induction names vs rule: list_induct2) (simp_all add: named_def)

lemma own_route: "nd_value n = Some v \<Longrightarrow> (node_elems n, nd_remapping n, v) \<in> set (node_routes n)"
  unfolding set_node_routes [of n] by (simp add: own_routes_def)

lemma found_ok:
  assumes "params_wf p" "length names = length (param_values p)" "(es, names, v) \<in> set (node_routes t)"
    and "fill es (param_values p) = Some p0" "catch_keys es = []"
  shows "\<exists>p'. found v names p = Return (Inr (v, p')) \<and> answer t p0 v p'"
proof -
  obtain p' where p': "for_each_key_mut (remap_keys names) p = Some p'" "params_entries p' = named names (param_values p)"
    using rename_ok [OF assms(1,2)] by blast
  have "answer t p0 v p'" unfolding answer_def p'(2) named_proj [OF assms(2)] using assms(3-5) by auto
  then show ?thesis by (simp add: found_def p'(1))
qed

lemma found_static:
  assumes "params_wf p" "is_static n" "located t p0 n (nd_bytes n) (param_values p)" "nd_value n = Some v"
  shows "\<exists>p'. found v (nd_remapping n) p = Return (Inr (v, p')) \<and> answer t p0 v p'"
proof -
  obtain ctx pre where c: "filled ctx (param_values p) pre" "p0 = pre @ nd_bytes n" "below ctx ` set (node_routes n) \<subseteq> set (node_routes t)"
    and wf: "static_wf (length (param_values p)) n"
    using assms(2,3) unfolding located_def by (auto simp: node_wf_kinds)
  have r: "(ctx @ node_elems n, nd_remapping n, v) \<in> set (node_routes t)"
    using c(3) own_route [OF assms(4)] by (force simp: below_def)
  have "filled (ctx @ node_elems n) (param_values p) (pre @ nd_bytes n)" unfolding elems_static [OF assms(2)] by (rule filled_chars [OF c(1)])
  then have f: "fill (ctx @ node_elems n) (param_values p) = Some p0 \<and> catch_keys (ctx @ node_elems n) = []"
    unfolding filled_def c(2) by (metis append_Nil2 fill.simps(1))
  have "length (nd_remapping n) = length (param_values p)" using wf assms(4) by (simp add: static_wf_def)
  then show ?thesis using found_ok [OF assms(1) _ r] f by blast
qed

lemma found_param:
  assumes "params_wf p" "located t p0 n v (param_values p)" "nd_type n = Param suffix" "nd_value n = Some value"
    and "v \<noteq> []" "CHR ''/'' \<notin> set v"
  shows "\<exists>p'. found value (nd_remapping n) (params_push p [] v) = Return (Inr (value, p')) \<and> answer t p0 value p'"
proof -
  obtain ctx pre where c: "filled ctx (param_values p) pre" "p0 = pre @ v" "below ctx ` set (node_routes n) \<subseteq> set (node_routes t)"
    and wf: "param_wf (length (param_values p)) suffix n"
    using assms(2,3) unfolding located_def by (auto simp: node_wf_kinds)
  have e: "node_elems n = [PParam]" using assms(3) by (simp add: elems_of_def)
  have r: "(ctx @ [PParam], nd_remapping n, value) \<in> set (node_routes t)"
    using c(3) own_route [OF assms(4)] unfolding e by (force simp: below_def)
  have vs: "param_values (params_push p [] v) = param_values p @ [v]" by (rule ps.push_values [OF assms(1)])
  have "filled (ctx @ [PParam]) (param_values p @ [v]) (pre @ v)" by (rule filled_param [OF c(1) assms(5,6)])
  then have "fill (ctx @ [PParam]) (param_values (params_push p [] v)) = Some p0 \<and> catch_keys (ctx @ [PParam]) = []"
    unfolding filled_def c(2) vs by (metis append_Nil2 fill.simps(1))
  moreover have "length (nd_remapping n) = length (param_values (params_push p [] v))"
    using wf assms(4) unfolding vs by (simp add: param_wf_def)
  ultimately show ?thesis using found_ok [OF ps.push_law(1) [OF assms(1)] _ r] by blast
qed

lemma found_catch_all:
  assumes "params_wf p" "located t p0 n v (param_values p)" "nd_type n = CatchAll" "v \<noteq> []"
  shows "\<exists>value p'. at_catch_all n v p = Return (Inr (value, p')) \<and> answer t p0 value p'"
proof -
  let ?name = "drop 2 (butlast (ur_view (nd_prefix n)))"
  obtain ctx pre where c: "filled ctx (param_values p) pre" "p0 = pre @ v" "below ctx ` set (node_routes n) \<subseteq> set (node_routes t)"
    and wf: "catch_wf (length (param_values p)) n"
    using assms(2,3) unfolding located_def by (auto simp: node_wf_kinds)
  obtain u where u: "nd_value n = Some u" using wf by (auto simp: catch_wf_def)
  have e: "node_elems n = [PCatchAll ?name]" using assms(3) by (simp add: elems_of_def)
  have r: "(ctx @ [PCatchAll ?name], nd_remapping n, u) \<in> set (node_routes t)"
    using c(3) own_route [OF u] unfolding e by (force simp: below_def)
  have key: "map fst ?name = drop 2 (butlast (nd_bytes n))" by (simp only: drop_map [symmetric] map_butlast fst_ur_view)
  have "length (ur_view (nd_prefix n)) = length (nd_bytes n)" by (simp add: fst_ur_view [symmetric])
  moreover have "?name \<noteq> []" using wf by (auto simp: catch_wf_def catch_ok_def)
  ultimately have long: "\<not> length (nd_bytes n) < 3" by simp
  have names: "length (nd_remapping n) = length (param_values p)" using wf by (simp add: catch_wf_def)
  obtain p' where p': "for_each_key_mut (remap_keys (nd_remapping n)) p = Some p'" "params_wf p'"
      "params_entries p' = named (nd_remapping n) (param_values p)"
    using rename_ok [OF assms(1) names] by blast
  have "fill [PCatchAll ?name] [v] = Some v" using assms(4) by simp
  then have f: "fill (ctx @ [PCatchAll ?name]) (param_values p @ [v]) = Some p0" "catch_keys ctx = []"
    using c(1) unfolding c(2) filled_def by blast+
  let ?p = "params_push p' (drop 2 (butlast (nd_bytes n))) v"
  have ent: "params_entries ?p = named (nd_remapping n) (param_values p) @ [\<lparr>pm_key = map fst ?name, pm_value = v\<rparr>]"
    using ps.push_law(2) [OF p'(2)] p'(3) key by simp
  have "param_values ?p = param_values p @ [v]" "map pm_key (params_entries ?p) = nd_remapping n @ [map fst ?name]"
    unfolding ent using named_proj [OF names] by simp_all
  then have "answer t p0 u ?p" unfolding answer_def using r f by (metis catch_keys.simps(1,2) catch_keys_append append_Nil)
  then show ?thesis using u p'(1) long by (simp add: at_catch_all_def)
qed

section \<open>A turn of the search\<close>

definition turn_ok :: "'v rnode \<Rightarrow> string \<Rightarrow> nat \<Rightarrow> 'v at_next \<Rightarrow> bool" where
  "turn_ok t p0 w r \<longleftrightarrow>
     (case r of
        Continue st \<Rightarrow> state_ok t p0 st \<and> state_weight st < w
      | Return (Inl e) \<Rightarrow> e = NotFound
      | Return (Inr (v, p)) \<Rightarrow> answer t p0 v p
      | Panic \<Rightarrow> False)"

lemma turn_found: "\<exists>p'. r = Return (Inr (v, p')) \<and> answer t p0 v p' \<Longrightarrow> turn_ok t p0 w r"
  by (auto simp: turn_ok_def)

lemma go_back_ok:
  assumes "params_wf p" "skips_ok t p0 (param_values p) path ss" "ends_with path path'" "skipped_weight ss < w"
  shows "turn_ok t p0 w (go_back path' p ss)"
proof (cases ss)
  case Nil
  then show ?thesis by (simp add: go_back_def turn_ok_def)
next
  case (Cons s rest)
  note ok = assms(2) [unfolded Cons skips_ok.simps]
  have ends: "ends_with (sk_path s) path'" using ok assms(3) by (auto simp: ends_with_iff)
  have n: "sk_params s \<le> length (param_values p)" using ok by simp
  then have len: "sk_params s \<le> params_len p" using ps.len_law [OF assms(1)] by simp
  have vs: "param_values (params_truncate p (sk_params s)) = take (sk_params s) (param_values p)"
    by (rule ps.truncate_values [OF assms(1) n])
  have "state_ok t p0 \<lparr>as_node = sk_node s, as_path = sk_path s, as_backtracking = True,
      as_params = params_truncate p (sk_params s), as_skipped = rest\<rparr>"
    unfolding state_ok_def using ok ps.truncate_law(1) [OF assms(1) len] by (simp add: vs)
  moreover have "skipped_weight ss = wild_weight (sk_node s) + skipped_weight rest" by (simp add: Cons skipped_weight_def)
  ultimately show ?thesis using Cons ends assms(4) by (simp add: go_back_def turn_ok_def state_weight_def)
qed

lemma position_split:
  assumes "position P xs = Some i"
  shows "i < length xs" "P (xs ! i)" "\<forall>x\<in>set (take i xs). \<not> P x"
  using position_SomeD [OF assms] by (auto simp: in_set_conv_nth)

text \<open>Going on in a child of a parameter.\<close>

lemma enter_param_child:
  assumes "params_wf p" "located t p0 n path (param_values p)" "nd_type n = Param suffix" "c \<in> set (nd_children n)"
    and "skips_ok t p0 (param_values p) path ss" "0 < k" "k \<le> length path" "CHR ''/'' \<notin> set (take k path)"
    and "weight n + skipped_weight ss \<le> w"
  shows "turn_ok t p0 w (Continue \<lparr>as_node = c, as_path = drop k path, as_backtracking = False,
      as_params = params_push p [] (take k path), as_skipped = ss\<rparr>)"
proof -
  have wf: "param_wf (length (param_values p)) suffix n" using assms(2,3) by (simp add: located_def node_wf_kinds)
  have v: "take k path \<noteq> []" using assms(6,7) by (cases path) auto
  have "located t p0 c (drop k path) (param_values p @ [take k path])"
    by (rule located_param [OF _ assms(3) v assms(8,4)]) (use assms(2) in simp)
  moreover have "skips_ok t p0 (param_values p @ [take k path]) (drop k path) ss"
    by (rule skips_mono [OF assms(5)]) (metis append_take_drop_id ends_with_iff)
  moreover have "is_static c" using wf assms(4) by (simp add: param_wf_def is_static_def)
  moreover have "weight c < weight n" by (rule weight_child [OF assms(4)])
  ultimately show ?thesis
    using ps.push_law(1) [OF assms(1)] ps.push_values [OF assms(1)] assms(9)
    by (simp add: turn_ok_def state_ok_def state_weight_def)
qed

lemma at_param_ok:
  assumes "params_wf p" "located t p0 n path (param_values p)" "nd_type n = Param False" "path \<noteq> []"
    and "skips_ok t p0 (param_values p) path ss" "weight n + skipped_weight ss \<le> w"
  shows "turn_ok t p0 w (at_param n path p ss)"
proof -
  note position_None_iff [simp del]
  have bk: "turn_ok t p0 w (go_back path p ss)"
    by (rule go_back_ok [OF assms(1,5)]) (use assms(6) weight_pos [of n] in \<open>auto simp: ends_with_iff\<close>)
  show ?thesis
  proof (cases "position (\<lambda>c. c = CHR ''/'') path")
    case None
    then have slash: "CHR ''/'' \<notin> set path" unfolding position_None_iff by blast
    show ?thesis
    proof (cases "nd_value n")
      case (Some u)
      then show ?thesis using None turn_found [OF found_param [OF assms(1-3) Some assms(4) slash]] by (simp add: at_param_def)
    qed (use None bk in \<open>simp add: at_param_def\<close>)
  next
    case (Some i)
    show ?thesis
    proof (cases "i = 0 \<or> (\<forall>c. nd_children n \<noteq> [c])")
      case True
      then show ?thesis using Some bk by (auto simp: at_param_def split: list.splits)
    next
      case False
      then obtain c where c: "nd_children n = [c]" "0 < i" by auto
      have "turn_ok t p0 w (Continue \<lparr>as_node = c, as_path = drop i path, as_backtracking = False,
          as_params = params_push p [] (take i path), as_skipped = ss\<rparr>)"
        by (rule enter_param_child [OF assms(1-3) _ assms(5) c(2)]) (use c(1) position_split [OF Some] assms(6) in auto)
      then show ?thesis using Some c by (simp add: at_param_def)
    qed
  qed
qed

lemma match_suffix_SomeD:
  assumes "match_suffix path term0 cs = Some (k, c)"
  shows "c \<in> set cs \<and> length (nd_bytes c) < term0 \<and> k = term0 - length (nd_bytes c) \<and> drop k (take term0 path) = nd_bytes c"
  using assms by (induction cs) (auto simp: Let_def split: if_splits)

lemma take_within_butlast: "k < n \<Longrightarrow> n \<le> length xs \<Longrightarrow> take k xs = take k (butlast (take n xs))"
  by (simp add: butlast_take min_def) arith

lemma at_param_suffix_ok:
  assumes "params_wf p" "located t p0 n path (param_values p)" "nd_type n = Param True" "path \<noteq> []"
    and "skips_ok t p0 (param_values p) path ss" "weight n + skipped_weight ss \<le> w"
  shows "turn_ok t p0 w (at_param_suffix n path p ss)"
proof -
  note position_None_iff [simp del]
  have bk: "turn_ok t p0 w (go_back path p ss)"
    by (rule go_back_ok [OF assms(1,5)]) (use assms(6) weight_pos [of n] in \<open>auto simp: ends_with_iff\<close>)
  have wf: "param_wf (length (param_values p)) True n" using assms(2,3) by (simp add: located_def node_wf_kinds)
  let ?slash = "position (\<lambda>c. c = CHR ''/'') path"
  let ?stop = "case ?slash of Some i \<Rightarrow> i + 1 | None \<Rightarrow> length path"
  have seg: "?stop \<le> length path" "CHR ''/'' \<notin> set (butlast (take ?stop path)) "
    using position_split(1,3) [of "\<lambda>c. c = CHR ''/''" path]
    by (auto simp: butlast_take position_None_iff dest: in_set_butlastD split: option.splits)
  show ?thesis
  proof (cases "?slash = Some 0")
    case True
    then show ?thesis using bk by (simp add: at_param_suffix_def)
  next
    case False
    show ?thesis
    proof (cases "match_suffix path ?stop (nd_children n)")
      case None
      show ?thesis
      proof (cases "?slash = None \<and> nd_value n \<noteq> None")
        case True
        then obtain u where u: "nd_value n = Some u" and slash: "CHR ''/'' \<notin> set path" unfolding position_None_iff by blast
        have sl: "?slash = None" using True by (rule conjunct1)
        have m: "match_suffix path (length path) (nd_children n) = None" using None unfolding sl by simp
        show ?thesis using u m turn_found [OF found_param [OF assms(1-3) u assms(4) slash]]
          unfolding at_param_suffix_def Let_def sl by simp
      next
        case nv: False
        have "at_param_suffix n path p ss = go_back path p ss"
        proof (cases "?slash = None")
          case True
          then have "nd_value n = None" using nv by simp
          then show ?thesis unfolding at_param_suffix_def Let_def None by simp
        qed (use False in \<open>auto simp: at_param_suffix_def Let_def None\<close>)
        then show ?thesis using bk by simp
      qed
    next
      case (Some kc)
      obtain k c where kc: "kc = (k, c)" by (cases kc)
      note m = match_suffix_SomeD [OF Some [unfolded kc]]
      have s: "nd_bytes c \<noteq> []" using wf m by (auto simp: param_wf_def suffix_ok_def)
      then have k: "0 < k" "k < ?stop" using m by auto
      from take_within_butlast [OF k(2) seg(1)] have slash: "CHR ''/'' \<notin> set (take k path)" using seg(2) by (metis in_set_takeD)
      have "turn_ok t p0 w (Continue \<lparr>as_node = c, as_path = drop k path, as_backtracking = False,
          as_params = params_push p [] (take k path), as_skipped = ss\<rparr>)"
        by (rule enter_param_child [OF assms(1-3) _ assms(5) k(1) _ slash assms(6)]) (use m k seg in auto)
      then show ?thesis using False Some unfolding at_param_suffix_def Let_def kc by simp
    qed
  qed
qed

text \<open>A turn by how the path and the prefix of the node compare.\<close>

lemma at_step_short:
  assumes "length (as_path st) \<le> length (nd_bytes (as_node st))"
  shows "at_step st =
    (case (if as_path st = nd_bytes (as_node st) then nd_value (as_node st) else None) of
       Some v \<Rightarrow> found v (nd_remapping (as_node st)) (as_params st)
     | None \<Rightarrow> go_back (as_path st) (as_params st) (as_skipped st))"
  unfolding at_step_def Let_def by (simp only: assms if_True)

lemma at_step_off:
  assumes "\<not> length (as_path st) \<le> length (nd_bytes (as_node st))" "take (length (nd_bytes (as_node st))) (as_path st) \<noteq> nd_bytes (as_node st)"
  shows "at_step st = go_back (as_path st) (as_params st) (as_skipped st)"
  unfolding at_step_def Let_def by (simp only: assms if_True if_False simp_thms)

lemma at_step_rest:
  assumes "as_path st = nd_bytes (as_node st) @ rest" "rest \<noteq> []"
  shows "at_step st =
    (case (if as_backtracking st then None else position (\<lambda>c. c = rest ! 0) (nd_indices (as_node st))) of
       Some i \<Rightarrow>
         if i < length (nd_children (as_node st)) then
           Continue \<lparr>as_node = nd_children (as_node st) ! i, as_path = rest, as_backtracking = as_backtracking st, as_params = as_params st,
             as_skipped = (if nd_wild_child (as_node st)
               then \<lparr>sk_node = as_node st, sk_path = as_path st, sk_params = params_len (as_params st)\<rparr> # as_skipped st else as_skipped st)\<rparr>
         else Panic
     | None \<Rightarrow>
         if \<not> nd_wild_child (as_node st) then go_back rest (as_params st) (as_skipped st)
         else if nd_children (as_node st) = [] then Panic
         else
           (case nd_type (last (nd_children (as_node st))) of
              Param suffix \<Rightarrow> (if suffix then at_param_suffix else at_param) (last (nd_children (as_node st))) rest (as_params st) (as_skipped st)
            | CatchAll \<Rightarrow> at_catch_all (last (nd_children (as_node st))) rest (as_params st)
            | _ \<Rightarrow> Panic))"
proof -
  let ?k = "length (nd_bytes (as_node st))"
  have c: "\<not> length (as_path st) \<le> ?k" "take ?k (as_path st) = nd_bytes (as_node st)" "drop ?k (as_path st) = rest"
    using assms by simp_all
  show ?thesis unfolding at_step_def Let_def by (simp only: c if_False simp_thms)
qed

lemma state_okD:
  assumes "state_ok t p0 st"
  shows "params_wf (as_params st)" "is_static (as_node st)" "located t p0 (as_node st) (as_path st) (param_values (as_params st))"
    and "skips_ok t p0 (param_values (as_params st)) (as_path st) (as_skipped st)"
    and "as_backtracking st \<Longrightarrow> entered (as_node st) (as_path st)"
    and "static_wf (length (param_values (as_params st))) (as_node st)"
    and "skipped_weight (as_skipped st) < state_weight st"
proof -
  show n: "is_static (as_node st)" using assms by (simp add: state_ok_def)
  show "params_wf (as_params st)" "located t p0 (as_node st) (as_path st) (param_values (as_params st))"
    "skips_ok t p0 (param_values (as_params st)) (as_path st) (as_skipped st)"
    "as_backtracking st \<Longrightarrow> entered (as_node st) (as_path st)"
    using assms by (simp_all add: state_ok_def)
  then show "static_wf (length (param_values (as_params st))) (as_node st)" using n by (simp add: located_def node_wf_static [symmetric])
  show "skipped_weight (as_skipped st) < state_weight st"
    using weight_pos [of "as_node st"] weight_pos [of "last (nd_children (as_node st))"] by (simp add: state_weight_def wild_weight_def)
qed

text \<open>Going on in a static child, and in the wildcard child.\<close>

lemma enter_static_child:
  assumes ok: "state_ok t p0 st" and path: "as_path st = nd_bytes (as_node st) @ rest" "rest \<noteq> []"
    and nbt: "\<not> as_backtracking st" and pos: "position (\<lambda>c. c = rest ! 0) (nd_indices (as_node st)) = Some i"
  shows "turn_ok t p0 (state_weight st) (at_step st)"
proof -
  define n p ss where "n = as_node st" and "p = as_params st" and "ss = as_skipped st"
  note st = n_def [symmetric] p_def [symmetric] ss_def [symmetric]
  note d = state_okD [OF ok, unfolded st] and path' = path [unfolded st]
  have i: "i < length (nd_indices n)" using position_split(1) [OF pos] by (simp add: st)
  then have ci: "i < length (nd_children n)" using d(6) by (simp add: static_wf_def)
  let ?c = "nd_children n ! i"
  have c: "?c \<in> set (nd_children n)" "nd_type ?c = Static" "node_wf (length (param_values p)) ?c"
    using d(6) i ci by (auto simp: static_wf_def)
  have rest: "ends_with (as_path st) rest" by (auto simp: ends_with_iff path')
  have "located t p0 ?c rest (param_values p)" by (rule located_child [OF d(3,2) path'(1) c(1,3)])
  moreover have "skips_ok t p0 (param_values p) rest
      (if nd_wild_child n then \<lparr>sk_node = n, sk_path = as_path st, sk_params = params_len p\<rparr> # ss else ss)"
    using skips_mono [OF d(4) rest, of "[]"] rest d(2-4) path' ps.len_law [OF d(1)] by (simp add: entered_def)
  moreover have "weight ?c + (if nd_wild_child n then wild_weight n else 0) < weight n"
  proof (cases "nd_wild_child n")
    case True
    then have "length (nd_children n) = Suc (length (nd_indices n))" using d(6) by (simp add: static_wf_def)
    from weight_two [OF ci this i] show ?thesis using True by (simp add: wild_weight_def weight_unfold [of n])
  qed (use weight_child [OF c(1)] in simp)
  ultimately show ?thesis
    unfolding at_step_rest [OF path] using ci d(1) nbt pos c(2)
    by (auto simp: st turn_ok_def state_ok_def state_weight_def skipped_weight_def is_static_def)
qed

lemma wild_child_kind:
  assumes "static_wf k n" "nd_wild_child n"
  shows "last (nd_children n) \<in> set (nd_children n)" "node_wf k (last (nd_children n))"
    and "nd_type (last (nd_children n)) \<in> {CatchAll, Param False, Param True}"
proof -
  have ne: "nd_children n \<noteq> []" using assms by (auto simp: static_wf_def)
  then show "last (nd_children n) \<in> set (nd_children n)" "node_wf k (last (nd_children n))" using assms by (auto simp: static_wf_def)
  have "nd_type (last (nd_children n)) = CatchAll \<or> is_param (nd_type (last (nd_children n)))" using assms by (simp add: static_wf_def)
  then show "nd_type (last (nd_children n)) \<in> {CatchAll, Param False, Param True}"
    by (cases "nd_type (last (nd_children n))") (auto simp: is_param_def)
qed

lemma enter_wild_child:
  assumes ok: "state_ok t p0 st" and path: "as_path st = nd_bytes (as_node st) @ rest" "rest \<noteq> []"
    and none: "(if as_backtracking st then None else position (\<lambda>c. c = rest ! 0) (nd_indices (as_node st))) = None"
  shows "turn_ok t p0 (state_weight st) (at_step st)"
proof -
  define n p ss where "n = as_node st" and "p = as_params st" and "ss = as_skipped st"
  note st = n_def [symmetric] p_def [symmetric] ss_def [symmetric]
  note d = state_okD [OF ok, unfolded st] and path' = path [unfolded st]
  note step = at_step_rest [OF path, unfolded none option.case, unfolded st]
  have rest: "ends_with (as_path st) rest" by (auto simp: ends_with_iff path')
  show ?thesis
  proof (cases "nd_wild_child n")
    case False
    then show ?thesis unfolding step using go_back_ok [OF d(1,4) rest d(7)] by simp
  next
    case wild: True
    let ?c = "last (nd_children n)"
    note c = wild_child_kind [OF d(6) wild]
    have ne: "nd_children n \<noteq> []" using c(1) by auto
    have loc: "located t p0 ?c rest (param_values p)" by (rule located_child [OF d(3,2) path'(1) c(1,2)])
    have sk: "skips_ok t p0 (param_values p) rest ss" using skips_mono [OF d(4) rest, of "[]"] by simp
    have w: "weight ?c + skipped_weight ss \<le> state_weight st"
      using weight_child [OF c(1)] by (simp add: state_weight_def st wild_weight_def)
    from c(3) consider (catch) "nd_type ?c = CatchAll" | (plain) "nd_type ?c = Param False" | (suffix) "nd_type ?c = Param True"
      by auto
    then show ?thesis
    proof cases
      case catch
      then show ?thesis unfolding step using wild ne found_catch_all [OF d(1) loc catch path(2)] by (auto simp: turn_ok_def)
    next
      case plain
      then show ?thesis unfolding step using wild ne at_param_ok [OF d(1) loc plain path(2) sk w] by simp
    next
      case suffix
      then show ?thesis unfolding step using wild ne at_param_suffix_ok [OF d(1) loc suffix path(2) sk w] by simp
    qed
  qed
qed

lemma path_split: "\<not> length path \<le> length b \<Longrightarrow> take (length b) path = b \<Longrightarrow> \<exists>rest. path = b @ rest \<and> rest \<noteq> []"
  by (metis append_Nil2 append_take_drop_id order_refl)

lemma at_step_ok:
  assumes "state_ok t p0 st"
  shows "turn_ok t p0 (state_weight st) (at_step st)"
proof -
  let ?n = "as_node st" and ?path = "as_path st"
  note d = state_okD [OF assms]
  have "ends_with ?path ?path" by (simp add: ends_with_iff)
  note bk = go_back_ok [OF d(1,4) this d(7)]
  show ?thesis
  proof (cases "length ?path \<le> length (nd_bytes ?n)")
    case True
    show ?thesis
    proof (cases "?path = nd_bytes ?n \<and> nd_value ?n \<noteq> None")
      case hit: True
      then obtain u where u: "nd_value ?n = Some u" by auto
      have "located t p0 ?n (nd_bytes ?n) (param_values (as_params st))" using d(3) hit by simp
      from found_static [OF d(1,2) this u] show ?thesis using True hit u by (intro turn_found) (simp add: at_step_short)
    qed (use True bk in \<open>auto simp: at_step_short\<close>)
  next
    case long: False
    show ?thesis
    proof (cases "take (length (nd_bytes ?n)) ?path = nd_bytes ?n")
      case False
      then show ?thesis using long bk by (simp add: at_step_off)
    next
      case True
      then obtain rest where path: "?path = nd_bytes ?n @ rest" "rest \<noteq> []" using path_split [OF long] by blast
      show ?thesis
      proof (cases "if as_backtracking st then None else position (\<lambda>c. c = rest ! 0) (nd_indices ?n)")
        case None
        then show ?thesis by (rule enter_wild_child [OF assms path])
      next
        case (Some i)
        then show ?thesis using enter_static_child [OF assms path] by (simp split: if_splits)
      qed
    qed
  qed
qed

section \<open>The search ends and is sound\<close>

lemma at_loop_ok:
  assumes "state_ok t p0 st"
  shows "\<exists>r. at_loop st = Some r \<and> (case r of Inl e \<Rightarrow> e = NotFound | Inr (v, p) \<Rightarrow> answer t p0 v p)"
  using assms
proof (induction "state_weight st" arbitrary: st rule: less_induct)
  case less
  note turn = at_step_ok [OF less.prems]
  show ?case
  proof (cases "at_step st")
    case (Continue st')
    then have "state_ok t p0 st'" "state_weight st' < state_weight st" using turn by (simp_all add: turn_ok_def)
    from less.hyps [OF this(2,1)] show ?thesis by (subst (1) at_loop.simps) (simp add: Continue)
  next
    case (Return r)
    then show ?thesis using turn by (subst at_loop.simps) (auto simp: turn_ok_def)
  next
    case Panic
    then show ?thesis using turn by (simp add: turn_ok_def)
  qed
qed

lemma initial_ok:
  assumes "node_wf 0 t" "is_static t"
  shows "state_ok t path \<lparr>as_node = t, as_path = path, as_backtracking = False, as_params = params_new, as_skipped = []\<rparr>"
proof -
  have "below [] ` set (node_routes t) \<subseteq> set (node_routes t)" by (auto simp: below_def)
  then have "located t path t path []" using assms(1) filled_nil by (force simp: located_def)
  then show ?thesis using assms(2) by (simp add: state_ok_def ps.new_law)
qed

section \<open>Completeness without suffixes\<close>

fun no_suffix :: "'v rnode \<Rightarrow> bool" where
  "no_suffix (Node pre pri wild idx ty cs v rm) \<longleftrightarrow> ty \<noteq> Param True \<and> list_all no_suffix cs"

lemma no_suffix_unfold: "no_suffix n \<longleftrightarrow> nd_type n \<noteq> Param True \<and> (\<forall>c\<in>set (nd_children n). no_suffix c)"
  by (cases n) (auto simp: list_all_iff)

definition serves :: "'v rnode \<Rightarrow> string \<Rightarrow> bool" where
  "serves n path \<longleftrightarrow> (\<exists>r\<in>set (node_routes n). \<exists>ws. fill (fst r) ws = Some path)"

definition serves_wild :: "'v rnode \<Rightarrow> string \<Rightarrow> bool" where
  "serves_wild n path \<longleftrightarrow> (\<exists>rest. path = nd_bytes n @ rest \<and> serves (last (nd_children n)) rest)"

lemma serves_unfold:
  "serves n path \<longleftrightarrow>
     (nd_value n \<noteq> None \<and> (\<exists>ws. fill (node_elems n) ws = Some path)) \<or>
     (\<exists>c\<in>set (nd_children n). \<exists>r\<in>set (node_routes c). \<exists>ws. fill (node_elems n @ fst r) ws = Some path)"
proof -
  have own: "(\<exists>r\<in>own_routes n. \<exists>ws. fill (fst r) ws = Some path) \<longleftrightarrow> nd_value n \<noteq> None \<and> (\<exists>ws. fill (node_elems n) ws = Some path)"
    by (cases "nd_value n") (simp_all add: own_routes_def)
  show ?thesis unfolding serves_def set_node_routes [of n] bex_Un own by (simp add: below_def)
qed

lemma fill_only_chars: "fill (map PChar cs) ws = (if ws = [] then Some cs else None)"
  by (induction cs) auto

lemma fill_chars_iff: "(\<exists>ws. fill (map PChar cs @ es) ws = Some path) \<longleftrightarrow> (\<exists>rest. path = cs @ rest \<and> (\<exists>ws. fill es ws = Some rest))"
  unfolding fill_chars map_option_eq_Some by blast

lemma serves_static:
  assumes "is_static n"
  shows "serves n path \<longleftrightarrow> (nd_value n \<noteq> None \<and> path = nd_bytes n) \<or> (\<exists>c\<in>set (nd_children n). \<exists>rest. path = nd_bytes n @ rest \<and> serves c rest)"
proof -
  have "(\<exists>ws. fill (map PChar (nd_bytes n)) ws = Some path) \<longleftrightarrow> path = nd_bytes n" unfolding fill_only_chars by auto
  moreover have "(\<exists>r\<in>set (node_routes c). \<exists>rest. path = nd_bytes n @ rest \<and> (\<exists>ws. fill (fst r) ws = Some rest)) \<longleftrightarrow>
      (\<exists>rest. path = nd_bytes n @ rest \<and> serves c rest)" for c :: "'a rnode"
    unfolding serves_def by blast
  ultimately show ?thesis unfolding serves_unfold [of n] elems_static [OF assms] fill_chars_iff by (simp only: )
qed

lemma serves_param:
  assumes "nd_type n = Param suffix" "serves n path"
  shows "\<exists>v rest. path = v @ rest \<and> v \<noteq> [] \<and> CHR ''/'' \<notin> set v \<and>
    ((nd_value n \<noteq> None \<and> rest = []) \<or> (\<exists>c\<in>set (nd_children n). serves c rest))"
proof -
  have e: "node_elems n = [PParam]" using assms(1) by (simp add: elems_of_def)
  have f: "\<exists>v rest. path = v @ rest \<and> v \<noteq> [] \<and> CHR ''/'' \<notin> set v \<and> (\<exists>ws. fill es ws = Some rest)"
    if "fill (PParam # es) ws = Some path" for es ws
    using that by (auto split: list.splits if_splits)
  consider (own) ws where "nd_value n \<noteq> None" "fill (PParam # []) ws = Some path"
    | (child) c r ws where "c \<in> set (nd_children n)" "r \<in> set (node_routes c)" "fill (PParam # fst r) ws = Some path"
    using assms(2) unfolding serves_unfold [of n] e by auto
  then show ?thesis
  proof cases
    case own
    then show ?thesis using f [of "[]" ws] by (auto split: if_splits)
  next
    case child
    then show ?thesis using f [of "fst r" ws] unfolding serves_def by blast
  qed
qed

lemma starts_with_serves: "starts_with i c \<Longrightarrow> serves c path \<Longrightarrow> \<exists>rest. path = i # rest"
proof -
  assume a: "starts_with i c" "serves c path"
  then obtain r ws where r: "r \<in> set (node_routes c)" "fill (fst r) ws = Some path" by (auto simp: serves_def)
  then obtain es where "fst r = PChar i # es" using a(1) by (cases "fst r") (auto simp: starts_with_def list_all_iff)
  then show ?thesis using r(2) by auto
qed

lemma serves_wild_nonempty:
  assumes "is_param (nd_type n) \<or> nd_type n = CatchAll" "node_wf k n" "serves n path"
  shows "path \<noteq> []"
proof (cases "nd_type n = CatchAll")
  case True
  then have "nd_children n = []" "\<exists>ws. fill (node_elems n) ws = Some path"
    using assms(2,3) unfolding serves_unfold [of n] by (auto simp: node_wf_kinds catch_wf_def)
  then show ?thesis using True by (auto simp: elems_of_def split: if_splits)
next
  case False
  then obtain suffix where "nd_type n = Param suffix" using assms(1) by (auto simp: is_param_def split: node_type.splits)
  then show ?thesis using serves_param [OF _ assms(3)] by auto
qed

definition state_serves :: "'v at_state \<Rightarrow> bool" where
  "state_serves st \<longleftrightarrow>
     (if as_backtracking st then serves_wild else serves) (as_node st) (as_path st) \<or>
     (\<exists>s\<in>set (as_skipped st). serves_wild (sk_node s) (sk_path s))"

definition state_plain :: "'v at_state \<Rightarrow> bool" where
  "state_plain st \<longleftrightarrow> no_suffix (as_node st) \<and> (\<forall>s\<in>set (as_skipped st). no_suffix (sk_node s))"

definition turn_finds :: "bool \<Rightarrow> 'v at_next \<Rightarrow> bool" where
  "turn_finds P r \<longleftrightarrow>
     (case r of
        Continue st \<Rightarrow> state_plain st \<and> (P \<longrightarrow> state_serves st)
      | Return (Inl e) \<Rightarrow> \<not> P
      | _ \<Rightarrow> True)"

lemma go_back_finds:
  assumes "skips_ok t p0 vs path ss" "ends_with path path'" "\<forall>s\<in>set ss. no_suffix (sk_node s)"
    and "P \<Longrightarrow> \<exists>s\<in>set ss. serves_wild (sk_node s) (sk_path s)"
  shows "turn_finds P (go_back path' p ss)"
proof (cases ss)
  case Nil
  then show ?thesis using assms(4) by (auto simp: go_back_def turn_finds_def)
next
  case (Cons s rest)
  have "ends_with (sk_path s) path'" using assms(1,2) unfolding Cons by (auto simp: ends_with_iff)
  then show ?thesis using assms(3,4) unfolding Cons
    by (auto simp: go_back_def turn_finds_def state_plain_def state_serves_def)
qed

lemma found_finds: "turn_finds P (found v names p)"
  by (simp add: found_def turn_finds_def split: option.splits)

lemma slash_child:
  assumes "param_wf k False n"
  shows "nd_children n = [] \<or> (\<exists>c. nd_children n = [c] \<and> nd_bytes c = ''/'' \<and> is_static c)"
proof -
  have ch: "\<forall>c\<in>set (nd_children n). nd_bytes c = ''/'' \<and> is_static c"
    using assms by (auto simp: param_wf_def suffix_ok_def is_static_def)
  have d: "distinct (map nd_bytes (nd_children n))" using assms by (simp add: param_wf_def)
  show ?thesis
  proof (cases "nd_children n")
    case (Cons c cs)
    have "cs = []" using ch d unfolding Cons by (cases cs) auto
    then show ?thesis using ch Cons by auto
  qed simp
qed

lemma static_serves_prefix: "is_static n \<Longrightarrow> serves n path \<Longrightarrow> \<exists>rest. path = nd_bytes n @ rest"
  by (auto simp: serves_static)

lemma param_serves_child:
  assumes "param_wf k False n" "serves n path" "nd_value n = None \<or> CHR ''/'' \<in> set path"
  shows "\<exists>c v r. nd_children n = [c] \<and> path = v @ CHR ''/'' # r \<and> v \<noteq> [] \<and> CHR ''/'' \<notin> set v \<and> serves c (CHR ''/'' # r)"
proof -
  have ty: "nd_type n = Param False" using assms(1) by (simp add: param_wf_def)
  obtain v rest where v: "path = v @ rest" "v \<noteq> []" "CHR ''/'' \<notin> set v"
      "(nd_value n \<noteq> None \<and> rest = []) \<or> (\<exists>c\<in>set (nd_children n). serves c rest)"
    using serves_param [OF ty assms(2)] by blast
  have "\<not> (nd_value n \<noteq> None \<and> rest = [])" using v(1,3) assms(3) by auto
  then obtain c where c: "c \<in> set (nd_children n)" "serves c rest" using v(4) by blast
  then have ch: "nd_children n = [c]" "nd_bytes c = ''/''" "is_static c" using slash_child [OF assms(1)] by auto
  then obtain r where "rest = CHR ''/'' # r" using static_serves_prefix [OF ch(3) c(2)] by auto
  then show ?thesis using ch(1) v(1-3) c(2) by blast
qed

lemma position_slash: "CHR ''/'' \<notin> set v \<Longrightarrow> position (\<lambda>c. c = CHR ''/'') (v @ CHR ''/'' # r) = Some (length v)"
  by (induction v) auto

lemma at_param_finds:
  assumes "param_wf k False n" "no_suffix n"
    and "skips_ok t p0 vs path ss" "\<forall>s\<in>set ss. no_suffix (sk_node s)"
    and "P \<Longrightarrow> serves n path \<or> (\<exists>s\<in>set ss. serves_wild (sk_node s) (sk_path s))"
  shows "turn_finds P (at_param n path p ss)"
proof -
  have bk: "turn_finds P (go_back path p ss)" if "\<not> serves n path"
    by (rule go_back_finds [OF assms(3) _ assms(4)]) (use assms(5) that in \<open>auto simp: ends_with_iff\<close>)
  show ?thesis
  proof (cases "position (\<lambda>c. c = CHR ''/'') path")
    case None
    then have slash: "CHR ''/'' \<notin> set path" unfolding position_None_iff by blast
    have "nd_value n = None \<Longrightarrow> \<not> serves n path" using param_serves_child [OF assms(1)] slash by (metis in_set_conv_decomp)
    then show ?thesis using bk found_finds unfolding at_param_def None by (cases "nd_value n") simp_all
  next
    case (Some i)
    have slash: "CHR ''/'' \<in> set path" using position_split(1,2) [OF Some] by (metis nth_mem)
    show ?thesis
    proof (cases "0 < i \<and> (\<exists>c. nd_children n = [c])")
      case True
      then obtain c where c: "nd_children n = [c]" by blast
      have "serves c (drop i path)" if sv: "serves n path"
      proof -
        obtain v r where v: "path = v @ CHR ''/'' # r" "CHR ''/'' \<notin> set v" "serves c (CHR ''/'' # r)"
          using param_serves_child [OF assms(1) sv] slash c by auto
        have "i = length v" using Some position_slash [OF v(2), of r] unfolding v(1) by simp
        then show ?thesis using v(1,3) by simp
      qed
      moreover have "no_suffix c" using assms(2) c unfolding no_suffix_unfold [of n] by simp
      ultimately show ?thesis
        using assms(4,5) True unfolding at_param_def Some c by (auto simp: turn_finds_def state_plain_def state_serves_def)
    next
      case False
      have "\<not> serves n path"
      proof
        assume "serves n path"
        then obtain c v r where v: "nd_children n = [c]" "path = v @ CHR ''/'' # r" "v \<noteq> []" "CHR ''/'' \<notin> set v"
          using param_serves_child [OF assms(1)] slash by blast
        have "i = length v" using Some position_slash [OF v(4), of r] unfolding v(2) by simp
        then show False using False v(1,3) by simp
      qed
      moreover have "at_param n path p ss = go_back path p ss"
        using False unfolding at_param_def Some by (auto split: list.splits)
      ultimately show ?thesis using bk by simp
    qed
  qed
qed

text \<open>A path that a child serves starts with the index of the child, unless it is the wildcard child.\<close>

lemma static_serves_index:
  assumes "static_wf k n" "j < length (nd_children n)" "serves (nd_children n ! j) rest"
  shows "if j < length (nd_indices n) then nd_indices n ! j = rest ! 0 \<and> (\<forall>i<length (nd_indices n). nd_indices n ! i = rest ! 0 \<longrightarrow> i = j)
    else nd_wild_child n \<and> nd_children n ! j = last (nd_children n)"
proof (cases "j < length (nd_indices n)")
  case True
  then have "starts_with (nd_indices n ! j) (nd_children n ! j)" "distinct (nd_indices n)" using assms(1) by (simp_all add: static_wf_def)
  moreover obtain r where "rest = nd_indices n ! j # r" using starts_with_serves [OF calculation(1) assms(3)] by blast
  ultimately show ?thesis using True by (auto simp: nth_eq_iff_index_eq)
next
  case False
  then have "nd_wild_child n" "length (nd_children n) = Suc j" using assms(1,2) by (auto simp: static_wf_def split: if_splits)
  then show ?thesis using False by (metis diff_Suc_1 last_conv_nth list.size(3) nat.distinct(1))
qed

lemma static_child_nonempty:
  assumes "static_wf k n" "c \<in> set (nd_children n)" "serves c rest"
  shows "rest \<noteq> []"
proof -
  obtain j where j: "j < length (nd_children n)" "c = nd_children n ! j" using assms(2) by (metis in_set_conv_nth)
  show ?thesis
  proof (cases "j < length (nd_indices n)")
    case True
    then show ?thesis using assms(1) j(2) starts_with_serves [OF _ assms(3)] by (auto simp: static_wf_def)
  next
    case False
    then have w: "nd_wild_child n" "c = last (nd_children n)" using static_serves_index [OF assms(1) j(1)] assms(3) j(2) by auto
    note k = wild_child_kind [OF assms(1) w(1)]
    have "is_param (nd_type (last (nd_children n))) \<or> nd_type (last (nd_children n)) = CatchAll" using k(3) by (auto simp: is_param_def)
    from serves_wild_nonempty [OF this k(2)] show ?thesis using assms(3) w(2) by blast
  qed
qed

text \<open>What a path that the state serves needs of the node it is at.\<close>

lemma state_serves_node:
  assumes "state_ok t p0 st" "state_serves st"
  shows "serves (as_node st) (as_path st) \<or> (\<exists>s\<in>set (as_skipped st). serves_wild (sk_node s) (sk_path s))"
proof -
  note d = state_okD [OF assms(1)]
  have "serves (as_node st) (as_path st)" if "as_backtracking st" "serves_wild (as_node st) (as_path st)"
    using that d(5) [OF that(1)] wild_child_kind(1) [OF d(6)] by (auto simp: serves_static [OF d(2)] serves_wild_def entered_def)
  then show ?thesis using assms(2) by (auto simp: state_serves_def split: if_splits)
qed

lemma static_child_finds:
  assumes ok: "state_ok t p0 st" "state_plain st" and path: "as_path st = nd_bytes (as_node st) @ rest" "rest \<noteq> []"
    and nbt: "\<not> as_backtracking st" and pos: "position (\<lambda>c. c = rest ! 0) (nd_indices (as_node st)) = Some i"
  shows "turn_finds (state_serves st) (at_step st)"
proof -
  let ?n = "as_node st"
  note d = state_okD [OF ok(1)]
  have i: "i < length (nd_indices ?n)" "nd_indices ?n ! i = rest ! 0" using position_split [OF pos] by simp_all
  then have ci: "i < length (nd_children ?n)" using d(6) by (simp add: static_wf_def)
  have "serves (nd_children ?n ! i) rest \<or> (nd_wild_child ?n \<and> serves_wild ?n (as_path st))" if sv: "serves ?n (as_path st)"
  proof -
    obtain j where j: "j < length (nd_children ?n)" "serves (nd_children ?n ! j) rest"
      using sv path(2) unfolding serves_static [OF d(2)] path(1) by (auto simp: in_set_conv_nth)
    show ?thesis
    proof (cases "j < length (nd_indices ?n)")
      case True
      then have "i = j" using static_serves_index [OF d(6) j] i by simp
      then show ?thesis using j(2) by simp
    qed (use static_serves_index [OF d(6) j] j(2) path(1) in \<open>auto simp: serves_wild_def\<close>)
  qed
  moreover have "no_suffix ?n" using ok(2) by (simp add: state_plain_def)
  then have "no_suffix (nd_children ?n ! i)" using ci unfolding no_suffix_unfold [of ?n] by simp
  ultimately show ?thesis unfolding at_step_rest [OF path] using ci state_serves_node [OF ok(1)] ok(2) nbt pos
    by (auto simp: turn_finds_def state_plain_def state_serves_def)
qed

lemma only_wild_serves:
  assumes ok: "state_ok t p0 st" and path: "as_path st = nd_bytes (as_node st) @ rest" "rest \<noteq> []"
    and none: "(if as_backtracking st then None else position (\<lambda>c. c = rest ! 0) (nd_indices (as_node st))) = None"
    and serves: "state_serves st"
  shows "(nd_wild_child (as_node st) \<and> serves (last (nd_children (as_node st))) rest) \<or> (\<exists>s\<in>set (as_skipped st). serves_wild (sk_node s) (sk_path s))"
proof -
  let ?n = "as_node st"
  note d = state_okD [OF ok]
  consider (later) "\<exists>s\<in>set (as_skipped st). serves_wild (sk_node s) (sk_path s)" | (bt) "as_backtracking st" "serves_wild ?n (as_path st)"
    | (now) "\<not> as_backtracking st" "serves ?n (as_path st)"
    using serves by (auto simp: state_serves_def split: if_splits)
  then show ?thesis
  proof cases
    case bt
    then show ?thesis using d(5) [OF bt(1)] path(1) by (auto simp: serves_wild_def entered_def)
  next
    case now
    then have pos: "\<forall>c\<in>set (nd_indices ?n). c \<noteq> rest ! 0" using none by simp
    obtain j where j: "j < length (nd_children ?n)" "serves (nd_children ?n ! j) rest"
      using now(2) path(2) unfolding serves_static [OF d(2)] path(1) by (auto simp: in_set_conv_nth)
    have "\<not> j < length (nd_indices ?n)" using static_serves_index [OF d(6) j] pos by (metis nth_mem)
    then show ?thesis using static_serves_index [OF d(6) j] j(2) by simp
  qed blast
qed

lemma wild_child_finds:
  assumes ok: "state_ok t p0 st" "state_plain st" and path: "as_path st = nd_bytes (as_node st) @ rest" "rest \<noteq> []"
    and none: "(if as_backtracking st then None else position (\<lambda>c. c = rest ! 0) (nd_indices (as_node st))) = None"
  shows "turn_finds (state_serves st) (at_step st)"
proof -
  let ?n = "as_node st" and ?c = "last (nd_children (as_node st))"
  note d = state_okD [OF ok(1)] and step = at_step_rest [OF path, unfolded none option.case]
  have plain: "no_suffix ?n" "\<forall>s\<in>set (as_skipped st). no_suffix (sk_node s)" using ok(2) by (simp_all add: state_plain_def)
  note only = only_wild_serves [OF ok(1) path none]
  have rest: "ends_with (as_path st) rest" by (auto simp: ends_with_iff path)
  show ?thesis
  proof (cases "nd_wild_child ?n")
    case False
    then have "state_serves st \<Longrightarrow> \<exists>s\<in>set (as_skipped st). serves_wild (sk_node s) (sk_path s)" using only by blast
    from go_back_finds [OF d(4) rest plain(2) this] show ?thesis unfolding step using False by simp
  next
    case wild: True
    note c = wild_child_kind [OF d(6) wild]
    have ne: "nd_children ?n \<noteq> []" using c(1) by auto
    have nc: "no_suffix ?c" using plain(1) c(1) unfolding no_suffix_unfold [of ?n] by blast
    have sk: "skips_ok t p0 (param_values (as_params st)) rest (as_skipped st)" using skips_mono [OF d(4) rest, of "[]"] by simp
    from c(3) nc consider (catch) "nd_type ?c = CatchAll" | (param) "nd_type ?c = Param False"
      unfolding no_suffix_unfold [of ?c] by auto
    then show ?thesis
    proof cases
      case catch
      then have "nd_value ?c \<noteq> None" using c(2) by (simp add: node_wf_kinds catch_wf_def)
      then show ?thesis unfolding step using wild ne catch by (auto simp: turn_finds_def at_catch_all_def split: option.splits)
    next
      case param
      have "param_wf (length (param_values (as_params st))) False ?c" using c(2) by (simp only: node_wf_param [OF param])
      from at_param_finds [OF this nc sk plain(2), of "state_serves st" "as_params st"] show ?thesis
        unfolding step using wild ne param only by auto
    qed
  qed
qed

lemma at_step_finds:
  assumes "state_ok t p0 st" "state_plain st"
  shows "turn_finds (state_serves st) (at_step st)"
proof -
  let ?n = "as_node st" and ?path = "as_path st"
  note d = state_okD [OF assms(1)]
  have plain: "\<forall>s\<in>set (as_skipped st). no_suffix (sk_node s)" using assms(2) by (simp add: state_plain_def)
  have self: "ends_with ?path ?path" by (simp add: ends_with_iff)
  have bk: "turn_finds (state_serves st) (go_back ?path (as_params st) (as_skipped st))" if "\<not> serves ?n ?path"
    using state_serves_node [OF assms(1)] that by (intro go_back_finds [OF d(4) self plain]) blast
  show ?thesis
  proof (cases "length ?path \<le> length (nd_bytes ?n)")
    case short: True
    show ?thesis
    proof (cases "?path = nd_bytes ?n \<and> nd_value ?n \<noteq> None")
      case True
      then show ?thesis using short found_finds by (auto simp: at_step_short)
    next
      case False
      then have "\<not> serves ?n ?path" using short static_child_nonempty [OF d(6)] by (auto simp: serves_static [OF d(2)])
      from bk [OF this] show ?thesis using short False by (auto simp: at_step_short)
    qed
  next
    case long: False
    show ?thesis
    proof (cases "take (length (nd_bytes ?n)) ?path = nd_bytes ?n")
      case False
      then have "\<not> serves ?n ?path" by (auto simp: serves_static [OF d(2)])
      from bk [OF this] show ?thesis using long False by (simp add: at_step_off)
    next
      case True
      then obtain rest where path: "?path = nd_bytes ?n @ rest" "rest \<noteq> []" using path_split [OF long] by blast
      show ?thesis
      proof (cases "if as_backtracking st then None else position (\<lambda>c. c = rest ! 0) (nd_indices ?n)")
        case None
        then show ?thesis by (rule wild_child_finds [OF assms path])
      next
        case (Some i)
        then show ?thesis using static_child_finds [OF assms path] by (simp split: if_splits)
      qed
    qed
  qed
qed

lemma at_loop_finds:
  assumes "state_ok t p0 st" "state_plain st" "state_serves st"
  shows "\<exists>v p. at_loop st = Some (Inr (v, p))"
  using assms
proof (induction "state_weight st" arbitrary: st rule: less_induct)
  case less
  note turn = at_step_ok [OF less.prems(1)] and finds = at_step_finds [OF less.prems(1,2)]
  show ?case
  proof (cases "at_step st")
    case (Continue st')
    then have "state_ok t p0 st'" "state_weight st' < state_weight st" "state_plain st'" "state_serves st'"
      using turn finds less.prems(3) by (simp_all add: turn_ok_def turn_finds_def)
    from less.hyps [OF this(2,1,3,4)] show ?thesis by (subst at_loop.simps) (simp add: Continue)
  next
    case (Return r)
    then obtain u where "r = Inr u" using finds less.prems(3) by (cases r) (simp_all add: turn_finds_def)
    then show ?thesis using Return by (subst at_loop.simps) (cases u, simp)
  next
    case Panic
    then show ?thesis using turn by (simp add: turn_ok_def)
  qed
qed

text \<open>C35. Looking up a path in a well-formed tree ends without a panic. What it finds is the value of a route of the
  tree, with one value for each of its parameters: under the names of that route, in order, and putting the values
  into its pattern gives the path. The values of parameters have no slash, and none is empty.\<close>

theorem node_at_sound:
  assumes "node_wf 0 t" and "is_static t"
  shows "\<exists>r. node_at t path = Some r \<and>
    (case r of
       Inl e \<Rightarrow> e = NotFound
     | Inr (v, p) \<Rightarrow>
         \<exists>es names. (es, names, v) \<in> set (node_routes t) \<and> fill es (map pm_value (params_entries p)) = Some path \<and>
           map pm_key (params_entries p) = names @ catch_keys es)"
  using at_loop_ok [OF initial_ok [OF assms, of path]] unfolding node_at_def [symmetric] answer_def .

definition insert_all :: "(string \<times> nat) list \<Rightarrow> nat rnode" where
  "insert_all rs = foldl (\<lambda>t (route, v). case node_insert route v t of Some (t, res) \<Rightarrow> t | None \<Rightarrow> t) node_default rs"

definition sample_tree :: "nat rnode" where
  "sample_tree = insert_all [(''/users/{id}'', 1), (''/users/me'', 2), (''/users/{name}/posts'', 3), (''/files/{*path}'', 4)]"

lemma sample_tree_ok: "node_wf 0 sample_tree" "is_static sample_tree" "no_suffix sample_tree"
  by code_simp+

theorem node_at_sound_witness:
  "\<exists>v p es names. node_at sample_tree ''/users/mel/posts'' = Some (Inr (v, p)) \<and> (es, names, v) \<in> set (node_routes sample_tree) \<and>
     fill es (map pm_value (params_entries p)) = Some ''/users/mel/posts'' \<and> map pm_key (params_entries p) = names @ catch_keys es"
proof -
  have "(case node_at sample_tree ''/users/mel/posts'' of Some (Inr vp) \<Rightarrow> True | _ \<Rightarrow> False)" by code_simp
  then obtain v p where "node_at sample_tree ''/users/mel/posts'' = Some (Inr (v, p))" by (auto split: option.splits sum.splits)
  then show ?thesis using node_at_sound [OF sample_tree_ok(1,2), of "''/users/mel/posts''"] by auto
qed

text \<open>C36. In a well-formed tree without suffixes after parameters the lookup finds a route exactly when the path is an
  instance of some route of the tree: backtracking out of the static children loses no match.\<close>

theorem node_at_complete:
  assumes "node_wf 0 t" and "is_static t" and "no_suffix t"
  shows "(\<exists>v p. node_at t path = Some (Inr (v, p))) \<longleftrightarrow> (\<exists>es names v ws. (es, names, v) \<in> set (node_routes t) \<and> fill es ws = Some path)"
proof
  assume "\<exists>v p. node_at t path = Some (Inr (v, p))"
  then show "\<exists>es names v ws. (es, names, v) \<in> set (node_routes t) \<and> fill es ws = Some path"
    using at_loop_ok [OF initial_ok [OF assms(1,2), of path]] unfolding node_at_def [symmetric] answer_def by fastforce
next
  assume "\<exists>es names v ws. (es, names, v) \<in> set (node_routes t) \<and> fill es ws = Some path"
  then have "serves t path" by (force simp: serves_def)
  then show "\<exists>v p. node_at t path = Some (Inr (v, p))"
    unfolding node_at_def using assms(3)
    by (intro at_loop_finds [OF initial_ok [OF assms(1,2)]]) (simp_all add: state_plain_def state_serves_def)
qed

theorem node_at_complete_witness:
  "(\<exists>v p. node_at sample_tree ''/files/a/b'' = Some (Inr (v, p))) \<and> \<not> (\<exists>v p. node_at sample_tree ''/users/'' = Some (Inr (v, p)))"
proof -
  have r: "(case node_routes sample_tree of r # rs \<Rightarrow> list_ex (\<lambda>(es, names, v). fill es [''a/b''] = Some ''/files/a/b'') (r # rs) | [] \<Rightarrow> False)"
    by code_simp
  then obtain es names v where "(es, names, v) \<in> set (node_routes sample_tree)" "fill es [''a/b''] = Some ''/files/a/b''"
    by (auto simp: list_ex_iff split: list.splits)
  then have "\<exists>v p. node_at sample_tree ''/files/a/b'' = Some (Inr (v, p))"
    using node_at_complete [OF sample_tree_ok, of "''/files/a/b''"] by blast
  moreover have "node_at sample_tree ''/users/'' = Some (Inl NotFound)" by code_simp
  ultimately show ?thesis by simp
qed

text \<open>With suffixes a match can be missed: the search settles on the longest suffix that fits a segment.\<close>

lemma suffix_search_incomplete:
  "(case node_at (insert_all [(''/{a}-b/foo'', 1), (''/{a}b/bar'', 2)]) ''/x-b/bar'' of Some (Inl e) \<Rightarrow> True | _ \<Rightarrow> False) \<and>
   (case node_at (insert_all [(''/{a}b/bar'', 2)]) ''/x-b/bar'' of Some (Inr (v, p)) \<Rightarrow> v = 2 | _ \<Rightarrow> False)"
  by code_simp

end
