(* ===== verification/Route_Walk.thy ===== *)
theory Route_Walk
  imports Route_Insert Route_Search
begin

text \<open>
  The walk of an insertion through the tree, by the kind of the node it is at, and the insertion of a whole route.
\<close>

section \<open>What a route and a node share\<close>

lemma ur_view_nth: "i < length (ur_inner p) \<Longrightarrow> ur_view p ! i = (ur_inner p ! i, ur_is_escaped p i)"
  by (simp add: ur_view_def rf_view_nth ur_as_ref_def rf_is_escaped_def ur_is_escaped_def Let_def)

lemma length_ur_view [simp]: "length (ur_view p) = length (ur_inner p)"
  by (simp flip: fst_ur_view)

lemma common_prefix_len_ok:
  assumes "m = common_prefix_len r n"
  shows "m \<le> length (rf_inner r)" "m \<le> length (nd_bytes n)" "take m (rf_view r) = take m (ur_view (nd_prefix n))"
    and "m < length (rf_inner r) \<Longrightarrow> m < length (nd_bytes n) \<Longrightarrow> rf_view r ! m \<noteq> ur_view (nd_prefix n) ! m"
proof -
  let ?len = "min (length (rf_inner r)) (length (nd_bytes n))"
  let ?P = "\<lambda>i. rf_inner r ! i \<noteq> nd_bytes n ! i \<or> rf_is_escaped r i \<noteq> ur_is_escaped (nd_prefix n) i"
  have P: "?P i \<longleftrightarrow> rf_view r ! i \<noteq> ur_view (nd_prefix n) ! i" if "i < ?len" for i
    using that by (simp add: rf_view_nth ur_view_nth)
  have m: "m \<le> ?len \<and> (\<forall>i<m. \<not> ?P i) \<and> (m < ?len \<longrightarrow> ?P m)"
  proof (cases "find ?P [0..<?len]")
    case None
    then have "m = ?len" using assms by (simp add: common_prefix_len_def)
    then show ?thesis using None by (auto simp: find_None_iff)
  next
    case (Some j)
    then have "m = j" using assms by (simp add: common_prefix_len_def)
    then show ?thesis using Some by (auto simp: find_Some_iff)
  qed
  then show "m \<le> length (rf_inner r)" "m \<le> length (nd_bytes n)" by simp_all
  show "take m (rf_view r) = take m (ur_view (nd_prefix n))"
  proof (rule nth_equalityI)
    show "take m (rf_view r) ! i = take m (ur_view (nd_prefix n)) ! i" if "i < length (take m (rf_view r))" for i
      using m P [of i] that by auto
  qed (use m in simp)
  show "rf_view r ! m \<noteq> ur_view (nd_prefix n) ! m" if "m < length (rf_inner r)" "m < length (nd_bytes n)"
    using m P [of m] that by simp
qed

lemma common_prefix_len_all:
  assumes "rf_view r = ur_view (nd_prefix n) @ rest"
  shows "common_prefix_len r n = length (nd_bytes n)"
proof -
  let ?m = "common_prefix_len r n"
  have len: "length (nd_bytes n) \<le> length (rf_inner r)" by (simp flip: length_rf_view add: assms)
  have "\<not> ?m < length (nd_bytes n)"
  proof
    assume m: "?m < length (nd_bytes n)"
    then have "rf_view r ! ?m = ur_view (nd_prefix n) ! ?m" by (simp add: assms nth_append)
    then show False using common_prefix_len_ok(4) [OF refl, of r n] m len by simp
  qed
  then show ?thesis using common_prefix_len_ok(2) [OF refl, of r n] by simp
qed

lemma render_prefix:
  assumes "take (length cs) (render k es) = map mark cs"
  shows "\<exists>fs. es = map PChar cs @ fs"
  using assms
proof (induction cs arbitrary: es)
  case (Cons c cs)
  have "mark c \<noteq> (CHR ''{'', False)" by (auto simp: mark_def is_brace_def)
  then obtain fs where es: "es = PChar c # fs" using Cons.prems by (cases es rule: nparams.cases) (auto simp: mark_def)
  then show ?case using Cons by auto
qed simp

section \<open>The next byte\<close>

lemma find_index_char: "find_index c (is_brace c) j idx = map_option (\<lambda>i. j + i) (position (\<lambda>x. x = c) idx)"
  by (induction idx arbitrary: j) (auto simp: is_brace_def option.map_comp comp_def intro!: option.map_cong)

lemma find_index_wild: "find_index (CHR ''{'') False j idx = None"
  by (induction idx arbitrary: j) auto

lemma find_close_bound: "find_close r s i rest = Inr (Some (ws, we)) \<Longrightarrow> we \<le> i + length rest \<and> ws = s"
  by (induction r s i rest rule: find_close.induct) (auto simp: find_close.simps split: if_splits)

lemma find_open_bound: "find_open r s rest = Inr (Some (ws, we)) \<Longrightarrow> we \<le> s + length rest"
proof (induction r s rest rule: find_open.induct)
  case (2 r s c rest)
  show ?case
  proof (cases "c = CHR ''{'' \<and> \<not> rf_is_escaped r s")
    case True
    then have *: "find_close r s (s + 2) (drop 1 rest) = Inr (Some (ws, we))" using 2(2) by (simp add: find_open.simps split: if_splits)
    then have "we \<le> s + 2 + (length rest - 1)" using find_close_bound by fastforce
    moreover have "rest \<noteq> []" using * by (auto simp: find_close.simps)
    ultimately show ?thesis by (cases rest) simp_all
  next
    case False
    then show ?thesis using 2 by (fastforce simp: find_open.simps split: if_splits)
  qed
qed (simp add: find_open.simps)

lemma wildcard_end_bound: "wildcard_end r = Some (ws, we) \<Longrightarrow> we \<le> length (rf_inner r)"
  using find_open_bound [of r 0 "rf_inner r" ws we] by (auto simp: wildcard_end_def find_wildcard_def split: sum.splits option.splits)

lemma segment_end_bound: "segment_end s \<le> length s"
  by (auto simp: segment_end_def split: option.splits dest: position_SomeD)

lemma slice_until_some: "m \<le> length (rf_inner r) \<Longrightarrow> \<exists>r'. rf_slice_until r m = Some r' \<and> length (rf_inner r') = m"
  by (simp add: rf_slice_until_def)

lemma slice_off_some: "m \<le> length (rf_inner r) \<Longrightarrow> \<exists>r'. rf_slice_off r m = Some r'"
  by (simp add: rf_slice_off_def)

lemma static_conflict_some: "\<exists>b. static_conflict r n = Some b"
proof -
  let ?t = "case position (\<lambda>b. b = CHR ''/'') (rf_inner r) of Some b \<Rightarrow> b | None \<Rightarrow> length (rf_inner r)"
  have "?t \<le> length (rf_inner r)" by (auto split: option.splits dest: position_SomeD)
  then obtain sg where sg: "rf_slice_until r ?t = Some sg" using slice_until_some by blast
  have "\<exists>r'. rf_slice_off sg we = Some r'" if "wildcard_end sg = Some (ws, we)" for ws we
    using wildcard_end_bound [OF that] slice_off_some by blast
  then show ?thesis using sg by (cases "wildcard_end sg") (force simp: static_conflict_def Let_def)+
qed

lemma same_param_conflict_some: "\<exists>b. same_param_conflict r p n = Some b"
proof -
  obtain sg where sg: "rf_slice_until r (segment_end (rf_inner r)) = Some sg" "length (rf_inner sg) = segment_end (rf_inner r)"
    using slice_until_some [OF segment_end_bound] by blast
  have "\<exists>r'. rf_slice_off r we = Some r'" if "wildcard_end sg = Some (ws, we)" for ws we
    using wildcard_end_bound [OF that] sg(2) segment_end_bound [of "rf_inner r"] by (intro slice_off_some) simp
  then show ?thesis using sg(1) by (cases "wildcard_end sg") (force simp: same_param_conflict_def)+
qed

lemma new_param_conflict_some: "\<exists>b. new_param_conflict cr m r n = Some b"
proof -
  have "\<exists>r'. rf_slice_off r we = Some r'" if "wildcard_end r = Some (ws, we)" for ws we
    using wildcard_end_bound [OF that] slice_off_some by blast
  then show ?thesis by (cases "wildcard_end r") (force simp: new_param_conflict_def)+
qed

section \<open>One turn of the walk\<close>

lemma walk_end:
  assumes "rf_view r = ur_view (nd_prefix n)"
  shows "insert_walk rm val parent n r =
    Some (if nd_value n \<noteq> None then (n, Inl (Clash r n)) else (set_remapping rm (set_value (Some val) n), Inr ()))"
proof -
  have "common_prefix_len r n = length (nd_bytes n)" using common_prefix_len_all [of r n "[]"] assms by simp
  moreover have "length (rf_inner r) = length (nd_bytes n)" by (simp flip: length_rf_view add: assms)
  ultimately show ?thesis by (subst insert_walk.simps) (simp add: Let_def)
qed

text \<open>The bytes that are left after a node are \<open>r'\<close>.\<close>

definition passed :: "unescaped_ref \<Rightarrow> 'v rnode \<Rightarrow> unescaped_ref \<Rightarrow> bool" where
  "passed r n r' \<longleftrightarrow> common_prefix_len r n = length (nd_bytes n) \<and> rf_slice_off r (length (nd_bytes n)) = Some r' \<and>
     length (rf_inner r) \<noteq> length (nd_bytes n)"

lemma passed_view:
  assumes "rf_view r = ur_view (nd_prefix n) @ rest" "rest \<noteq> []"
  obtains r' where "passed r n r'" "rf_view r' = rest"
proof -
  have len: "length (rf_inner r) = length (nd_bytes n) + length rest" by (simp flip: length_rf_view add: assms)
  then obtain r' where "rf_slice_off r (length (nd_bytes n)) = Some r'" "rf_view r' = drop (length (nd_bytes n)) (rf_view r)"
    using slice_off_view [of "length (nd_bytes n)" r] by auto
  then show thesis using that [of r'] len assms common_prefix_len_all [OF assms(1)] by (simp add: passed_def)
qed

lemma walk_index:
  assumes "passed r n r'" "is_static n" "find_index (rf_inner r' ! 0) (rf_is_escaped r' 0) 0 (nd_indices n) = Some i"
    and "update_child_priority n i = Some (m, u)" "insert_walk rm val (Some (m, u)) (nd_children m ! u) r' = Some (child, res)"
  shows "insert_walk rm val parent n r = Some (update_child u child m, res)"
  using assms by (subst insert_walk.simps) (auto simp: passed_def is_static_def Let_def)

lemma walk_new_child:
  assumes "passed r n r'" "is_static n" "find_index (rf_inner r' ! 0) (rf_is_escaped r' 0) 0 (nd_indices n) = None"
    and "rf_inner r' ! 0 \<noteq> CHR ''{'' \<or> rf_is_escaped r' 0" "static_conflict r' n = Some conflict"
  shows "insert_walk rm val parent n r =
    (if conflict then Some (n, Inl (Clash r' n))
     else do {
       let (m, i) = add_child (set_indices (nd_indices n @ [rf_inner r' ! 0]) n) node_default;
       (m, i) \<leftarrow> update_child_priority m i;
       (child, res) \<leftarrow> insert_route rm val (nd_children m ! i) r';
       Some (update_child i child m, res)
     })"
  using assms by (subst insert_walk.simps) (auto simp: passed_def is_static_def Let_def)

lemma walk_new_wild:
  assumes "passed r n r'" "is_static n" "rf_inner r' ! 0 = CHR ''{''" "\<not> rf_is_escaped r' 0" "\<not> nd_wild_child n"
    and "new_param_conflict r (length (nd_bytes n)) r' n = Some conflict"
  shows "insert_walk rm val parent n r = (if conflict then Some (n, Inl (Clash r' n)) else insert_route rm val n r')"
  using assms by (subst insert_walk.simps) (auto simp: passed_def is_static_def Let_def find_index_wild)

lemma walk_wild:
  assumes "passed r n r'" "is_static n" "rf_inner r' ! 0 = CHR ''{''" "\<not> rf_is_escaped r' 0" "nd_wild_child n" "nd_children n \<noteq> []"
    and "i = length (nd_children n) - 1" "child = add_priority (nd_children n ! i)" "m = update_child i child n"
    and "same_param_conflict r' m child = Some conflict"
  shows "insert_walk rm val parent n r =
    (if (length (nd_bytes child) \<le> length (rf_inner r') \<and> take (length (nd_bytes child)) (rf_inner r') \<noteq> nd_bytes child) \<or> nd_type child = CatchAll
     then Some (m, Inl (Clash r' child))
     else if conflict then Some (m, Inl (Clash r' m))
     else do {
       (child, res) \<leftarrow> insert_walk rm val (Some (m, i)) child r';
       Some (update_child i child m, res)
     })"
  using assms(1-6,10) unfolding assms(7-9) by (subst insert_walk.simps) (auto simp: passed_def is_static_def Let_def find_index_wild)

lemma walk_suffix:
  assumes "passed r n r'" "nd_type n = Param b" "rf_slice_until r' (segment_end (rf_inner r')) = Some suffix"
    and "suffix_scan (rf_inner suffix) 0 False (nd_children n) = (Some i, extra)" "child = add_priority (nd_children n ! i)"
    and "insert_walk rm val (Some (update_child i child n, i)) child r' = Some (child', res)"
  shows "insert_walk rm val parent n r = Some (update_child i child' n, res)"
  using assms by (subst insert_walk.simps) (auto simp: passed_def Let_def)

lemma walk_new_suffix:
  assumes "passed r n r'" "nd_type n = Param b" "rf_slice_until r' (segment_end (rf_inner r')) = Some suffix"
    and "suffix_scan (rf_inner suffix) 0 False (nd_children n) = (None, extra)" "find_wildcard suffix = Inr None"
  shows "(\<exists>p. insert_walk rm val parent n r = Some (n, Inl (Clash r p))) \<or>
    insert_walk rm val parent n r = insert_new_suffix rm val b n r' suffix (segment_end (rf_inner r'))"
  using assms by (subst (1 2) insert_walk.simps) (auto simp: passed_def Let_def wildcard_end_def split: option.splits)

section \<open>A static node\<close>

text \<open>What the walk gives at a node: the invariant, the kind of the node, its prefix when the route passes through it, and
  the new route.\<close>

definition walk_result :: "nat \<Rightarrow> pelem list \<Rightarrow> string list \<Rightarrow> 'v \<Rightarrow> 'v rnode \<Rightarrow> 'v rnode \<Rightarrow> 'v insert_fault + unit \<Rightarrow> bool" where
  "walk_result k es rm val n n' res \<longleftrightarrow>
     node_wf k n' \<and> (is_static n \<longrightarrow> nd_type n' = nd_type n) \<and> (is_param (nd_type n) \<longrightarrow> is_param (nd_type n')) \<and>
     ((\<exists>fs. es = node_elems n @ fs) \<longrightarrow> nd_prefix n' = nd_prefix n) \<and> gain (es, rm, val) res n n'"

definition walk_ok :: "nat \<Rightarrow> pelem list \<Rightarrow> string list \<Rightarrow> 'v \<Rightarrow> 'v rnode \<Rightarrow> bool" where
  "walk_ok k es rm val n \<longleftrightarrow>
     (\<forall>parent r. rf_view r = render k es \<longrightarrow> (\<exists>n' res. insert_walk rm val parent n r = Some (n', res) \<and> walk_result k es rm val n n' res))"

definition static_result :: "nat \<Rightarrow> pelem list \<Rightarrow> string list \<Rightarrow> 'v \<Rightarrow> 'v rnode \<Rightarrow> 'v rnode \<Rightarrow> 'v insert_fault + unit \<Rightarrow> bool" where
  "static_result k es rm val n n' res \<longleftrightarrow>
     static_wf k n' \<and> nd_type n' = nd_type n \<and> nd_prefix n' = nd_prefix n \<and> gain (node_elems n @ es, rm, val) res n n'"

lemma walk_okD:
  "walk_ok k es rm val n \<Longrightarrow> rf_view r = render k es \<Longrightarrow>
    \<exists>n' res. insert_walk rm val parent n r = Some (n', res) \<and> walk_result k es rm val n n' res"
  by (simp add: walk_ok_def)

lemma gain_refl: "gain r (Inl f) n n"
  by (simp add: gain_def)

lemma static_result_refl: "static_wf k n \<Longrightarrow> static_result k es rm val n n (Inl f)"
  by (simp add: static_result_def gain_refl)

lemma static_wf_head: "static_wf k n \<Longrightarrow> is_static n"
  by (simp add: static_wf_def)

lemma static_children: "static_wf k n \<Longrightarrow> children_wf k (nd_wild_child n) (nd_indices n) (nd_children n)"
  by (simp add: static_wf_parts)

lemma static_update:
  assumes "static_wf k n" "same_head n m" "children_wf k (nd_wild_child m) (nd_indices m) (nd_children m)"
  shows "static_wf k m" "nd_type m = nd_type n" "nd_prefix m = nd_prefix n"
  using assms same_head_static [OF assms(2), of k] by (simp_all add: static_wf_parts same_head_def)

lemma same_head_update: "same_head n m \<Longrightarrow> same_head n (update_child i c m)"
  by (simp add: same_head_def)

lemma same_head_elems: "same_head n m \<Longrightarrow> node_elems m = node_elems n"
  by (simp add: same_head_def)

text \<open>A child that was walked or filled is put back.\<close>

lemma static_put:
  assumes "static_wf k n" "same_head n m" "children_wf k (nd_wild_child m) (nd_indices m) (nd_children m)"
    and "set (node_routes m) = set (node_routes n)" "u < length (nd_indices m)"
    and "index_node k (nd_indices m ! u) c" "gain (es, rm, val) res (nd_children m ! u) c"
  shows "static_result k es rm val n (update_child u c m) res"
proof -
  have "children_wf k (nd_wild_child m) (nd_indices m) ((nd_children m)[u := c])" by (rule children_wf_update [OF assms(3,5,6)])
  then have cwf: "children_wf k (nd_wild_child (update_child u c m)) (nd_indices (update_child u c m)) (nd_children (update_child u c m))" by simp
  note up = static_update [OF assms(1) same_head_update [OF assms(2)] cwf]
  have "u < length (nd_children m)" using assms(5) children_wf_length [OF assms(3)] by simp
  from gain_child [OF assms(7) this] have "gain (node_elems n @ es, rm, val) res m (update_child u c m)"
    using same_head_elems [OF assms(2)] by (simp add: below_def)
  then show ?thesis using up gain_same [OF assms(4)] by (simp add: static_result_def)
qed

lemma static_end:
  assumes "static_wf k n" "rf_view r = ur_view (nd_prefix n)" "length rm = k"
  shows "\<exists>n' res. insert_walk rm val parent n r = Some (n', res) \<and> static_result k [] rm val n n' res"
proof (cases "nd_value n")
  case None
  let ?n = "set_remapping rm (set_value (Some val) n)"
  have "static_wf k ?n" using assms(1,3) by (simp add: static_wf_parts static_head_def is_static_def)
  moreover have "set (node_routes ?n) = set (node_routes n) \<union> {(node_elems n, rm, val)}"
    unfolding node_routes_of [of ?n] node_routes_of [of n] routes_of_def using None by simp
  ultimately have "static_result k [] rm val n ?n (Inr ())" by (simp add: static_result_def gain_def)
  then show ?thesis using walk_end [OF assms(2), of rm val parent] None by simp
next
  case (Some v)
  then show ?thesis using walk_end [OF assms(2), of rm val parent] static_result_refl [OF assms(1)] by simp
qed

lemma head_view:
  assumes "rf_view r = render k (PChar c # gs)"
  shows "rf_inner r ! 0 = c" "rf_is_escaped r 0 = is_brace c" "rf_inner r ! 0 \<noteq> CHR ''{'' \<or> rf_is_escaped r 0"
proof -
  have "rf_view r = [] @ (c, is_brace c) # render k gs" using assms by (simp add: mark_def)
  from view_at(2,5) [OF this] show *: "rf_inner r ! 0 = c" "rf_is_escaped r 0 = is_brace c" by simp_all
  then show "rf_inner r ! 0 \<noteq> CHR ''{'' \<or> rf_is_escaped r 0" by (auto simp: is_brace_def)
qed

lemma walked_index:
  assumes "walk_result k (PChar c # gs) rm val n n' res" "index_node k c n"
  shows "index_node k c n'"
proof -
  have "is_static n" using assms(2) by (simp add: index_node_def is_static_def)
  then have "node_wf k n'" "nd_type n' = Static" "gain (PChar c # gs, rm, val) res n n'"
    using assms by (simp_all add: walk_result_def index_node_def)
  moreover have "starts_with c n" using assms(2) by (simp add: index_node_def)
  ultimately show ?thesis by (cases res) (auto simp: index_node_def starts_with_def list_all_iff gain_def)
qed

lemma static_index:
  assumes wf: "static_wf k n" and p: "passed r n r'" and v: "rf_view r' = render k (PChar c # gs)"
    and i: "position (\<lambda>x. x = c) (nd_indices n) = Some i"
    and ih: "walk_ok k (PChar c # gs) rm val (add_priority (nd_children n ! i))"
  shows "\<exists>n' res. insert_walk rm val parent n r = Some (n', res) \<and> static_result k (PChar c # gs) rm val n n' res"
proof -
  have il: "i < length (nd_indices n)" "nd_indices n ! i = c" using position_SomeD [OF i] by auto
  obtain m u where m: "update_child_priority n i = Some (m, u)" "same_head n m" "nd_wild_child m = nd_wild_child n"
      "children_wf k (nd_wild_child m) (nd_indices m) (nd_children m)" "u < length (nd_indices m)"
      "nd_children m ! u = add_priority (nd_children n ! i)" "nd_indices m ! u = c" "set (node_routes m) = set (node_routes n)"
    using update_child_priority_ok [OF static_children [OF wf] il(1)] il(2) by metis
  obtain child res where w: "insert_walk rm val (Some (m, u)) (nd_children m ! u) r' = Some (child, res)"
      "walk_result k (PChar c # gs) rm val (nd_children m ! u) child res"
    using walk_okD [OF ih v, of "Some (m, u)"] m(6) by auto
  have "find_index (rf_inner r' ! 0) (rf_is_escaped r' 0) 0 (nd_indices n) = Some i"
    using head_view(1,2) [OF v] i by (simp add: find_index_char)
  from walk_index [OF p static_wf_head [OF wf] this m(1) w(1)]
  have run: "insert_walk rm val parent n r = Some (update_child u child m, res)" .
  have "index_node k c (nd_children m ! u)" using children_wf_nth [OF m(4,5)] m(7) by simp
  then have "index_node k (nd_indices m ! u) child" using walked_index [OF w(2)] m(7) by simp
  moreover have "gain (PChar c # gs, rm, val) res (nd_children m ! u) child" using w(2) by (simp add: walk_result_def)
  ultimately show ?thesis using run static_put [OF wf m(2,4,8,5)] by blast
qed

lemma insert_at_nth: "i \<le> length xs \<Longrightarrow> insert_at i x xs ! i = x"
  by (simp add: insert_at_def nth_append)

lemma default_index: "index_node k c node_default"
  using node_wf_default by (simp add: index_node_def starts_with_def node_default_def)

lemma static_add_default:
  assumes "static_wf k n" "position (\<lambda>x. x = c) (nd_indices n) = None"
  shows "\<exists>m. add_child (set_indices (nd_indices n @ [c]) n) node_default = (m, length (nd_indices n)) \<and> same_head n m \<and>
    children_wf k (nd_wild_child m) (nd_indices m) (nd_children m) \<and> set (node_routes m) = set (node_routes n) \<and>
    length (nd_indices n) < length (nd_indices m) \<and> nd_indices m ! length (nd_indices n) = c \<and>
    nd_children m ! length (nd_indices n) = node_default"
proof -
  note cwf = static_children [OF assms(1)]
  let ?i = "length (nd_indices n)"
  let ?m = "set_children (insert_at ?i node_default (nd_children n)) (set_indices (nd_indices n @ [c]) n)"
  have "c \<notin> set (nd_indices n)" using assms(2) by auto
  then have "children_wf k (nd_wild_child n) (nd_indices n @ [c]) (insert_at ?i node_default (nd_children n))"
    by (rule children_wf_add [OF cwf default_index])
  moreover have "set (node_routes ?m) = set (node_routes n)"
    unfolding node_routes_of [of ?m] node_routes_of [of n] routes_of_def by (simp add: set_insert_at no_routes node_default_def)
  moreover have "?i \<le> length (nd_children n)" using children_wf_length [OF cwf] by simp
  ultimately show ?thesis
    using add_child_parts [OF cwf, of "nd_indices n @ [c]" node_default]
    by (intro exI [of _ ?m]) (simp add: same_head_def insert_at_nth)
qed

lemma static_new_child:
  assumes wf: "static_wf k n" and p: "passed r n r'" and v: "rf_view r' = render k (PChar c # gs)"
    and i: "position (\<lambda>x. x = c) (nd_indices n) = None"
    and ok: "pattern_ok k (PChar c # gs)" "seg_ok False (PChar c # gs)" "length rm = k + nparams (PChar c # gs)"
  shows "\<exists>n' res. insert_walk rm val parent n r = Some (n', res) \<and> static_result k (PChar c # gs) rm val n n' res"
proof -
  let ?fs = "PChar c # gs" and ?idx = "nd_indices n" and ?i = "length (nd_indices n)"
  obtain conflict where conflict: "static_conflict r' n = Some conflict" using static_conflict_some by blast
  have find: "find_index (rf_inner r' ! 0) (rf_is_escaped r' 0) 0 ?idx = None" using head_view(1,2) [OF v] i by (simp add: find_index_char)
  note walk = walk_new_child [OF p static_wf_head [OF wf] find head_view(3) [OF v] conflict, where rm = rm and val = val and parent = parent]
  show ?thesis
  proof (cases conflict)
    case True
    then show ?thesis using walk static_result_refl [OF wf] by simp
  next
    case False
    obtain m where m: "add_child (set_indices (?idx @ [c]) n) node_default = (m, ?i)" "same_head n m"
        "children_wf k (nd_wild_child m) (nd_indices m) (nd_children m)" "set (node_routes m) = set (node_routes n)"
        "?i < length (nd_indices m)" "nd_indices m ! ?i = c" "nd_children m ! ?i = node_default"
      using static_add_default [OF wf i] by metis
    obtain l u where l: "update_child_priority m ?i = Some (l, u)" "same_head m l"
        "children_wf k (nd_wild_child l) (nd_indices l) (nd_children l)" "u < length (nd_indices l)"
        "nd_children l ! u = add_priority node_default" "nd_indices l ! u = c" "set (node_routes l) = set (node_routes m)"
      using update_child_priority_ok [OF m(3,5)] m(6,7) by metis
    obtain child' res where w: "insert_route rm val (add_priority node_default) r' = Some (child', res)"
        "placed k ?fs rm val (add_priority node_default) child' res"
      using insert_route_ok [OF fresh_ready v ok(1,2) list.simps(3) ok(3), of val] by metis
    have c: "index_node k c child'" "set (node_routes child') = gained (?fs, rm, val) res"
      using placed_fresh [OF w(2)] by (simp_all add: node_default_def)
    have run: "insert_walk rm val parent n r = Some (update_child u child' l, res)"
      using walk False m(1) l(1,5) w(1) head_view(1) [OF v] by simp
    have head: "same_head n l" using m(2) l(2) by (simp add: same_head_def)
    have routes: "set (node_routes l) = set (node_routes n)" using l(7) m(4) by simp
    have idx: "index_node k (nd_indices l ! u) child'" using c(1) l(6) by simp
    have "set (node_routes (nd_children l ! u)) = {}" unfolding l(5) by (simp add: node_default_def)
    then have "gain (?fs, rm, val) res (nd_children l ! u) child'" using c(2) by (simp add: gain_gained)
    from static_put [OF wf head l(3) routes l(4) idx this] run show ?thesis by blast
  qed
qed

lemma wild_head_view:
  assumes "rf_view r = render k fs" "fs \<noteq> []" "leading fs = []"
  shows "rf_inner r ! 0 = CHR ''{''" "\<not> rf_is_escaped r 0"
proof -
  obtain rest where "render k fs = (CHR ''{'', False) # rest" using assms(2,3) by (cases fs rule: nparams.cases) auto
  then have "rf_view r = [] @ (CHR ''{'', False) # rest" using assms(1) by simp
  from view_at(2,5) [OF this] show "rf_inner r ! 0 = CHR ''{''" "\<not> rf_is_escaped r 0" by simp_all
qed

lemma static_new_wild:
  assumes wf: "static_wf k n" and p: "passed r n r'" and v: "rf_view r' = render k fs" and fs: "fs \<noteq> []" "leading fs = []"
    and wild: "\<not> nd_wild_child n" and ok: "pattern_ok k fs" "seg_ok False fs" "length rm = k + nparams fs"
  shows "\<exists>n' res. insert_walk rm val parent n r = Some (n', res) \<and> static_result k fs rm val n n' res"
proof -
  obtain conflict where conflict: "new_param_conflict r (length (nd_bytes n)) r' n = Some conflict" using new_param_conflict_some by blast
  note walk = walk_new_wild [OF p static_wf_head [OF wf] wild_head_view [OF v fs] wild conflict, where rm = rm and val = val and parent = parent]
  have "ready k fs n" using wf wild fs(2) by (simp add: ready_def)
  from insert_route_ok [OF this v ok(1,2) fs(1) ok(3), of val] obtain n' res where
    i: "insert_route rm val n r' = Some (n', res)" "placed k fs rm val n n' res" by blast
  have "static_result k fs rm val n n' res" using i(2) fs(2) by (simp add: static_result_def placed_def)
  then show ?thesis using walk i(1) static_result_refl [OF wf] by (cases conflict) simp_all
qed

lemma update_child_twice: "update_child i c (update_child i d n) = update_child i c n"
  by (cases n) (simp add: update_child_def)

lemma static_put_wild:
  assumes "static_wf k n" "nd_wild_child n" "wild_node k c" "gain (fs, rm, val) res (last (nd_children n)) c"
  shows "static_result k fs rm val n (update_child (length (nd_children n) - 1) c n) res"
proof -
  let ?i = "length (nd_children n) - 1" and ?m = "update_child (length (nd_children n) - 1) c n"
  note cwf = static_children [OF assms(1)]
  have ne: "nd_children n \<noteq> []" using children_wf_length [OF cwf] assms(2) by auto
  have "children_wf k True (nd_indices n) ((nd_children n)[?i := c])" using cwf assms(2,3) by (intro children_wf_update_wild) simp_all
  then have "children_wf k (nd_wild_child ?m) (nd_indices ?m) (nd_children ?m)" using assms(2) by simp
  note up = static_update [OF assms(1) _ this]
  have "gain (fs, rm, val) res (nd_children n ! ?i) c" using assms(4) ne by (simp add: last_conv_nth)
  from gain_child [OF this] have "gain (node_elems n @ fs, rm, val) res n ?m" using ne by (simp add: below_def)
  then show ?thesis using up by (simp add: static_result_def same_head_def)
qed

lemma wild_param_bytes: "param_wf k b n \<Longrightarrow> nd_bytes n = [CHR ''{'', param_name k, CHR ''}'']"
  using fst_ur_view [of "nd_prefix n"] by (simp add: param_wf_def)

lemma catch_not_param:
  assumes "rf_view r = render k (PCatchAll name # gs)" "k < 26"
  shows "3 \<le> length (rf_inner r)" "take 3 (rf_inner r) \<noteq> [CHR ''{'', param_name k, CHR ''}'']"
proof -
  have r: "rf_inner r = CHR ''{'' # CHR ''*'' # map fst (name @ (CHR ''}'', False) # render k gs)" using assms(1) fst_rf_view [of r] by simp
  then show "3 \<le> length (rf_inner r)" by simp
  show "take 3 (rf_inner r) \<noteq> [CHR ''{'', param_name k, CHR ''}'']"
  proof
    assume "take 3 (rf_inner r) = [CHR ''{'', param_name k, CHR ''}'']"
    then have "take 3 (rf_inner r) ! 1 = param_name k" by simp
    then have "param_name k = CHR ''*''" using r by simp
    then show False using letter_ok [OF assms(2)] by simp
  qed
qed

lemma static_wild:
  assumes wf: "static_wf k n" and p: "passed r n r'" and v: "rf_view r' = render k fs" and fs: "fs \<noteq> []" "leading fs = []"
    and wild: "nd_wild_child n" and k: "k < 26"
    and ih: "\<And>gs b. fs = PParam # gs \<Longrightarrow> nd_type (last (nd_children n)) = Param b \<Longrightarrow> walk_ok k fs rm val (add_priority (last (nd_children n)))"
  shows "\<exists>n' res. insert_walk rm val parent n r = Some (n', res) \<and> static_result k fs rm val n n' res"
proof -
  note cwf = static_children [OF wf]
  have ne: "nd_children n \<noteq> []" using children_wf_length [OF cwf] wild by auto
  define i where "i = length (nd_children n) - 1"
  define c where "c = add_priority (nd_children n ! i)"
  define m where "m = update_child i c n"
  have c: "c = add_priority (last (nd_children n))" using ne by (simp add: c_def i_def last_conv_nth)
  have "wild_node k (last (nd_children n))" using cwf wild by (auto simp: children_wf_def)
  then have cw: "wild_node k c" unfolding c by (simp add: wild_node_def)
  have stay: "static_result k fs rm val n m (Inl f)" for f
    unfolding m_def i_def by (rule static_put_wild [OF wf wild cw]) (simp add: c gain_def)
  obtain conflict where "same_param_conflict r' m c = Some conflict" using same_param_conflict_some by blast
  note walk = walk_wild [OF p static_wf_head [OF wf] wild_head_view [OF v fs] wild ne i_def c_def m_def this, where rm = rm and val = val and parent = parent]
  let ?off = "(length (nd_bytes c) \<le> length (rf_inner r') \<and> take (length (nd_bytes c)) (rf_inner r') \<noteq> nd_bytes c) \<or> nd_type c = CatchAll"
  show ?thesis
  proof (cases "?off \<or> conflict")
    case True
    then show ?thesis using walk stay by (cases ?off) simp_all
  next
    case False
    then obtain b where b: "nd_type c = Param b" using cw by (cases "nd_type c") (auto simp: wild_node_def is_param_def)
    then have "param_wf k b c" using cw by (simp add: wild_node_def node_wf_param)
    then have bytes: "nd_bytes c = [CHR ''{'', param_name k, CHR ''}'']" by (rule wild_param_bytes)
    have "fs \<noteq> PCatchAll name # gs" for name gs
      using catch_not_param [of r' k name gs] v k False bytes by (auto simp: numeral_3_eq_3 simp del: render.simps)
    then obtain gs where gs: "fs = PParam # gs" using fs by (cases fs rule: nparams.cases) auto
    have "walk_ok k fs rm val c" unfolding c by (rule ih [OF gs]) (use b c in simp)
    from walk_okD [OF this v] obtain c' res where w: "insert_walk rm val (Some (m, i)) c r' = Some (c', res)" "walk_result k fs rm val c c' res" by blast
    have "wild_node k c'" using w(2) b by (simp add: walk_result_def wild_node_def is_param_def)
    moreover have "gain (fs, rm, val) res (last (nd_children n)) c'" using w(2) c by (simp add: walk_result_def gain_def)
    ultimately have "static_result k fs rm val n (update_child i c' n) res" unfolding i_def by (rule static_put_wild [OF wf wild])
    moreover have off: "?off = False" "conflict = False" using False by blast+
    have "insert_walk rm val parent n r = Some (update_child i c' n, res)" using walk w(1) unfolding off by (simp add: m_def update_child_twice)
    ultimately show ?thesis by blast
  qed
qed

text \<open>A route that passes through the whole node.\<close>

lemma static_aligned:
  assumes wf: "static_wf k n" and v: "rf_view r = render k (node_elems n @ fs)"
    and ok: "pattern_ok k fs" "seg_ok False fs" "length rm = k + nparams fs"
    and index: "\<And>i c gs. fs = PChar c # gs \<Longrightarrow> position (\<lambda>x. x = c) (nd_indices n) = Some i \<Longrightarrow> walk_ok k fs rm val (add_priority (nd_children n ! i))"
    and wild: "\<And>gs b. fs = PParam # gs \<Longrightarrow> nd_wild_child n \<Longrightarrow> nd_type (last (nd_children n)) = Param b \<Longrightarrow>
      walk_ok k fs rm val (add_priority (last (nd_children n)))"
  shows "\<exists>n' res. insert_walk rm val parent n r = Some (n', res) \<and> static_result k fs rm val n n' res"
proof (cases "fs = []")
  case True
  have "rf_view r = ur_view (nd_prefix n)" using v wf True elems_static [of n] by (simp add: static_wf_def render_chars)
  then show ?thesis using static_end [OF wf] ok(3) True by simp
next
  case False
  have "rf_view r = ur_view (nd_prefix n) @ render k fs" using v wf elems_static [of n] by (simp add: static_wf_def render_split)
  then obtain r' where r: "passed r n r'" "rf_view r' = render k fs" using passed_view [OF _ render_nonempty [OF False]] by blast
  show ?thesis
  proof (cases "leading fs = []")
    case True
    have "k < 26" using ok(1) by (simp add: pattern_ok_def)
    note k = this
    show ?thesis
    proof (cases "nd_wild_child n")
      case w: True
      show ?thesis by (rule static_wild [OF wf r False True w k wild [OF _ w]])
    next
      case w: False
      show ?thesis by (rule static_new_wild [OF wf r False True w ok])
    qed
  next
    case lead: False
    then obtain c gs where fs: "fs = PChar c # gs" by (cases fs rule: leading.cases) auto
    show ?thesis
    proof (cases "position (\<lambda>x. x = c) (nd_indices n)")
      case None
      show ?thesis using static_new_child [OF wf r(1) r(2) [unfolded fs] None ok [unfolded fs]] unfolding fs .
    next
      case (Some i)
      show ?thesis using static_index [OF wf r(1) r(2) [unfolded fs] Some index [OF fs Some, unfolded fs]] unfolding fs .
    qed
  qed
qed

section \<open>Splitting a node\<close>

lemma routes_of_append: "routes_of (es @ fs) v rm cs = below es ` routes_of fs v rm cs"
  by (simp add: routes_of_def image_Un image_UN image_image below_def)

lemma routes_of_single: "routes_of es None rm [c] = below es ` set (node_routes c)"
  by (simp add: routes_of_def)

lemma route_starts: "r \<in> set (node_routes n) \<Longrightarrow> \<exists>gs. fst r = node_elems n @ gs"
  by (cases n) (auto simp: below_def split: option.splits)

lemma starts_with_elems: "node_elems n = PChar c # es \<Longrightarrow> starts_with c n"
  unfolding starts_with_def list_all_iff by (auto dest: route_starts)

text \<open>The lower half keeps everything but the bytes that go to the upper half.\<close>

definition lower_half :: "unescaped_route \<Rightarrow> 'v rnode \<Rightarrow> 'v rnode" where
  "lower_half p n = Node p (nd_priority n - 1) (nd_wild_child n) (nd_indices n) Static (nd_children n) (nd_value n) (nd_remapping n)"

lemma lower_half_ok:
  assumes "static_wf k n" "ur_view p = map mark cs"
  shows "static_wf k (lower_half p n)" "node_elems (lower_half p n) = map PChar cs"
    and "set (node_routes (lower_half p n)) = routes_of (map PChar cs) (nd_value n) (nd_remapping n) (nd_children n)"
proof -
  have b: "ur_inner p = cs" using view_bytes [OF assms(2)] .
  then show e: "node_elems (lower_half p n) = map PChar cs" by (simp add: lower_half_def elems_of_def)
  show "static_wf k (lower_half p n)"
    using assms(1,2) b by (simp add: static_wf_parts static_head_def is_static_def lower_half_def)
  show "set (node_routes (lower_half p n)) = routes_of (map PChar cs) (nd_value n) (nd_remapping n) (nd_children n)"
    unfolding node_routes_of [of "lower_half p n"] e by (simp add: lower_half_def)
qed

lemma fork_node_ok:
  assumes wf: "static_wf k n" and m: "m < length (nd_bytes n)"
  shows "\<exists>f. fork_node m n = Some f \<and> static_wf k f \<and> nd_type f = nd_type n \<and> nd_bytes f = take m (nd_bytes n) \<and>
    nd_indices f = [nd_bytes n ! m] \<and> \<not> nd_wild_child f \<and> set (node_routes f) = set (node_routes n)"
proof -
  let ?bs = "nd_bytes n" and ?p = "nd_prefix n"
  have st: "is_static n" using wf by (rule static_wf_head)
  have view: "rf_view (ur_as_ref ?p) = map mark ?bs" using wf by (simp add: static_wf_def ur_view_as_ref)
  have ml: "m \<le> length (rf_inner (ur_as_ref ?p))" using m by (simp add: ur_as_ref_def)
  from slice_off_view [OF ml] slice_until_view [OF ml] obtain suffix front where
    s: "rf_slice_off (ur_as_ref ?p) m = Some suffix" "rf_view suffix = map mark (drop m ?bs)" and
    f: "rf_slice_until (ur_as_ref ?p) m = Some front" "rf_view front = map mark (take m ?bs)" using view by (auto simp: drop_map take_map)
  have vs: "ur_view (rf_to_owned suffix) = map mark (drop m ?bs)" "ur_view (rf_to_owned front) = map mark (take m ?bs)"
    using s(2) f(2) by (simp_all add: to_owned_view)
  note c = lower_half_ok [OF wf vs(1)]
  let ?c = "lower_half (rf_to_owned suffix) n"
  define u where "u = Node (rf_to_owned front) (nd_priority n) False [?bs ! m] (nd_type n) [?c] None []"
  have fork: "fork_node m n = Some u" using s(1) f(1) by (simp add: fork_node_def u_def lower_half_def)
  have "is_static u" using st by (simp add: u_def is_static_def)
  then have fe: "node_elems u = map PChar (take m ?bs)" using view_bytes [OF vs(2)] elems_static [of u] by (simp add: u_def)
  have "starts_with (?bs ! m) ?c" using c(2) m by (intro starts_with_elems) (simp add: Cons_nth_drop_Suc [symmetric])
  then have "index_node k (?bs ! m) ?c" using c(1) node_wf_static [of ?c k] by (simp add: index_node_def is_static_def lower_half_def del: node_wf.simps)
  then have "children_wf k False [?bs ! m] [?c]" by (simp add: children_wf_def)
  then have "static_wf k u" using \<open>is_static u\<close> vs(2) view_bytes [OF vs(2)] by (simp add: static_wf_parts static_head_def u_def)
  moreover have "set (node_routes u) = set (node_routes n)"
  proof -
    have "set (node_routes u) = routes_of (map PChar (take m ?bs)) None [] [?c]"
      unfolding node_routes_of [of u] fe by (simp add: u_def)
    also have "\<dots> = routes_of (map PChar (take m ?bs) @ map PChar (drop m ?bs)) (nd_value n) (nd_remapping n) (nd_children n)"
      by (simp only: routes_of_single c(3) routes_of_append)
    also have "\<dots> = set (node_routes n)" unfolding node_routes_of [of n] elems_static [OF st] by (simp flip: map_append)
    finally show ?thesis .
  qed
  ultimately show ?thesis using fork view_bytes [OF vs(2)] by (intro exI [of _ u]) (simp add: u_def)
qed

lemma static_walk_result:
  assumes "static_result k fs rm val n n' res" "is_static n"
  shows "walk_result k (node_elems n @ fs) rm val n n' res"
proof -
  have "is_static n'" using assms by (simp add: static_result_def is_static_def)
  then show ?thesis using assms by (auto simp: static_result_def walk_result_def node_wf_static is_param_def is_static_def)
qed

lemma pattern_rest:
  assumes "pattern_ok k (map PChar cs @ fs)" "seg_ok b (map PChar cs @ fs)" "length rm = k + nparams (map PChar cs @ fs)"
  shows "pattern_ok k fs" "seg_ok False fs" "length rm = k + nparams fs"
  using pattern_ok_cons [OF assms(1) refl] seg_ok_tail [OF assms(2)] assms(3) by simp_all

lemma insert_walk_fork:
  "common_prefix_len r n = m \<Longrightarrow> m < length (nd_bytes n) \<Longrightarrow> fork_node m n = Some f \<Longrightarrow>
   insert_walk rm val parent n r = insert_walk rm val parent f r"
  by (subst insert_walk.simps) (simp add: Let_def)

lemma static_forked:
  assumes wf: "static_wf k n" and v: "rf_view r = render k es" and ok: "pattern_ok k es" "seg_ok False es" "length rm = k + nparams es"
    and m: "common_prefix_len r n < length (nd_bytes n)"
  shows "\<exists>n' res. insert_walk rm val parent n r = Some (n', res) \<and> walk_result k es rm val n n' res"
proof -
  let ?m = "common_prefix_len r n" and ?bs = "nd_bytes n"
  note common = common_prefix_len_ok [OF refl, of r n]
  have view: "ur_view (nd_prefix n) = map mark ?bs" using wf by (simp add: static_wf_def)
  obtain f where f: "fork_node ?m n = Some f" "static_wf k f" "nd_type f = nd_type n" "nd_bytes f = take ?m ?bs"
      "nd_indices f = [?bs ! ?m]" "\<not> nd_wild_child f" "set (node_routes f) = set (node_routes n)"
    using fork_node_ok [OF wf m] by blast
  have "take (length (take ?m ?bs)) (render k es) = map mark (take ?m ?bs)" using common(2,3) v view by (simp add: take_map)
  from render_prefix [OF this] obtain fs where fs: "es = map PChar (take ?m ?bs) @ fs" by blast
  have elems: "node_elems f = map PChar (take ?m ?bs)" using elems_static [OF static_wf_head [OF f(2)]] f(4) by simp
  have "c \<noteq> ?bs ! ?m" if "fs = PChar c # gs" for c gs
  proof -
    have "rf_view r = map mark (take ?m ?bs) @ mark c # render k gs" using v fs that by (simp add: render_split)
    then have "rf_view r ! ?m = mark c" "?m < length (rf_view r)" using common(2) by (simp_all add: nth_append)
    then show ?thesis using common(4) m view by auto
  qed
  then have no_index: "position (\<lambda>x. x = c) (nd_indices f) \<noteq> Some i" if "fs = PChar c # gs" for c gs i using that f(5) by auto
  have "rf_view r = render k (node_elems f @ fs)" using v fs elems by simp
  from static_aligned [OF f(2) this pattern_rest [OF ok [unfolded fs]], of val parent] no_index f(6)
  obtain n' res where w: "insert_walk rm val parent f r = Some (n', res)" "static_result k fs rm val f n' res" by blast
  have run: "insert_walk rm val parent n r = Some (n', res)" using insert_walk_fork [OF refl m f(1)] w(1) by simp
  have res: "walk_result k es rm val f n' res" using static_walk_result [OF w(2) static_wf_head [OF f(2)]] elems fs by simp
  have "\<nexists>gs. es = node_elems n @ gs"
  proof
    assume "\<exists>gs. es = node_elems n @ gs"
    then obtain gs where "rf_view r = ur_view (nd_prefix n) @ render k gs"
      using v view elems_static [OF static_wf_head [OF wf]] by (auto simp: render_split)
    from common_prefix_len_all [OF this] show False using m by simp
  qed
  then have "walk_result k es rm val n n' res"
    using res f(3,7) static_wf_head [OF wf] by (auto simp: walk_result_def gain_def is_static_def)
  then show ?thesis using run by blast
qed

lemma static_walk:
  assumes wf: "static_wf k n" and v: "rf_view r = render k es" and ok: "pattern_ok k es" "seg_ok False es" "length rm = k + nparams es"
    and index: "\<And>i c gs. position (\<lambda>x. x = c) (nd_indices n) = Some i \<Longrightarrow> es = node_elems n @ PChar c # gs \<Longrightarrow>
      walk_ok k (PChar c # gs) rm val (add_priority (nd_children n ! i))"
    and wild: "\<And>gs b. nd_wild_child n \<Longrightarrow> nd_type (last (nd_children n)) = Param b \<Longrightarrow> es = node_elems n @ PParam # gs \<Longrightarrow>
      walk_ok k (PParam # gs) rm val (add_priority (last (nd_children n)))"
  shows "\<exists>n' res. insert_walk rm val parent n r = Some (n', res) \<and> walk_result k es rm val n n' res"
proof (cases "common_prefix_len r n < length (nd_bytes n)")
  case True
  then show ?thesis by (rule static_forked [OF wf v ok])
next
  case False
  note st = static_wf_head [OF wf]
  note common = common_prefix_len_ok [OF refl, of r n]
  have "take (length (nd_bytes n)) (render k es) = map mark (nd_bytes n)"
    using False common(2,3) v wf by (simp add: static_wf_def)
  from render_prefix [OF this] obtain fs where "es = map PChar (nd_bytes n) @ fs" by blast
  then have fs: "es = node_elems n @ fs" using elems_static [OF st] by simp
  have "\<exists>n' res. insert_walk rm val parent n r = Some (n', res) \<and> static_result k fs rm val n n' res"
  proof (rule static_aligned [OF wf])
    show "rf_view r = render k (node_elems n @ fs)" using v fs by simp
    show "pattern_ok k fs" "seg_ok False fs" "length rm = k + nparams fs"
      using pattern_rest [OF ok [unfolded \<open>es = map PChar (nd_bytes n) @ fs\<close>]] by simp_all
    show "walk_ok k fs rm val (add_priority (nd_children n ! i))"
      if "fs = PChar c # gs" "position (\<lambda>x. x = c) (nd_indices n) = Some i" for i c gs
      using index [OF that(2)] that(1) fs by simp
    show "walk_ok k fs rm val (add_priority (last (nd_children n)))"
      if "fs = PParam # gs" "nd_wild_child n" "nd_type (last (nd_children n)) = Param b" for gs b
      using wild [OF that(2,3)] that(1) fs by simp
  qed
  then show ?thesis using static_walk_result [OF _ st] unfolding fs by blast
qed

section \<open>A parameter\<close>

lemma suffix_scan_some:
  "suffix_scan suf j extra cs = (Some i, e) \<Longrightarrow> j \<le> i \<and> i - j < length cs \<and> nd_bytes (cs ! (i - j)) = suf"
proof (induction suf j extra cs rule: suffix_scan.induct)
  case (2 suf j extra c cs)
  show ?case
  proof (cases "nd_bytes c = suf")
    case False
    then have "suffix_scan suf (j + 1) (extra \<or> slash_apart (nd_bytes c) suf) cs = (Some i, e)" using 2(2) by simp
    from 2(1) [OF False this] show ?thesis by (auto simp: nth_Cons')
  qed (use 2(2) in auto)
qed simp

lemma suffix_scan_none: "suffix_scan suf j extra cs = (None, e) \<Longrightarrow> suf \<notin> nd_bytes ` set cs"
  by (induction suf j extra cs rule: suffix_scan.induct) (auto split: if_splits)

lemma param_result:
  assumes "param_wf k b n" "param_wf k b' n'" "nd_prefix n' = nd_prefix n" "gain (PParam # fs, rm, val) res n n'"
  shows "walk_result k (PParam # fs) rm val n n' res"
proof -
  have "nd_type n' = Param b'" using assms(2) by (simp add: param_wf_def)
  then show ?thesis using assms node_wf_param [of n' b' k]
    by (auto simp: walk_result_def param_wf_def is_param_def is_static_def)
qed

lemma param_elems: "param_wf k b n \<Longrightarrow> node_elems n = [PParam]"
  by (simp add: param_wf_def elems_of_def)

lemma param_end:
  assumes wf: "param_wf k b n" and v: "rf_view r = render k [PParam]" and rm: "length rm = k + 1"
  shows "\<exists>n' res. insert_walk rm val parent n r = Some (n', res) \<and> walk_result k [PParam] rm val n n' res"
proof -
  have "rf_view r = ur_view (nd_prefix n)" using v wf by (simp add: param_wf_def)
  note walk = walk_end [OF this, where rm = rm and val = val and parent = parent]
  show ?thesis
  proof (cases "nd_value n")
    case None
    let ?n = "set_remapping rm (set_value (Some val) n)"
    have "param_wf k b ?n" using wf rm by (simp add: param_wf_def)
    moreover have "set (node_routes ?n) = set (node_routes n) \<union> {([PParam], rm, val)}"
      unfolding node_routes_of [of ?n] node_routes_of [of n] routes_of_def using None param_elems [OF wf] by simp
    ultimately have "walk_result k [PParam] rm val n ?n (Inr ())" by (intro param_result [OF wf]) (simp_all add: gain_def)
    then show ?thesis using walk None by simp
  next
    case (Some v)
    then show ?thesis using walk param_result [OF wf wf] by (simp add: gain_refl)
  qed
qed

lemma param_put:
  assumes wf: "param_wf k b n" and i: "i < length (nd_children n)" and c: "node_wf (k + 1) c" "nd_type c = Static" "nd_bytes c = nd_bytes (nd_children n ! i)"
    and g: "gain (fs, rm, val) res (nd_children n ! i) c"
  shows "walk_result k (PParam # fs) rm val n (update_child i c n) res"
proof (rule param_result [OF wf])
  have "map nd_bytes ((nd_children n)[i := c]) = map nd_bytes (nd_children n)" using i c(3) by (simp add: map_update list_update_same_conv)
  moreover have "suffix_ok b (nd_bytes c)" using wf i c(3) by (simp add: param_wf_def)
  ultimately show "param_wf k b (update_child i c n)" using wf c(1,2) set_update_subset_insert [of "nd_children n" i c]
    by (auto simp: param_wf_def)
  show "gain (PParam # fs, rm, val) res n (update_child i c n)"
    using gain_child [OF g i] param_elems [OF wf] by (simp add: below_def)
qed simp

lemma param_add:
  assumes wf: "param_wf k b n" and c: "static_wf (k + 1) c" "nd_type c = Static" "suffix_ok (b \<or> b') (nd_bytes c)"
    and new: "nd_bytes c \<notin> nd_bytes ` set (nd_children n)" and routes: "set (node_routes c) = gained (fs, rm, val) res"
    and n': "n' = fst (add_suffix_child (set_type (Param (b \<or> b')) n) c)"
  shows "walk_result k (PParam # fs) rm val n n' res"
proof -
  obtain i where i: "n' = set_children (insert_at i c (nd_children n)) (set_type (Param (b \<or> b')) n)"
    using n' by (simp add: add_suffix_child_def Let_def)
  let ?cs = "nd_children n"
  have "distinct (map nd_bytes ?cs)" using wf by (simp add: param_wf_def)
  then have "distinct (map nd_bytes (take i ?cs @ drop i ?cs))" by simp
  moreover have "nd_bytes c \<notin> nd_bytes ` set (take i ?cs @ drop i ?cs)" using new by simp
  ultimately have d: "distinct (map nd_bytes (insert_at i c ?cs))" unfolding insert_at_def by (simp only: map_append distinct_append set_append) auto
  have mono: "suffix_ok b s \<Longrightarrow> suffix_ok (b \<or> b') s" for s by (auto simp: suffix_ok_def)
  have "param_wf k (b \<or> b') n'"
    using wf d c mono unfolding i param_wf_def by (auto simp: set_insert_at node_wf_static is_static_def)
  moreover have "set (node_routes n') = set (node_routes n) \<union> gained (PParam # fs, rm, val) res"
  proof -
    have "node_elems n' = [PParam]" by (simp add: i elems_of_def)
    then show ?thesis unfolding node_routes_of [of n'] node_routes_of [of n] routes_of_def
      using param_elems [OF wf] routes below_gained [of "[PParam]" "(fs, rm, val)" res] by (auto simp: i set_insert_at below_def)
  qed
  moreover have "nd_prefix n' = nd_prefix n" by (simp add: i)
  ultimately show ?thesis by (intro param_result [OF wf]) (simp_all add: gain_gained)
qed

lemma insert_new_suffix_after:
  assumes "rf_slice_off r t = Some post"
  shows "insert_new_suffix rm val b n r suffix t =
    map_option (\<lambda>(lst, res). (fst (add_suffix_child (set_type (Param (b \<or> \<not> empty_or_slash (rf_inner suffix))) n) lst), res))
      (insert_after rm val (bare (rf_to_owned suffix) 1) post)"
proof -
  have t: "t = length (rf_inner r) \<longleftrightarrow> rf_inner post = []" using assms by (auto simp: rf_slice_off_def split: if_splits)
  let ?direct = "rf_inner post ! 0 \<noteq> CHR ''{'' \<or> rf_is_escaped post 0"
  consider (none) "rf_inner post = []" | (static) "rf_inner post \<noteq> []" "?direct" | (wild) "rf_inner post \<noteq> []" "\<not> ?direct" by blast
  then show ?thesis
    by cases (use assms t in \<open>simp add: insert_new_suffix_def insert_after_def Let_def case_prod_unfold map_option_to_bind\<close>)+
qed

lemma param_new_suffix:
  assumes wf: "param_wf k b n" and fs: "fs = map PChar suf @ gs" "segment_split suf gs" "suf \<noteq> []"
    and ok: "pattern_ok (k + 1) gs" "seg_ok False gs" "length rm = k + 1 + nparams gs"
    and view: "rf_view suffix = map mark suf" and post: "rf_slice_off r t = Some post" "rf_view post = render (k + 1) gs"
    and new: "suf \<notin> nd_bytes ` set (nd_children n)"
  shows "\<exists>n' res. insert_new_suffix rm val b n r suffix t = Some (n', res) \<and> walk_result k (PParam # fs) rm val n n' res"
proof -
  have inner: "rf_inner suffix = suf" using view fst_rf_view [of suffix] by simp
  have "ur_view (rf_to_owned suffix) = map mark suf" using view by (simp add: to_owned_view)
  moreover have "\<exists>n' res. insert_route rm val n prefix = Some (n', res) \<and> placed (k + 1) gs rm val n n' res"
    if "gs \<noteq> []" "ready (k + 1) gs n" "rf_view prefix = render (k + 1) gs" for n prefix
    using insert_route_ok [OF that(2,3) ok(1,2) that(1) ok(3)] .
  ultimately obtain lst res where l: "insert_after rm val (bare (rf_to_owned suffix) 1) post = Some (lst, res)" "static_wf (k + 1) lst"
      "nd_type lst = Static" "nd_prefix lst = rf_to_owned suffix" "set (node_routes lst) = gained (fs, rm, val) res"
    using insert_after_ok [of gs "k + 1" rm val post "rf_to_owned suffix" suf] post(2) ok(3) fs(1) by metis
  have bytes: "nd_bytes lst = suf" using l(4) inner by (simp add: rf_to_owned_def)
  let ?b = "\<not> empty_or_slash suf"
  have "suffix_ok (b \<or> ?b) (nd_bytes lst)" using segment_suffix_ok [OF fs(2,3)] bytes by (auto simp: suffix_ok_def)
  from param_add [OF wf l(2,3) this _ l(5) refl] new bytes
  have "walk_result k (PParam # fs) rm val n (fst (add_suffix_child (set_type (Param (b \<or> ?b)) n) lst)) res" by simp
  then show ?thesis using insert_new_suffix_after [OF post(1), of rm val b n suffix] l(1) inner by simp
qed

lemma param_walk:
  assumes wf: "param_wf k b n" and v: "rf_view r = render k (PParam # fs)"
    and ok: "pattern_ok k (PParam # fs)" "seg_ok True fs" "length rm = k + 1 + nparams fs"
    and ih: "\<And>c. c \<in> set (nd_children n) \<Longrightarrow> walk_ok (k + 1) fs rm val (add_priority c)"
  shows "\<exists>n' res. insert_walk rm val parent n r = Some (n', res) \<and> walk_result k (PParam # fs) rm val n n' res"
proof (cases "fs = []")
  case True
  then show ?thesis using param_end [OF wf] v ok(3) by simp
next
  case False
  have "rf_view r = ur_view (nd_prefix n) @ render (k + 1) fs" using v wf by (simp add: param_wf_def)
  then obtain r' where r: "passed r n r'" "rf_view r' = render (k + 1) fs" using passed_view [OF _ render_nonempty [OF False]] by blast
  obtain suf gs where s: "fs = map PChar suf @ gs" "segment_split suf gs" "seg_ok False gs" using seg_split [OF ok(2)] by blast
  have ne: "suf \<noteq> []" using s(1,2) False by (auto simp: segment_split_def)
  have view: "rf_view r' = map mark suf @ render (k + 1) gs" using r(2) s(1) by (simp add: render_split)
  then have inner: "rf_inner r' = suf @ map fst (render (k + 1) gs)" using fst_rf_view [of r'] by simp
  have t: "segment_end (rf_inner r') = length suf"
    using segment_end_split [of "[]" suf gs "map fst (render (k + 1) gs)"] s(2) inner by simp
  have len: "length suf \<le> length (rf_inner r')" using inner by simp
  from slice_until_view [OF len] slice_off_view [OF len] obtain suffix post where
    sx: "rf_slice_until r' (length suf) = Some suffix" "rf_view suffix = map mark suf" and
    po: "rf_slice_off r' (length suf) = Some post" "rf_view post = render (k + 1) gs" using view by auto
  have si: "rf_inner suffix = suf" using sx(2) fst_rf_view [of suffix] by simp
  have sx': "rf_slice_until r' (segment_end (rf_inner r')) = Some suffix" using sx(1) t by simp
  have ty: "nd_type n = Param b" using wf by (simp add: param_wf_def)
  obtain o1 extra where scan: "suffix_scan (rf_inner suffix) 0 False (nd_children n) = (o1, extra)" by fastforce
  show ?thesis
  proof (cases o1)
    case (Some i)
    let ?c = "nd_children n ! i"
    have i: "i < length (nd_children n)" "nd_bytes ?c = suf" using suffix_scan_some [of suf 0 False "nd_children n" i extra] scan si Some by auto
    then have c: "nd_type ?c = Static" "?c \<in> set (nd_children n)" using wf by (simp_all add: param_wf_def)
    then have "fs = node_elems (add_priority ?c) @ gs" using s(1) i(2) elems_static [of ?c] by (simp add: is_static_def)
    from walk_okD [OF ih [OF c(2)] r(2)] obtain c' res where w: "insert_walk rm val (Some (update_child i (add_priority ?c) n, i)) (add_priority ?c) r' = Some (c', res)"
      "walk_result (k + 1) fs rm val (add_priority ?c) c' res" by blast
    have "insert_walk rm val parent n r = Some (update_child i c' n, res)"
      by (rule walk_suffix [OF r(1) ty sx' _ refl w(1)]) (use scan Some in simp)
    moreover have "node_wf (k + 1) c'" "nd_type c' = Static" "nd_prefix c' = nd_prefix ?c" "gain (fs, rm, val) res ?c c'"
      using w(2) c(1) \<open>fs = node_elems (add_priority ?c) @ gs\<close> by (auto simp: walk_result_def is_static_def gain_def)
    then have "walk_result k (PParam # fs) rm val n (update_child i c' n) res" by (intro param_put [OF wf i(1)]) simp_all
    ultimately show ?thesis by blast
  next
    case None
    have "suf \<notin> nd_bytes ` set (nd_children n)" using suffix_scan_none scan si None by blast
    moreover have "pattern_ok (k + 1) gs" "length rm = k + 1 + nparams gs" using ok(1,3) s(1) by (simp_all add: pattern_ok_def catch_names_ok_def)
    ultimately have "\<exists>n' res. insert_new_suffix rm val b n r' suffix (length suf) = Some (n', res) \<and> walk_result k (PParam # fs) rm val n n' res"
      using param_new_suffix [OF wf s(1,2) ne _ s(3) _ sx(2) po] by blast
    moreover have "walk_result k (PParam # fs) rm val n n (Inl (Clash r p))" for p using param_result [OF wf wf] by (simp add: gain_refl)
    moreover note walk_new_suffix [OF r(1) ty sx' _ find_wildcard_chars [OF sx(2)], where extra = extra and rm = rm and val = val and parent = parent]
    ultimately show ?thesis using scan None t by auto
  qed
qed

section \<open>The whole walk\<close>

lemma child_size: "c \<in> set (nd_children n) \<Longrightarrow> size c < size n"
proof (cases n)
  case (Node pre pri wild idx ty cs v rm)
  assume "c \<in> set (nd_children n)"
  then have "size c \<le> size_list size cs" using Node by (intro size_list_estimation') auto
  then show ?thesis using Node by simp
qed

lemma size_add_priority: "size (add_priority n) = size n"
  by (cases n) simp

definition enters :: "pelem list \<Rightarrow> 'v rnode \<Rightarrow> bool" where
  "enters es n \<longleftrightarrow> is_static n \<or> (is_param (nd_type n) \<and> (\<exists>fs. es = PParam # fs))"

lemma enters_static: "is_static n \<Longrightarrow> enters es (add_priority n)"
  by (simp add: enters_def is_static_def)

lemma insert_walk_ok:
  assumes "node_wf k n" "enters es n" "pattern_ok k es" "seg_ok False es" "length rm = k + nparams es"
  shows "walk_ok k es rm val n"
  using assms
proof (induction "size n" arbitrary: k n es rule: less_induct)
  case less
  have ih: "walk_ok k' fs rm val (add_priority c)"
    if "c \<in> set (nd_children n)" "node_wf k' c" "enters fs (add_priority c)" "pattern_ok k' fs" "seg_ok False fs" "length rm = k' + nparams fs" for c k' fs
    using less.hyps [of "add_priority c" k' fs] child_size [OF that(1)] that by (simp add: size_add_priority)
  show ?case unfolding walk_ok_def
  proof (intro allI impI)
    fix parent r
    assume v: "rf_view r = render k es"
    show "\<exists>n' res. insert_walk rm val parent n r = Some (n', res) \<and> walk_result k es rm val n n' res"
    proof (cases "is_static n")
      case True
      then have wf: "static_wf k n" using less.prems(1) by (simp add: node_wf_static)
      note cwf = static_children [OF wf]
      have rest: "pattern_ok k fs" "seg_ok False fs" "length rm = k + nparams fs" if "es = node_elems n @ fs" for fs
      proof -
        have e: "es = map PChar (nd_bytes n) @ fs" using that elems_static [OF True] by simp
        show "pattern_ok k fs" "seg_ok False fs" "length rm = k + nparams fs" by (rule pattern_rest [OF less.prems(3-5) [unfolded e]])+
      qed
      show ?thesis
      proof (rule static_walk [OF wf v less.prems(3-5)])
        fix i c gs
        assume a: "position (\<lambda>x. x = c) (nd_indices n) = Some i" "es = node_elems n @ PChar c # gs"
        then have i: "i < length (nd_indices n)" using position_SomeD by blast
        then have "index_node k (nd_indices n ! i) (nd_children n ! i)" by (rule children_wf_nth [OF cwf])
        moreover have "nd_children n ! i \<in> set (nd_children n)" using i children_wf_length [OF cwf] by simp
        ultimately show "walk_ok k (PChar c # gs) rm val (add_priority (nd_children n ! i))"
          using ih [of "nd_children n ! i" k "PChar c # gs"] rest [OF a(2)] enters_static [of "nd_children n ! i"]
          by (simp add: index_node_def is_static_def)
      next
        fix gs b
        assume a: "nd_wild_child n" "nd_type (last (nd_children n)) = Param b" "es = node_elems n @ PParam # gs"
        have "nd_children n \<noteq> []" using children_wf_length [OF cwf] a(1) by auto
        then have "last (nd_children n) \<in> set (nd_children n)" "node_wf k (last (nd_children n))" using wf by (simp_all add: static_wf_def)
        then show "walk_ok k (PParam # gs) rm val (add_priority (last (nd_children n)))"
          using ih [of "last (nd_children n)" k "PParam # gs"] rest [OF a(3)] a(2) by (simp add: enters_def is_param_def)
      qed
    next
      case False
      then obtain fs b where e: "es = PParam # fs" "nd_type n = Param b"
        using less.prems(2) by (cases "nd_type n") (auto simp: enters_def is_param_def)
      then have wf: "param_wf k b n" using less.prems(1) by (simp add: node_wf_param)
      have seg: "seg_ok True fs" using less.prems(4) e(1) by simp
      have ok: "pattern_ok (k + 1) fs" "length rm = k + 1 + nparams fs" using less.prems(3,5) e(1) by (simp_all add: pattern_ok_def catch_names_ok_def)
      have sub: "walk_ok (k + 1) fs rm val (add_priority c)" if "c \<in> set (nd_children n)" for c
        using ih [OF that, of "k + 1" fs] wf that ok seg_ok_mono [OF seg] enters_static [of c] by (simp add: param_wf_def is_static_def)
      show ?thesis unfolding e(1) by (rule param_walk [OF wf v [unfolded e(1)] less.prems(3) [unfolded e(1)] seg ok(2) sub])
    qed
  qed
qed

section \<open>Inserting a route\<close>

text \<open>Reads marked bytes back as a pattern; within a catch-all, its name so far is kept in reverse.\<close>

fun read_pattern :: "marked option \<Rightarrow> marked \<Rightarrow> pelem list option" where
  "read_pattern None [] = Some []"
| "read_pattern (Some name) [] = None"
| "read_pattern (Some name) (x # m) =
     (if x = (CHR ''}'', False) then map_option (\<lambda>es. PCatchAll (rev name) # es) (read_pattern None m)
      else read_pattern (Some (x # name)) m)"
| "read_pattern None (x # m) =
     (if x \<noteq> (CHR ''{'', False) then map_option (\<lambda>es. PChar (fst x) # es) (read_pattern None m)
      else case m of
          y # z # m' \<Rightarrow> if y = (CHR ''*'', False) then read_pattern (Some []) (z # m') else map_option (\<lambda>es. PParam # es) (read_pattern None m')
        | _ \<Rightarrow> None)"

text \<open>
  The pattern of a route that starts with a byte and has at most one wildcard in a segment, with its normalized form and the
  names of its parameters.
\<close>

definition route_pattern :: "string \<Rightarrow> (unescaped_route \<times> pelem list \<times> string list) option" where
  "route_pattern route =
     (case normalize_params (ur_new route) of
        Some (Inr (r, names)) \<Rightarrow>
          (case read_pattern None (ur_view r) of
             Some es \<Rightarrow>
               if render 0 es = ur_view r \<and> pattern_ok 0 es \<and> seg_ok False es \<and> length names = nparams es \<and> leading es \<noteq> []
               then Some (r, es, names) else None
           | None \<Rightarrow> None)
      | _ \<Rightarrow> None)"

lemma route_patternD:
  assumes "route_pattern route = Some (r, es, names)"
  shows "normalize_params (ur_new route) = Some (Inr (r, names))" "render 0 es = ur_view r" "pattern_ok 0 es" "seg_ok False es"
    "length names = nparams es" "leading es \<noteq> []"
  using assms by (auto simp: route_pattern_def split: option.splits sum.splits if_splits)

lemma set_root_ok: "static_wf k n \<Longrightarrow> static_wf k (set_type Root n) \<and> set (node_routes (set_type Root n)) = set (node_routes n)"
proof
  assume wf: "static_wf k n"
  then show "static_wf k (set_type Root n)" by (simp add: static_wf_parts static_head_def is_static_def)
  then have "node_elems (set_type Root n) = node_elems n" using elems_static [of n] elems_static [of "set_type Root n"] wf by (simp add: static_wf_def)
  then show "set (node_routes (set_type Root n)) = set (node_routes n)"
    unfolding node_routes_of [of n] node_routes_of [of "set_type Root n"] by simp
qed

lemma insert_normalized_ok:
  assumes "node_wf 0 n" "is_static n" "ur_view r = render 0 es" "pattern_ok 0 es" "seg_ok False es" "length names = nparams es" "leading es \<noteq> []"
  shows "\<exists>n' res. insert_normalized r names v n = Some (n', res) \<and> node_wf 0 n' \<and> is_static n' \<and>
    set (node_routes n') = set (node_routes n) \<union> gained (es, names, v) res"
proof -
  let ?n = "add_priority n"
  have view: "rf_view (ur_as_ref r) = render 0 es" using assms(3) by (simp add: ur_view_as_ref)
  have wf: "static_wf 0 ?n" "is_static ?n" using assms(1,2) node_wf_static [of ?n 0] by (simp_all add: is_static_def)
  show ?thesis
  proof (cases "nd_value ?n = None \<and> nd_children ?n = []")
    case True
    then have "\<not> nd_wild_child ?n" using children_wf_length [OF static_children [OF wf(1)]] by (auto split: if_splits)
    then have ready: "ready 0 es ?n" using wf True by (simp add: ready_def)
    have ne: "es \<noteq> []" using assms(7) by auto
    obtain m res where m: "insert_route names v ?n (ur_as_ref r) = Some (m, res)" "placed 0 es names v ?n m res"
      using insert_route_ok [OF ready view assms(4,5) ne, of names v] assms(6) by auto
    let ?m = "case res of Inl e \<Rightarrow> m | Inr u \<Rightarrow> set_type Root m"
    have w: "static_wf 0 m" "is_static m" "set (node_routes m) = set (node_routes n) \<union> gained (es, names, v) res"
      using m(2) assms(7) by (simp_all add: placed_def gain_gained static_wf_def)
    have "static_wf 0 ?m \<and> is_static ?m \<and> set (node_routes ?m) = set (node_routes m)"
      using w(1,2) set_root_ok [OF w(1)] by (cases res) (simp_all add: is_static_def)
    moreover have "insert_normalized r names v n = Some (?m, res)" using True m(1) by (simp add: insert_normalized_def)
    ultimately show ?thesis using w(3) by (intro exI [of _ ?m] exI [of _ res]) (simp add: node_wf_static)
  next
    case False
    have "walk_ok 0 es names v ?n" by (rule insert_walk_ok) (use assms in \<open>simp_all add: enters_def is_static_def\<close>)
    from walk_okD [OF this view, of None] obtain m res where m: "insert_walk names v None ?n (ur_as_ref r) = Some (m, res)" "walk_result 0 es names v ?n m res" by blast
    have "nd_type m = nd_type n" using m(2) wf(2) by (simp add: walk_result_def)
    then have "is_static m" using assms(2) by (simp add: is_static_def)
    then show ?thesis using m False by (auto simp: insert_normalized_def walk_result_def gain_gained)
  qed
qed

text \<open>C37. Inserting a route that starts with a static byte and has at most one wildcard in each segment, with names that
  are accepted, into a well-formed tree does not panic before its error is rendered and leaves a well-formed tree. When it
  succeeds the tree has its former routes and the new one with its names and value; when it fails, because of a conflict
  or a misplaced catch-all, it has its former routes. For the routes excluded here this is false
  (\<open>insert_outside_examples\<close>).\<close>

theorem node_insert_exact:
  assumes "node_wf 0 t" and "is_static t" and "route_pattern route = Some (r, es, names)"
  shows "\<exists>t' res. insert_normalized r names v t = Some (t', res) \<and> node_wf 0 t' \<and> is_static t' \<and>
    (case res of
       Inr u \<Rightarrow> node_insert route v t = Some (t', Inr ()) \<and> set (node_routes t') = insert (es, names, v) (set (node_routes t))
     | Inl (Bad e) \<Rightarrow> node_insert route v t = Some (t', Inl e) \<and> set (node_routes t') = set (node_routes t)
     | Inl (Clash prefix current) \<Rightarrow>
         node_insert route v t = map_option (\<lambda>e. (t', Inl e)) (conflict_error r prefix current) \<and>
         set (node_routes t') = set (node_routes t))"
proof -
  note p = route_patternD [OF assms(3)]
  obtain t' res where i: "insert_normalized r names v t = Some (t', res)" "node_wf 0 t'" "is_static t'"
      "set (node_routes t') = set (node_routes t) \<union> gained (es, names, v) res"
    using insert_normalized_ok [OF assms(1,2) p(2) [symmetric] p(3-6)] by blast
  have run: "node_insert route v t =
      (case res of Inr u \<Rightarrow> Some (t', Inr ()) | Inl (Bad e) \<Rightarrow> Some (t', Inl e)
       | Inl (Clash prefix current) \<Rightarrow> map_option (\<lambda>e. (t', Inl e)) (conflict_error r prefix current))"
    using p(1) i(1) by (simp add: node_insert_def map_option_to_bind split: sum.splits insert_fault.splits)
  then show ?thesis using i
    by (intro exI [of _ t'] exI [of _ res]) (auto simp: gained_def split: sum.splits insert_fault.splits)
qed

theorem node_insert_exact_witness:
  "\<exists>t' es. node_insert ''/users/{id}/photos/{name}.png'' 5 sample_tree = Some (t', Inr ()) \<and> node_wf 0 t' \<and>
     (es, [''id'', ''name''], 5) \<in> set (node_routes t') \<and> fill es [''mel'', ''cat''] = Some ''/users/mel/photos/cat.png''"
proof -
  let ?route = "''/users/{id}/photos/{name}.png''"
  have "case route_pattern ?route of
      Some (r, es, names) \<Rightarrow> names = [''id'', ''name''] \<and> fill es [''mel'', ''cat''] = Some ''/users/mel/photos/cat.png'' \<and>
        map_option (\<lambda>p. isl (snd p)) (insert_normalized r names 5 sample_tree) = Some False
    | None \<Rightarrow> False"
    by code_simp
  then obtain r es where p: "route_pattern ?route = Some (r, es, [''id'', ''name''])" "fill es [''mel'', ''cat''] = Some ''/users/mel/photos/cat.png''"
      and ok: "map_option (\<lambda>p. isl (snd p)) (insert_normalized r [''id'', ''name''] 5 sample_tree) = Some False"
    by (auto split: option.splits)
  from node_insert_exact [OF sample_tree_ok(1,2) p(1), of 5] obtain t' res where
    t: "insert_normalized r [''id'', ''name''] 5 sample_tree = Some (t', res)" "node_wf 0 t'"
      "\<not> isl res \<longrightarrow> node_insert ?route 5 sample_tree = Some (t', Inr ()) \<and> set (node_routes t') = insert (es, [''id'', ''name''], 5) (set (node_routes sample_tree))"
    by (elim exE conjE) (simp split: sum.splits)
  then show ?thesis using ok p(2) by (intro exI [of _ t'] exI [of _ es]) simp
qed

text \<open>
  Outside these routes both halves fail. A refused route leaves its first static part in the root of an empty tree, which
  has no value and no child and so takes the next route as its first: after the refused \<^verbatim>\<open>/a/{x}{y}\<close> the route
  \<^verbatim>\<open>{z}\<close> matches \<^verbatim>\<open>/a/foo\<close>. And a second parameter in a segment is accepted when its bytes are a literal suffix
  in the tree, which then is not well-formed any more and finds a value with a slash.
\<close>

lemma insert_outside_examples:
  "map_option (\<lambda>p. isl (snd p)) (node_insert ''/a/{x}{y}'' (1 :: nat) node_default) = Some True"
  "map_option (map_sum id fst) (node_at (insert_all [(''/a/{x}{y}'', 1), (''{z}'', 2)]) ''/a/foo'') = Some (Inr 2)"
  "map_option (map_sum id fst) (node_at (insert_all [(''{z}'', 2)]) ''/a/foo'') = Some (Inl NotFound)"
  "map_option (\<lambda>p. isl (snd p)) (node_insert ''/{a}{b}'' 2 (insert_all [])) = Some True"
  "map_option (\<lambda>p. isl (snd p)) (node_insert ''/{a}{b}'' 2 (insert_all [(''/{a}{{b}}'', 1)])) = Some False"
  "node_wf 0 (insert_all [(''/{a}{{b}}'', 1), (''/{a}{b}'', 2)]) = False"
  "map_option (map_sum id (\<lambda>(v, p). (v, params_get p ''a''))) (node_at (insert_all [(''/{a}{{b}}'', 1), (''/{a}{b}'', 2)]) ''/foo/bar'') =
     Some (Inr (2, Some (Some ''foo/'')))"
  by code_simp+

end
