(* ===== verification/Route_Remove.thy ===== *)
theory Route_Remove
  imports Route_Walk
begin

text \<open>
  Removal from the radix tree keeps its invariant and takes away the route it was asked for and no other, in trees whose
  static bytes have no braces. With braces the comparison of bytes without their marks finds the wrong node.
\<close>

section \<open>Routes as a multiset\<close>

text \<open>The route of a value, if there is one.\<close>

definition lost :: "pelem list \<Rightarrow> string list \<Rightarrow> 'v option \<Rightarrow> 'v route multiset" where
  "lost es rm out = image_mset (\<lambda>v. (es, rm, v)) (case out of Some v \<Rightarrow> {#v#} | None \<Rightarrow> {#})"

lemma lost_simps [simp]: "lost es rm None = {#}" "lost es rm (Some v) = {#(es, rm, v)#}"
  by (simp_all add: lost_def)

definition child_mset :: "pelem list \<Rightarrow> 'v rnode \<Rightarrow> 'v route multiset" where
  "child_mset es c = image_mset (below es) (mset (node_routes c))"

lemma mset_node_routes: "mset (node_routes n) = lost (node_elems n) (nd_remapping n) (nd_value n) + sum_list (map (child_mset (node_elems n)) (nd_children n))"
  by (cases n) (simp add: child_mset_def [abs_def] mset_concat comp_def split: option.splits)

lemma sum_list_update: "i < length cs \<Longrightarrow> sum_list (map f (cs[i := c])) + f (cs ! i) = sum_list (map f cs) + f c"
  for f :: "'a \<Rightarrow> 'b multiset"
proof (induction cs arbitrary: i)
  case (Cons d cs)
  then show ?case by (cases i) (simp_all add: union_ac)
qed simp

lemma sum_list_remove: "i < length cs \<Longrightarrow> sum_list (map f (remove_at i cs)) + f (cs ! i) = sum_list (map f cs)"
  for f :: "'a \<Rightarrow> 'b multiset"
proof -
  assume "i < length cs"
  then have "sum_list (map f cs) = sum_list (map f (take i cs @ cs ! i # drop (Suc i) cs))" by (simp only: id_take_nth_drop [symmetric])
  then show ?thesis by (simp add: remove_at_def union_ac)
qed

text \<open>What a removal takes: the route \<open>(es, rm, v)\<close> when it gives the value \<open>v\<close>.\<close>

definition loses :: "pelem list \<Rightarrow> string list \<Rightarrow> 'v option \<Rightarrow> 'v rnode \<Rightarrow> 'v rnode \<Rightarrow> bool" where
  "loses es rm out n n' \<longleftrightarrow> mset (node_routes n) = mset (node_routes n') + lost es rm out"

lemma lost_below: "image_mset (below es) (lost fs rm out) = lost (es @ fs) rm out"
  by (cases out) (simp_all add: below_def)

lemma loses_refl: "loses es rm None n n"
  by (simp add: loses_def)

lemma loses_update:
  assumes "i < length (nd_children n)" "loses fs rm out (nd_children n ! i) c"
  shows "loses (node_elems n @ fs) rm out n (update_child i c n)"
proof -
  let ?f = "child_mset (node_elems n)"
  have "?f (nd_children n ! i) = ?f c + lost (node_elems n @ fs) rm out"
    using assms(2) by (simp add: child_mset_def loses_def lost_below)
  then have "sum_list (map ?f ((nd_children n)[i := c])) + ?f c + lost (node_elems n @ fs) rm out = sum_list (map ?f (nd_children n)) + ?f c"
    using sum_list_update [OF assms(1), of ?f c] by (simp add: union_ac)
  then have "sum_list (map ?f (nd_children n)) = sum_list (map ?f ((nd_children n)[i := c])) + lost (node_elems n @ fs) rm out"
    by (simp add: union_ac)
  then show ?thesis unfolding loses_def mset_node_routes [of n] mset_node_routes [of "update_child i c n"]
    by (simp add: union_ac)
qed

lemma loses_child:
  assumes "i < length (nd_children n)" "nd_children m = remove_at i (nd_children n)" "same_head n m"
    and "nd_children (nd_children n ! i) = []" "nd_remapping (nd_children n ! i) = rm"
  shows "loses (node_elems n @ node_elems (nd_children n ! i)) rm (nd_value (nd_children n ! i)) n m"
proof -
  let ?c = "nd_children n ! i" and ?f = "child_mset (node_elems n)"
  have "mset (node_routes ?c) = lost (node_elems ?c) rm (nd_value ?c)"
    using assms(4,5) unfolding mset_node_routes [of ?c] by simp
  then have "?f ?c = lost (node_elems n @ node_elems ?c) rm (nd_value ?c)" by (simp add: child_mset_def lost_below)
  then show ?thesis unfolding loses_def mset_node_routes [of n] mset_node_routes [of m] assms(2)
    using sum_list_remove [OF assms(1), of ?f] assms(3) by (simp add: union_ac same_head_def)
qed

lemma loses_value:
  assumes "nd_remapping n = rm"
  shows "loses (node_elems n) rm (nd_value n) n (set_value None n)"
  unfolding loses_def mset_node_routes [of n] mset_node_routes [of "set_value None n"]
  using assms by (simp add: union_ac)

section \<open>Taking a child away\<close>

lemma remove_at_append: "i < length xs \<Longrightarrow> remove_at i (xs @ ys) = remove_at i xs @ ys"
  by (simp add: remove_at_def)

lemma set_remove_at: "set (remove_at i xs) \<subseteq> set xs"
  using set_take_subset set_drop_subset by (fastforce simp: remove_at_def)

lemma distinct_remove_at: "distinct xs \<Longrightarrow> distinct (remove_at i xs)"
proof -
  assume d: "distinct xs"
  have "set (take i xs) \<inter> set (drop (Suc i) xs) = {}" using d by (intro set_take_disj_set_drop_if_distinct) simp_all
  then show ?thesis using d by (simp add: remove_at_def)
qed

lemma map_remove_at: "map f (remove_at i xs) = remove_at i (map f xs)"
  by (simp add: remove_at_def take_map drop_map)

lemma children_wf_remove:
  assumes "children_wf k wild idx cs" "i < length idx"
  shows "children_wf k wild (remove_at i idx) (remove_at i cs)"
proof -
  obtain ss ws where s: "cs = ss @ ws" "list_all2 (index_node k) idx ss" "if wild then \<exists>c. ws = [c] \<and> wild_node k c else ws = []"
    and d: "distinct idx" using assms(1) by (auto simp: children_wf_def)
  have "i < length ss" using assms(2) s(2) by (simp add: list_all2_lengthD)
  then have "remove_at i cs = remove_at i ss @ ws" using s(1) by (simp add: remove_at_append)
  moreover have "list_all2 (index_node k) (remove_at i idx) (remove_at i ss)"
    unfolding remove_at_def using s(2) by (intro list_all2_appendI list_all2_takeI list_all2_dropI)
  ultimately show ?thesis using s(3) distinct_remove_at [OF d] unfolding children_wf_def by blast
qed

lemma children_wf_remove_wild: "children_wf k True idx cs \<Longrightarrow> children_wf k False idx (remove_at (length cs - 1) cs)"
  by (auto simp: children_wf_def remove_at_def)

definition remove_result :: "nat \<Rightarrow> pelem list \<Rightarrow> string list \<Rightarrow> 'v rnode \<Rightarrow> 'v rnode \<Rightarrow> 'v option \<Rightarrow> bool" where
  "remove_result k es rm n n' out \<longleftrightarrow> node_wf k n' \<and> nd_type n' = nd_type n \<and> nd_prefix n' = nd_prefix n \<and> loses es rm out n n'"

lemma remove_result_refl: "node_wf k n \<Longrightarrow> remove_result k es rm n n None"
  by (simp add: remove_result_def loses_refl)

lemma set_value_wf: "node_wf k n \<Longrightarrow> nd_children n \<noteq> [] \<Longrightarrow> node_wf k (set_value None n)"
  by (cases n) (auto split: node_type.splits)

lemma static_remove_result:
  assumes "static_wf k n" "same_head n m" "children_wf k (nd_wild_child m) (nd_indices m) (nd_children m)" "loses es rm out n m"
  shows "remove_result k es rm n m out"
  using static_update [OF assms(1-3)] assms(4) static_wf_head [OF assms(1)]
  by (simp add: remove_result_def node_wf_static is_static_def)

lemma loses_subset: "loses es rm out n n' \<Longrightarrow> set (node_routes n') \<subseteq> set (node_routes n)"
  using mset_subset_eqD by (fastforce simp: loses_def simp flip: set_mset_mset)

lemma removed_index: "index_node k i c \<Longrightarrow> remove_result k es rm c c' out \<Longrightarrow> index_node k i c'"
  using loses_subset by (fastforce simp: index_node_def remove_result_def starts_with_def list_all_iff)

lemma removed_wild: "wild_node k c \<Longrightarrow> remove_result k es rm c c' out \<Longrightarrow> wild_node k c'"
  by (simp add: wild_node_def remove_result_def)

text \<open>Where a child of a static node stands: below its index, or last as the wildcard.\<close>

definition child_at :: "'v rnode \<Rightarrow> nat \<Rightarrow> bool" where
  "child_at n i \<longleftrightarrow> i < length (nd_indices n) \<or> (nd_wild_child n \<and> i = length (nd_children n) - 1)"

lemma child_at_bound: "static_wf k n \<Longrightarrow> child_at n i \<Longrightarrow> i < length (nd_children n)"
  by (auto simp: child_at_def static_wf_def)

lemma wild_last: "static_wf k n \<Longrightarrow> nd_wild_child n \<Longrightarrow> wild_node k (nd_children n ! (length (nd_children n) - 1))"
  using static_children [of k n] by (auto simp: children_wf_def nth_append)

lemma static_put_back:
  assumes "static_wf k n" "child_at n i" "remove_result k fs rm (nd_children n ! i) c out"
  shows "remove_result k (node_elems n @ fs) rm n (update_child i c n) out"
proof (rule static_remove_result [OF assms(1)])
  note cwf = static_children [OF assms(1)]
  show "same_head n (update_child i c n)" by (simp add: same_head_def)
  show "loses (node_elems n @ fs) rm out n (update_child i c n)"
    using assms(3) loses_update [OF child_at_bound [OF assms(1,2)]] by (simp add: remove_result_def)
  show "children_wf k (nd_wild_child (update_child i c n)) (nd_indices (update_child i c n)) (nd_children (update_child i c n))"
  proof (cases "i < length (nd_indices n)")
    case True
    then show ?thesis using children_wf_update [OF cwf True] removed_index [OF children_wf_nth [OF cwf True] assms(3)] by simp
  next
    case False
    then have w: "nd_wild_child n" "i = length (nd_children n) - 1" using assms(2) by (auto simp: child_at_def)
    have "wild_node k c" using removed_wild [OF wild_last [OF assms(1) w(1)]] assms(3) w(2) by blast
    moreover have "children_wf k True (nd_indices n) (nd_children n)" using cwf w(1) by simp
    ultimately have "children_wf k True (nd_indices n) ((nd_children n)[length (nd_children n) - 1 := c])" by (intro children_wf_update_wild)
    then show ?thesis using w by simp
  qed
qed

lemma remove_child_other: "nd_remapping (nd_children n ! i) \<noteq> rm \<Longrightarrow> i < length (nd_children n) \<Longrightarrow> remove_child n i rm = Some (n, None)"
  by (simp add: remove_child_def Let_def)

lemma remove_child_inner:
  "nd_remapping (nd_children n ! i) = rm \<Longrightarrow> i < length (nd_children n) \<Longrightarrow> nd_children (nd_children n ! i) \<noteq> [] \<Longrightarrow>
   remove_child n i rm = Some (update_child i (set_value None (nd_children n ! i)) n, nd_value (nd_children n ! i))"
  by (simp add: remove_child_def Let_def)

lemma emptied:
  assumes "node_wf k c" "nd_children c \<noteq> []" "nd_remapping c = rm"
  shows "remove_result k (node_elems c) rm c (set_value None c) (nd_value c)"
  using set_value_wf [OF assms(1,2)] loses_value [OF assms(3)] by (simp add: remove_result_def)

lemma static_child_wf: "static_wf k n \<Longrightarrow> i < length (nd_children n) \<Longrightarrow> node_wf k (nd_children n ! i)"
  by (simp add: static_wf_def)

lemma static_remove_child:
  assumes wf: "static_wf k n" and at: "child_at n i"
  shows "\<exists>n' out. remove_child n i rm = Some (n', out) \<and> remove_result k (node_elems n @ node_elems (nd_children n ! i)) rm n n' out \<and>
    (out = None \<longrightarrow> nd_remapping (nd_children n ! i) \<noteq> rm \<or> nd_value (nd_children n ! i) = None)"
proof -
  let ?c = "nd_children n ! i"
  note i = child_at_bound [OF assms] and cwf = static_children [OF wf] and st = static_wf_head [OF wf]
  have nwf: "node_wf k n" using wf st by (simp add: node_wf_static)
  consider (other) "nd_remapping ?c \<noteq> rm" | (inner) "nd_remapping ?c = rm" "nd_children ?c \<noteq> []" | (leaf) "nd_remapping ?c = rm" "nd_children ?c = []" by blast
  then show ?thesis
  proof cases
    case other
    then show ?thesis using remove_child_other [OF other i] remove_result_refl [OF nwf] by simp
  next
    case inner
    have "remove_result k (node_elems ?c) rm ?c (set_value None ?c) (nd_value ?c)" by (rule emptied [OF static_child_wf [OF wf i] inner(2,1)])
    then show ?thesis using remove_child_inner [OF inner(1) i inner(2)] static_put_back [OF assms] by simp
  next
    case leaf
    let ?cs = "remove_at i (nd_children n)"
    define m where "m = (if i < length (nd_indices n) then set_indices (remove_at i (nd_indices n)) (set_children ?cs n) else set_wild_child False (set_children ?cs n))"
    have "nd_type ?c = Static" if "i < length (nd_indices n)" using children_wf_nth [OF cwf that] by (simp add: index_node_def)
    moreover have "nd_type ?c \<noteq> Static" if "\<not> i < length (nd_indices n)"
      using at wild_last [OF wf] that by (auto simp: child_at_def wild_node_def is_param_def)
    moreover have "\<not> is_param (nd_type n)" using st by (auto simp: is_static_def is_param_def)
    ultimately have "remove_child n i rm = Some (m, nd_value ?c)" using leaf i by (simp add: remove_child_def Let_def m_def)
    moreover have "remove_result k (node_elems n @ node_elems ?c) rm n m (nd_value ?c)"
    proof (rule static_remove_result [OF wf])
      show "same_head n m" by (simp add: same_head_def m_def)
      show "children_wf k (nd_wild_child m) (nd_indices m) (nd_children m)"
        using at children_wf_remove [OF cwf, of i] children_wf_remove_wild [of k "nd_indices n" "nd_children n"] cwf
        by (auto simp: m_def child_at_def)
      show "loses (node_elems n @ node_elems ?c) rm (nd_value ?c) n m"
        by (rule loses_child [OF i _ _ leaf(2,1)]) (simp_all add: m_def same_head_def)
    qed
    ultimately show ?thesis by blast
  qed
qed

lemma param_remove_result:
  assumes "param_wf k b n" "same_head n m" "nd_indices m = []" "\<not> nd_wild_child m" "distinct (map nd_bytes (nd_children m))"
    and "\<forall>c\<in>set (nd_children m). nd_type c = Static \<and> suffix_ok b (nd_bytes c) \<and> node_wf (k + 1) c" "loses es rm out n m"
  shows "remove_result k es rm n m out"
proof -
  have "param_wf k b m" using assms by (simp add: param_wf_def same_head_def)
  moreover have "nd_type m = Param b" using assms(1,2) by (simp add: param_wf_def same_head_def)
  ultimately show ?thesis using assms(1,2,7) by (simp add: remove_result_def node_wf_param param_wf_def same_head_def)
qed

lemma param_put_back:
  assumes "param_wf k b n" "i < length (nd_children n)" "remove_result (k + 1) fs rm (nd_children n ! i) c out"
  shows "remove_result k (node_elems n @ fs) rm n (update_child i c n) out"
proof (rule param_remove_result [OF assms(1)])
  have c: "nd_prefix c = nd_prefix (nd_children n ! i)" "nd_type c = nd_type (nd_children n ! i)" "node_wf (k + 1) c"
    using assms(3) by (simp_all add: remove_result_def)
  then have "map nd_bytes ((nd_children n)[i := c]) = map nd_bytes (nd_children n)" using assms(2) by (simp add: map_update list_update_same_conv)
  then show "distinct (map nd_bytes (nd_children (update_child i c n)))" using assms(1) by (simp add: param_wf_def)
  have "nd_children n ! i \<in> set (nd_children n)" using assms(2) by simp
  then have "nd_type c = Static \<and> suffix_ok b (nd_bytes c)" using assms(1) c(1,2) unfolding param_wf_def by metis
  then show "\<forall>x\<in>set (nd_children (update_child i c n)). nd_type x = Static \<and> suffix_ok b (nd_bytes x) \<and> node_wf (k + 1) x"
    using assms(1) c(3) set_update_subset_insert [of "nd_children n" i c] by (auto simp: param_wf_def)
  show "loses (node_elems n @ fs) rm out n (update_child i c n)"
    using assms(3) loses_update [OF assms(2)] by (simp add: remove_result_def)
qed (use assms(1) in \<open>simp_all add: param_wf_def same_head_def\<close>)

lemma param_remove_child:
  assumes wf: "param_wf k b n" and i: "i < length (nd_children n)"
  shows "\<exists>n' out. remove_child n i rm = Some (n', out) \<and> remove_result k (node_elems n @ node_elems (nd_children n ! i)) rm n n' out \<and>
    (out = None \<longrightarrow> nd_remapping (nd_children n ! i) \<noteq> rm \<or> nd_value (nd_children n ! i) = None)"
proof -
  let ?c = "nd_children n ! i"
  have ty: "nd_type n = Param b" using wf by (simp add: param_wf_def)
  have nwf: "node_wf k n" using wf ty by (simp add: node_wf_param)
  have cw: "node_wf (k + 1) ?c" using wf i by (simp add: param_wf_def)
  consider (other) "nd_remapping ?c \<noteq> rm" | (inner) "nd_remapping ?c = rm" "nd_children ?c \<noteq> []" | (leaf) "nd_remapping ?c = rm" "nd_children ?c = []" by blast
  then show ?thesis
  proof cases
    case other
    then show ?thesis using remove_child_other [OF other i] remove_result_refl [OF nwf] by simp
  next
    case inner
    have "remove_result (k + 1) (node_elems ?c) rm ?c (set_value None ?c) (nd_value ?c)" by (rule emptied [OF cw inner(2,1)])
    then show ?thesis using remove_child_inner [OF inner(1) i inner(2)] param_put_back [OF wf i] by simp
  next
    case leaf
    let ?m = "set_wild_child False (set_children (remove_at i (nd_children n)) n)"
    have "remove_child n i rm = Some (?m, nd_value ?c)" using leaf i ty by (simp add: remove_child_def Let_def is_param_def)
    moreover have "remove_result k (node_elems n @ node_elems ?c) rm n ?m (nd_value ?c)"
    proof (rule param_remove_result [OF wf])
      show "distinct (map nd_bytes (nd_children ?m))" using wf by (simp add: map_remove_at distinct_remove_at param_wf_def)
      show "\<forall>c\<in>set (nd_children ?m). nd_type c = Static \<and> suffix_ok b (nd_bytes c) \<and> node_wf (k + 1) c"
        using wf set_remove_at [of i "nd_children n"] by (auto simp: param_wf_def)
      show "loses (node_elems n @ node_elems ?c) rm (nd_value ?c) n ?m"
        by (rule loses_child [OF i _ _ leaf(2,1)]) (simp_all add: same_head_def)
    qed (use wf in \<open>simp_all add: param_wf_def same_head_def\<close>)
    ultimately show ?thesis by blast
  qed
qed

section \<open>Plain patterns\<close>

definition plain_byte :: "char \<Rightarrow> bool" where
  "plain_byte c \<longleftrightarrow> \<not> is_brace c"

definition plain_name :: "marked \<Rightarrow> bool" where
  "plain_name name \<longleftrightarrow> list_all (\<lambda>x. plain_byte (fst x) \<and> \<not> snd x) name"

definition plain_elem :: "pelem \<Rightarrow> bool" where
  "plain_elem e \<longleftrightarrow> (case e of PChar c \<Rightarrow> plain_byte c | PParam \<Rightarrow> True | PCatchAll name \<Rightarrow> plain_name name)"

fun plain_tree :: "'v rnode \<Rightarrow> bool" where
  "plain_tree (Node pre pri wild idx ty cs v rm) \<longleftrightarrow>
     list_all plain_byte idx \<and> list_all plain_elem (elems_of pre ty) \<and> list_all plain_tree cs"

lemma plain_tree_unfold:
  "plain_tree n \<longleftrightarrow> list_all plain_byte (nd_indices n) \<and> list_all plain_elem (node_elems n) \<and> (\<forall>c\<in>set (nd_children n). plain_tree c)"
  by (cases n) (simp add: list_all_iff)

text \<open>The bytes of a pattern.\<close>

definition bytes_of :: "nat \<Rightarrow> pelem list \<Rightarrow> string" where
  "bytes_of k es = map fst (render k es)"

lemma bytes_of_append: "bytes_of k (es @ fs) = bytes_of k es @ bytes_of (k + nparams es) fs"
  by (simp add: bytes_of_def render_append)

lemma bytes_of_chars [simp]: "bytes_of k (map PChar cs) = cs"
  by (simp add: bytes_of_def render_chars)

lemma bytes_of_Nil [simp]: "bytes_of k [] = []" "bytes_of k es = [] \<longleftrightarrow> es = []"
  using render_nonempty [of es k] by (auto simp: bytes_of_def)

lemma node_bytes: "node_wf k n \<Longrightarrow> nd_bytes n = bytes_of k (node_elems n)"
proof -
  assume "node_wf k n"
  then have "ur_view (nd_prefix n) = render k (node_elems n)" by (cases n) simp
  then show ?thesis using fst_ur_view [of "nd_prefix n"] by (simp add: bytes_of_def)
qed

lemma bytes_of_prefix:
  assumes "bytes_of k es = cs @ s" "list_all plain_byte cs"
  shows "\<exists>fs. es = map PChar cs @ fs \<and> s = bytes_of k fs"
  using assms
proof (induction cs arbitrary: es)
  case (Cons c cs)
  have "c \<noteq> CHR ''{''" using Cons.prems(2) by (auto simp: plain_byte_def is_brace_def)
  then obtain fs where "es = PChar c # fs" using Cons.prems(1) by (cases es rule: nparams.cases) (auto simp: bytes_of_def mark_def)
  then show ?case using Cons by (auto simp: bytes_of_def)
qed simp

lemma plain_chars: "list_all plain_elem (map PChar cs) \<longleftrightarrow> list_all plain_byte cs"
  by (simp add: list_all_iff plain_elem_def)

lemma pattern_cases:
  obtains (none) "fs = []" | (param) gs where "fs = PParam # gs" | (char) c gs where "fs = PChar c # gs" | (catch) name gs where "fs = PCatchAll name # gs"
  by (cases fs rule: nparams.cases) auto

lemma wild_bytes:
  assumes "bytes_of k fs = CHR ''{'' # s" "list_all plain_elem fs"
  shows "leading fs = [] \<and> fs \<noteq> []"
  using assms by (cases fs rule: nparams.cases) (auto simp: bytes_of_def mark_def plain_elem_def plain_byte_def is_brace_def)

text \<open>The bytes of a wildcard that begin a pattern.\<close>

lemma param_first:
  assumes "bytes_of k fs = [CHR ''{'', param_name k, CHR ''}''] @ s" "list_all plain_elem fs" "k < 26"
  obtains gs where "fs = PParam # gs" "s = bytes_of (k + 1) gs"
proof (cases fs rule: pattern_cases)
  case (char c gs)
  then show ?thesis using assms(1,2) by (auto simp: bytes_of_def mark_def plain_elem_def plain_byte_def is_brace_def)
next
  case (catch name gs)
  then have "param_name k = CHR ''*''" using assms(1) by (simp add: bytes_of_def)
  then show ?thesis using letter_ok [OF assms(3)] by simp
qed (use assms(1) that in \<open>auto simp: bytes_of_def\<close>)

lemma catch_bytes: "bytes_of k (PCatchAll name # gs) = CHR ''{'' # CHR ''*'' # map fst name @ CHR ''}'' # bytes_of k gs"
  by (simp add: bytes_of_def)

lemma plain_name_stop: "plain_name name \<Longrightarrow> CHR ''}'' \<notin> fst ` set name"
  by (auto simp: plain_name_def list_all_iff plain_byte_def is_brace_def)

lemma plain_name_inj:
  assumes "plain_name a" "plain_name b" "map fst a @ CHR ''}'' # s = map fst b @ CHR ''}'' # t"
  shows "a = b \<and> s = t"
proof -
  have "takeWhile (\<lambda>c. c \<noteq> CHR ''}'') (map fst x @ CHR ''}'' # u) = map fst x" if "plain_name x" for x u
    using plain_name_stop [OF that] by (subst takeWhile_append2) (auto simp: image_iff)
  then have m: "map fst a = map fst b" using assms by metis
  then have "s = t" using assms(3) by simp
  moreover have "x = map (\<lambda>c. (c, False)) (map fst x)" if "plain_name x" for x
    using that by (induction x) (auto simp: plain_name_def)
  ultimately show ?thesis using m assms(1,2) by metis
qed

lemma catch_first:
  assumes "bytes_of k fs = bytes_of k [PCatchAll name]" "list_all plain_elem fs" "plain_name name" "k < 26"
  shows "fs = [PCatchAll name]"
proof (cases fs rule: pattern_cases)
  case (param gs)
  then have "param_name k = CHR ''*''" using assms(1) by (simp add: bytes_of_def)
  then show ?thesis using letter_ok [OF assms(4)] by simp
next
  case (char c gs)
  then show ?thesis using assms(1,2) by (auto simp: bytes_of_def mark_def plain_elem_def plain_byte_def is_brace_def)
next
  case (catch name' gs)
  then have "plain_name name'" using assms(2) by (simp add: plain_elem_def)
  moreover have "map fst name' @ CHR ''}'' # bytes_of k gs = map fst name @ CHR ''}'' # []" using assms(1) catch by (simp add: catch_bytes)
  ultimately have "name' = name \<and> bytes_of k gs = []" by (intro plain_name_inj [OF _ assms(3)])
  then show ?thesis using catch by simp
qed (use assms(1) in \<open>simp add: bytes_of_def\<close>)

text \<open>Equal bytes are equal patterns.\<close>

lemma plain_static_bytes: "is_static c \<Longrightarrow> plain_tree c \<Longrightarrow> list_all plain_byte (nd_bytes c)"
  using elems_static [of c] plain_tree_unfold [of c] by (simp add: plain_chars)

lemma same_bytes_static:
  assumes "node_wf k c" "plain_tree c" "list_all plain_elem fs" "nd_bytes c = bytes_of k fs" "is_static c"
  shows "fs = node_elems c"
proof -
  obtain gs where gs: "fs = map PChar (nd_bytes c) @ gs" "[] = bytes_of k gs"
    using bytes_of_prefix [of k fs "nd_bytes c" "[]"] plain_static_bytes [OF assms(5,2)] assms(4) by auto
  have "gs = []" using gs(2) bytes_of_Nil(2) [of k gs] by simp
  then show ?thesis using gs(1) elems_static [OF assms(5)] by simp
qed

lemma same_bytes:
  assumes "node_wf k c" "plain_tree c" "list_all plain_elem fs" "nd_bytes c = bytes_of k fs" "k < 26"
  shows "fs = node_elems c"
proof (cases "nd_type c")
  case (Param b)
  then have wf: "param_wf k b c" using assms(1) by (simp add: node_wf_param)
  then have "bytes_of k fs = [CHR ''{'', param_name k, CHR ''}''] @ []" using wild_param_bytes [OF wf] assms(4) by simp
  then obtain gs where "fs = PParam # gs" "[] = bytes_of (k + 1) gs" using param_first assms(3,5) by blast
  then show ?thesis using param_elems [OF wf] bytes_of_Nil(2) [of "k + 1" gs] by simp
next
  case CatchAll
  then obtain name where n: "node_elems c = [PCatchAll name]" by (simp add: elems_of_def)
  moreover have "list_all plain_elem (node_elems c)" using assms(2) unfolding plain_tree_unfold [of c] by blast
  ultimately have "plain_name name" by (simp add: plain_elem_def)
  then show ?thesis using catch_first [OF _ assms(3) _ assms(5)] node_bytes [OF assms(1)] assms(4) n by metis
qed (use same_bytes_static [OF assms(1-4)] in \<open>simp_all add: is_static_def\<close>)

section \<open>The walk\<close>

definition absent :: "pelem list \<Rightarrow> string list \<Rightarrow> 'v rnode \<Rightarrow> bool" where
  "absent es rm n \<longleftrightarrow> (\<forall>v. (es, rm, v) \<notin> set (node_routes n))"

definition removal :: "nat \<Rightarrow> pelem list \<Rightarrow> string list \<Rightarrow> 'v rnode \<Rightarrow> ('v rnode \<times> 'v option) option \<Rightarrow> bool" where
  "removal k es rm n r \<longleftrightarrow>
     (\<exists>n' out. r = Some (n', out) \<and> remove_result k es rm n n' out \<and> (out = None \<and> no_suffix n \<and> es \<noteq> node_elems n \<longrightarrow> absent es rm n))"

lemma removal_none: "node_wf k n \<Longrightarrow> (no_suffix n \<Longrightarrow> es \<noteq> node_elems n \<Longrightarrow> absent es rm n) \<Longrightarrow> removal k es rm n (Some (n, None))"
  by (simp add: removal_def remove_result_refl)

lemma absent_other: "(\<And>gs. es \<noteq> node_elems n @ gs) \<Longrightarrow> absent es rm n"
  unfolding absent_def by (metis fst_conv route_starts)

lemma static_routes_nonempty:
  assumes "static_wf k n" "c \<in> set (nd_children n)" "r \<in> set (node_routes c)"
  shows "fst r \<noteq> []"
proof -
  note cwf = static_children [OF assms(1)]
  obtain i where i: "i < length (nd_children n)" "c = nd_children n ! i" using assms(2) by (auto simp: in_set_conv_nth)
  show ?thesis
  proof (cases "i < length (nd_indices n)")
    case True
    then show ?thesis using children_wf_nth [OF cwf True] assms(3) i(2) by (auto simp: index_node_def starts_with_def list_all_iff)
  next
    case False
    then have "nd_wild_child n" "i = length (nd_children n) - 1" using children_wf_length [OF cwf] i(1) by (auto split: if_splits)
    then have "wild_node k c" using wild_last [OF assms(1)] i(2) by simp
    then show ?thesis using route_starts [OF assms(3)] by (auto simp: wild_node_def elems_of_def is_param_def split: node_type.splits)
  qed
qed

lemma child_routes_nonempty:
  assumes "node_wf k n" "c \<in> set (nd_children n)" "r \<in> set (node_routes c)"
  shows "fst r \<noteq> []"
proof (cases "nd_type n")
  case (Param b)
  then have "nd_type c = Static" "nd_bytes c \<noteq> []" using assms(1,2) by (auto simp: node_wf_param param_wf_def suffix_ok_def)
  then show ?thesis using route_starts [OF assms(3)] elems_static [of c] by (auto simp: is_static_def)
next
  case CatchAll
  then show ?thesis using assms(1,2) by (simp add: node_wf_catch catch_wf_def)
qed (use assms static_routes_nonempty [of k n c r] in \<open>simp_all add: node_wf_static is_static_def\<close>)

lemma own_only:
  assumes "node_wf k n" "nd_remapping n \<noteq> rm \<or> nd_value n = None"
  shows "absent (node_elems n) rm n"
proof -
  have "(node_elems n, rm, v) \<notin> set (node_routes n)" for v
  proof
    assume "(node_elems n, rm, v) \<in> set (node_routes n)"
    then consider "nd_value n = Some v" "nd_remapping n = rm" | c r where "c \<in> set (nd_children n)" "r \<in> set (node_routes c)" "fst r = []"
      unfolding node_routes_of [of n] routes_of_def by (auto simp: below_def)
    then show False using assms child_routes_nonempty [OF assms(1)] by cases auto
  qed
  then show ?thesis by (simp add: absent_def)
qed

lemma absent_below:
  assumes "fs \<noteq> []" "\<And>c. c \<in> set (nd_children n) \<Longrightarrow> absent fs rm c"
  shows "absent (node_elems n @ fs) rm n"
  using assms unfolding absent_def node_routes_of [of n] routes_of_def by (auto simp: below_def)

text \<open>The turn at the one child where the pattern can be.\<close>

definition turn_at :: "string list \<Rightarrow> 'v rnode \<Rightarrow> nat \<Rightarrow> string \<Rightarrow> ('v rnode \<times> 'v option) option" where
  "turn_at rm n i remaining =
     (if nd_bytes (nd_children n ! i) = remaining then remove_child n i rm
      else do { (child, out) \<leftarrow> remove_walk rm (nd_children n ! i) remaining; Some (update_child i child n, out) })"

lemma removal_turn:
  assumes "fs \<noteq> []" and i: "i < length (nd_children n)"
    and same: "nd_bytes (nd_children n ! i) = remaining \<Longrightarrow> fs = node_elems (nd_children n ! i)"
    and diff: "nd_bytes (nd_children n ! i) \<noteq> remaining \<Longrightarrow> fs \<noteq> node_elems (nd_children n ! i)"
    and cw: "node_wf k' (nd_children n ! i)"
    and rc: "\<exists>n' out. remove_child n i rm = Some (n', out) \<and> remove_result k (node_elems n @ node_elems (nd_children n ! i)) rm n n' out \<and>
      (out = None \<longrightarrow> nd_remapping (nd_children n ! i) \<noteq> rm \<or> nd_value (nd_children n ! i) = None)"
    and put: "\<And>c out. remove_result k' fs rm (nd_children n ! i) c out \<Longrightarrow> remove_result k (node_elems n @ fs) rm n (update_child i c n) out"
    and ih: "removal k' fs rm (nd_children n ! i) (remove_walk rm (nd_children n ! i) remaining)"
    and others: "\<And>j. no_suffix n \<Longrightarrow> j < length (nd_children n) \<Longrightarrow> j \<noteq> i \<Longrightarrow> absent fs rm (nd_children n ! j)"
  shows "removal k (node_elems n @ fs) rm n (turn_at rm n i remaining)"
proof -
  let ?c = "nd_children n ! i"
  have absent: "absent (node_elems n @ fs) rm n" if "absent fs rm ?c" "no_suffix n"
    using absent_below [OF assms(1), of n rm] others [OF that(2)] that(1) by (metis in_set_conv_nth)
  show ?thesis
  proof (cases "nd_bytes ?c = remaining")
    case True
    obtain n' out where r: "remove_child n i rm = Some (n', out)" "remove_result k (node_elems n @ fs) rm n n' out"
        "out = None \<longrightarrow> nd_remapping ?c \<noteq> rm \<or> nd_value ?c = None" using rc same [OF True] by auto
    moreover have "absent fs rm ?c" if "out = None" using own_only [OF cw] r(3) that same [OF True] by simp
    ultimately show ?thesis using True absent by (auto simp: removal_def turn_at_def)
  next
    case False
    obtain c out where c: "remove_walk rm ?c remaining = Some (c, out)" "remove_result k' fs rm ?c c out"
        "out = None \<and> no_suffix ?c \<and> fs \<noteq> node_elems ?c \<longrightarrow> absent fs rm ?c" using ih by (auto simp: removal_def)
    have "no_suffix ?c" if "no_suffix n" using that i unfolding no_suffix_unfold [of n] by simp
    then have "absent (node_elems n @ fs) rm n" if "out = None" "no_suffix n" using c(3) diff [OF False] that absent by blast
    then show ?thesis using False c(1) put [OF c(2)] by (auto simp: removal_def turn_at_def)
  qed
qed

lemma remove_walk_mismatch:
  "(\<And>rest. rest \<noteq> [] \<Longrightarrow> s \<noteq> nd_bytes n @ rest) \<Longrightarrow> remove_walk rm n s = Some (n, None)"
proof -
  assume a: "\<And>rest. rest \<noteq> [] \<Longrightarrow> s \<noteq> nd_bytes n @ rest"
  have "length s \<le> length (nd_bytes n) \<or> take (length (nd_bytes n)) s \<noteq> nd_bytes n"
  proof (rule ccontr)
    assume c: "\<not> ?thesis"
    then have "s = nd_bytes n @ drop (length (nd_bytes n)) s" using append_take_drop_id [of "length (nd_bytes n)" s] by simp
    moreover have "drop (length (nd_bytes n)) s \<noteq> []" using c by simp
    ultimately show False using a by blast
  qed
  then show ?thesis by (subst remove_walk.simps) (auto simp: remove_step_def)
qed

lemma remove_walk_static:
  assumes "is_static n" "remaining \<noteq> []" "length (nd_children n) = length (nd_indices n) + (if nd_wild_child n then 1 else 0)"
  shows "remove_walk rm n (nd_bytes n @ remaining) =
    (case position (\<lambda>c. c = remaining ! 0) (nd_indices n) of
       Some i \<Rightarrow> turn_at rm n i remaining
     | None \<Rightarrow> if nd_wild_child n then turn_at rm n (length (nd_children n) - 1) remaining else Some (n, None))"
proof (cases "position (\<lambda>c. c = remaining ! 0) (nd_indices n)")
  case None
  have "\<not> is_param (nd_type n)" using assms(1) by (auto simp: is_static_def is_param_def)
  then show ?thesis using assms(2,3) None
    by (subst remove_walk.simps) (auto simp: remove_step_def turn_at_def Let_def simp del: position_None_iff)
next
  case (Some i)
  have "\<not> is_param (nd_type n)" using assms(1) by (auto simp: is_static_def is_param_def)
  moreover have "i < length (nd_children n)" using position_SomeD [OF Some] assms(3) by auto
  ultimately show ?thesis using assms(2) Some by (subst remove_walk.simps) (auto simp: remove_step_def turn_at_def Let_def)
qed

lemma suffix_child_some: "suffix_child suf j cs = Some i \<Longrightarrow> j \<le> i \<and> i - j < length cs \<and> nd_bytes (cs ! (i - j)) = suf"
proof (induction suf j cs rule: suffix_child.induct)
  case (2 suf j c cs)
  show ?case
  proof (cases "nd_bytes c = suf")
    case False
    then have "suffix_child suf (j + 1) cs = Some i" using 2(2) by simp
    from 2(1) [OF False this] show ?thesis by (auto simp: nth_Cons')
  qed (use 2(2) in auto)
qed simp

lemma suffix_child_none: "suffix_child suf j cs = None \<Longrightarrow> suf \<notin> nd_bytes ` set cs"
  by (induction suf j cs rule: suffix_child.induct) (auto split: if_splits)

lemma remove_walk_param:
  assumes "param_wf k b n" "remaining \<noteq> []"
  shows "remove_walk rm n (nd_bytes n @ remaining) =
    (case suffix_child (take (segment_end remaining) remaining) 0 (nd_children n) of
       Some i \<Rightarrow> turn_at rm n i remaining | None \<Rightarrow> Some (n, None))"
proof -
  have n: "is_param (nd_type n)" "nd_indices n = []" "\<not> nd_wild_child n" using assms(1) by (simp_all add: param_wf_def is_param_def)
  let ?t = "segment_end remaining"
  show ?thesis
  proof (cases "suffix_child (take ?t remaining) 0 (nd_children n)")
    case None
    then show ?thesis using n assms(2) by (subst remove_walk.simps) (auto simp: remove_step_def Let_def)
  next
    case (Some i)
    have i: "i < length (nd_children n)" "nd_bytes (nd_children n ! i) = take ?t remaining" using suffix_child_some [OF Some] by simp_all
    have len: "length (nd_bytes (nd_children n ! i)) = ?t" using i(2) segment_end_bound [of remaining] by simp
    have "nd_bytes (nd_children n ! i) = remaining \<longleftrightarrow> ?t = length remaining" using i(2) len by (metis take_all_iff order_refl)
    then show ?thesis using n assms(2) Some i(1) len by (subst remove_walk.simps) (auto simp: remove_step_def Let_def turn_at_def)
  qed
qed

lemma remove_walk_catch: "nd_type n = CatchAll \<Longrightarrow> node_wf k n \<Longrightarrow> remove_walk rm n s = Some (n, None)"
  by (subst remove_walk.simps) (simp add: remove_step_def Let_def node_wf_catch catch_wf_def is_param_def)

lemma absent_index: "index_node k x c \<Longrightarrow> (\<And>gs. fs \<noteq> PChar x # gs) \<Longrightarrow> absent fs rm c"
  unfolding index_node_def starts_with_def list_all_iff absent_def by (metis fst_conv list.collapse)

lemma absent_wild: "wild_node k c \<Longrightarrow> absent (PChar x # gs) rm c"
  by (rule absent_other) (auto simp: wild_node_def elems_of_def is_param_def split: node_type.splits)

lemma bytes_of_head: "fs = PChar c # gs \<Longrightarrow> bytes_of k fs ! 0 = c"
  by (simp add: bytes_of_def)

lemma static_others:
  assumes wf: "static_wf k n" and pt: "plain_tree n" and fs: "fs \<noteq> []" "list_all plain_elem fs"
    and i: "case position (\<lambda>c. c = bytes_of k fs ! 0) (nd_indices n) of Some j \<Rightarrow> i = j | None \<Rightarrow> nd_wild_child n \<longrightarrow> i = length (nd_children n) - 1"
    and j: "j < length (nd_children n)" "nd_wild_child n \<or> position (\<lambda>c. c = bytes_of k fs ! 0) (nd_indices n) \<noteq> None \<longrightarrow> j \<noteq> i"
  shows "absent fs rm (nd_children n ! j)"
proof -
  note cwf = static_children [OF wf]
  have d: "distinct (nd_indices n)" using wf by (simp add: static_wf_def)
  show ?thesis
  proof (cases "j < length (nd_indices n)")
    case True
    have "nd_indices n ! j \<noteq> bytes_of k fs ! 0"
    proof
      assume eq: "nd_indices n ! j = bytes_of k fs ! 0"
      then obtain m where m: "position (\<lambda>c. c = bytes_of k fs ! 0) (nd_indices n) = Some m" using True
        by (metis (mono_tags, lifting) nth_mem option.exhaust position_None_iff)
      then have "m < length (nd_indices n)" "nd_indices n ! m = nd_indices n ! j" using position_SomeD [OF m] eq by auto
      then have "m = j" using d True by (simp add: nth_eq_iff_index_eq)
      then show False using i j(2) m by simp
    qed
    then have "fs \<noteq> PChar (nd_indices n ! j) # gs" for gs using bytes_of_head by metis
    then show ?thesis using absent_index [OF children_wf_nth [OF cwf True]] by blast
  next
    case False
    then have w: "nd_wild_child n" "j = length (nd_children n) - 1" using children_wf_length [OF cwf] j(1) by (auto split: if_splits)
    then obtain m where m: "position (\<lambda>c. c = bytes_of k fs ! 0) (nd_indices n) = Some m" using i j(2) by (auto split: option.splits)
    then have "bytes_of k fs ! 0 \<in> set (nd_indices n)" using position_SomeD [OF m] by (metis nth_mem)
    then have "plain_byte (bytes_of k fs ! 0)" using pt unfolding plain_tree_unfold [of n] by (simp add: list_all_iff)
    then obtain c gs where "fs = PChar c # gs" using fs(1)
      by (cases fs rule: pattern_cases) (auto simp: bytes_of_def plain_byte_def is_brace_def)
    then show ?thesis using absent_wild [OF wild_last [OF wf w(1)]] w(2) by simp
  qed
qed

lemma static_removal:
  assumes wf: "static_wf k n" and pt: "plain_tree n" and fs: "fs \<noteq> []" "list_all plain_elem fs" and k: "k < 26"
    and ih: "\<And>i. child_at n i \<Longrightarrow> removal k fs rm (nd_children n ! i) (remove_walk rm (nd_children n ! i) (bytes_of k fs))"
  shows "removal k (node_elems n @ fs) rm n (remove_walk rm n (bytes_of k (node_elems n @ fs)))"
proof -
  let ?R = "bytes_of k fs" and ?pos = "position (\<lambda>c. c = bytes_of k fs ! 0) (nd_indices n)"
  note st = static_wf_head [OF wf] and cwf = static_children [OF wf]
  have nwf: "node_wf k n" using wf st by (simp add: node_wf_static)
  have R: "?R \<noteq> []" using fs(1) by simp
  have "bytes_of k (node_elems n @ fs) = nd_bytes n @ ?R" using elems_static [OF st] by (simp add: bytes_of_append)
  then have walk: "remove_walk rm n (bytes_of k (node_elems n @ fs)) =
      (case ?pos of Some i \<Rightarrow> turn_at rm n i ?R | None \<Rightarrow> if nd_wild_child n then turn_at rm n (length (nd_children n) - 1) ?R else Some (n, None))"
    using remove_walk_static [OF st R children_wf_length [OF cwf]] by simp
  have turn: "removal k (node_elems n @ fs) rm n (turn_at rm n i ?R)"
    if at: "child_at n i" and others: "\<And>j. j < length (nd_children n) \<Longrightarrow> j \<noteq> i \<Longrightarrow> absent fs rm (nd_children n ! j)" for i
  proof (rule removal_turn [OF fs(1) child_at_bound [OF wf at] _ _ _ static_remove_child [OF wf at] static_put_back [OF wf at] ih [OF at]])
    have i: "i < length (nd_children n)" by (rule child_at_bound [OF wf at])
    show cw: "node_wf k (nd_children n ! i)" by (rule static_child_wf [OF wf i])
    have "plain_tree (nd_children n ! i)" using pt i unfolding plain_tree_unfold [of n] by simp
    then show "fs = node_elems (nd_children n ! i)" if "nd_bytes (nd_children n ! i) = ?R" using same_bytes [OF cw _ fs(2) that k] by blast
    show "fs \<noteq> node_elems (nd_children n ! i)" if "nd_bytes (nd_children n ! i) \<noteq> ?R" using node_bytes [OF cw] that by auto
  qed (assumption, rule others)
  show ?thesis
  proof (cases ?pos)
    case (Some i)
    have "child_at n i" using position_SomeD [OF Some] by (simp add: child_at_def)
    from turn [OF this static_others [OF wf pt fs]] show ?thesis using walk Some by simp
  next
    case None
    show ?thesis
    proof (cases "nd_wild_child n")
      case True
      have "child_at n (length (nd_children n) - 1)" using True by (simp add: child_at_def)
      from turn [OF this static_others [OF wf pt fs]] show ?thesis using walk None True by simp
    next
      case False
      have "absent fs rm (nd_children n ! j)" if "j < length (nd_children n)" for j
        by (rule static_others [OF wf pt fs _ that, of 0]) (use None False in \<open>simp_all del: position_None_iff\<close>)
      then have "absent (node_elems n @ fs) rm n" by (intro absent_below [OF fs(1)]) (auto simp: in_set_conv_nth)
      then show ?thesis using walk None False removal_none [OF nwf] by simp
    qed
  qed
qed

lemma slash_segment:
  assumes "map PChar suf @ gs = PChar (CHR ''/'') # hs" "segment_split suf gs" "suf \<noteq> []"
  shows "suf = ''/''"
proof -
  obtain rest where "suf = CHR ''/'' # rest" using assms(1,3) by (cases suf) auto
  moreover have "rest = []" using calculation assms(2) by (cases rest rule: rev_cases) (auto simp: segment_split_def)
  ultimately show ?thesis by simp
qed

text \<open>Without suffixes a parameter has at most the one child of the slash.\<close>

lemma plain_param_child:
  assumes "param_wf k b n" "no_suffix n" "c \<in> set (nd_children n)"
  shows "nd_bytes c = ''/''" "node_elems c = [PChar (CHR ''/'')]"
proof -
  have "\<not> b" using assms(1,2) unfolding no_suffix_unfold [of n] by (auto simp: param_wf_def)
  then show "nd_bytes c = ''/''" using assms(1,3) by (auto simp: param_wf_def suffix_ok_def)
  then show "node_elems c = [PChar (CHR ''/'')]" using assms(1,3) elems_static [of c] by (simp add: param_wf_def is_static_def)
qed

lemma param_removal:
  assumes wf: "param_wf k b n" and pt: "plain_tree n" and fs: "fs \<noteq> []" "list_all plain_elem fs" "seg_ok True fs" and k: "k < 25"
    and ih: "\<And>i. i < length (nd_children n) \<Longrightarrow> removal (k + 1) fs rm (nd_children n ! i) (remove_walk rm (nd_children n ! i) (bytes_of (k + 1) fs))"
  shows "removal k (PParam # fs) rm n (remove_walk rm n (bytes_of k (PParam # fs)))"
proof -
  let ?R = "bytes_of (k + 1) fs"
  have nwf: "node_wf k n" using wf by (simp add: node_wf_param param_wf_def)
  have elems: "node_elems n = [PParam]" by (rule param_elems [OF wf])
  have R: "?R \<noteq> []" using fs(1) by simp
  obtain suf gs where s: "fs = map PChar suf @ gs" "segment_split suf gs" using seg_split [OF fs(3)] by blast
  have ne: "suf \<noteq> []" using s fs(1) by (auto simp: segment_split_def)
  have "?R = suf @ bytes_of (k + 1) gs" using s(1) by (simp add: bytes_of_append)
  moreover have "gs = [] \<Longrightarrow> bytes_of (k + 1) gs = []" by simp
  ultimately have t: "take (segment_end ?R) ?R = suf"
    using segment_end_split [of "[]" suf gs "bytes_of (k + 1) gs"] s(2) by simp
  have "bytes_of k (PParam # fs) = nd_bytes n @ ?R" using wild_param_bytes [OF wf] by (simp add: bytes_of_def)
  then have walk: "remove_walk rm n (bytes_of k (PParam # fs)) =
      (case suffix_child suf 0 (nd_children n) of Some i \<Rightarrow> turn_at rm n i ?R | None \<Rightarrow> Some (n, None))"
    using remove_walk_param [OF wf R] t by simp
  show ?thesis
  proof (cases "suffix_child suf 0 (nd_children n)")
    case None
    have "suf \<notin> nd_bytes ` set (nd_children n)" by (rule suffix_child_none [OF None])
    have "absent fs rm c" if "no_suffix n" "c \<in> set (nd_children n)" for c
    proof (rule absent_other)
      fix hs
      show "fs \<noteq> node_elems c @ hs"
      proof
        assume "fs = node_elems c @ hs"
        then have "suf = ''/''" using plain_param_child(2) [OF wf that] s ne slash_segment [of suf gs hs] by simp
        then show False using plain_param_child(1) [OF wf that] that(2) \<open>suf \<notin> nd_bytes ` set (nd_children n)\<close> by (metis imageI)
      qed
    qed
    then have "absent (PParam # fs) rm n" if "no_suffix n" using absent_below [OF fs(1), of n rm] that elems by simp
    then show ?thesis using walk None removal_none [OF nwf] by simp
  next
    case (Some i)
    have i: "i < length (nd_children n)" "nd_bytes (nd_children n ! i) = suf" using suffix_child_some [OF Some] by simp_all
    then have ci: "nd_children n ! i \<in> set (nd_children n)" by simp
    have cw: "node_wf (k + 1) (nd_children n ! i)" "is_static (nd_children n ! i)" using wf ci by (simp_all add: param_wf_def is_static_def)
    have "removal k (node_elems n @ fs) rm n (turn_at rm n i ?R)"
    proof (rule removal_turn [OF fs(1) i(1) _ _ cw(1) param_remove_child [OF wf i(1)] param_put_back [OF wf i(1)] ih [OF i(1)]])
      have "plain_tree (nd_children n ! i)" using pt ci unfolding plain_tree_unfold [of n] by simp
      then show "fs = node_elems (nd_children n ! i)" if "nd_bytes (nd_children n ! i) = ?R" using same_bytes_static [OF cw(1) _ fs(2) that cw(2)] by blast
      show "fs \<noteq> node_elems (nd_children n ! i)" if "nd_bytes (nd_children n ! i) \<noteq> ?R" using node_bytes [OF cw(1)] that by auto
      show "absent fs rm (nd_children n ! j)" if "no_suffix n" "j < length (nd_children n)" "j \<noteq> i" for j
      proof -
        have "nd_bytes (nd_children n ! j) = nd_bytes (nd_children n ! i)" using plain_param_child(1) [OF wf that(1)] ci that(2) by simp
        moreover have "distinct (map nd_bytes (nd_children n))" using wf by (simp add: param_wf_def)
        ultimately show ?thesis using that(2,3) i(1) by (simp add: distinct_conv_nth)
      qed
    qed assumption
    then show ?thesis using walk Some elems by simp
  qed
qed

lemma remove_walk_ok:
  assumes "node_wf k n" "plain_tree n" "list_all plain_elem es" "seg_ok False es" "k + nparams es \<le> 25"
  shows "removal k es rm n (remove_walk rm n (bytes_of k es))"
  using assms
proof (induction "size n" arbitrary: k n es rule: less_induct)
  case less
  have ih: "removal k' fs rm (nd_children n ! i) (remove_walk rm (nd_children n ! i) (bytes_of k' fs))"
    if "i < length (nd_children n)" "node_wf k' (nd_children n ! i)" "list_all plain_elem fs" "seg_ok False fs" "k' + nparams fs \<le> 25" for i k' fs
  proof -
    have c: "nd_children n ! i \<in> set (nd_children n)" using that(1) by simp
    then have "plain_tree (nd_children n ! i)" using less.prems(2) unfolding plain_tree_unfold [of n] by simp
    then show ?thesis using less.hyps [OF child_size [OF c] that(2) _ that(3-5)] by blast
  qed
  show ?case
  proof (cases "\<exists>rest. rest \<noteq> [] \<and> bytes_of k es = nd_bytes n @ rest")
    case False
    have "absent es rm n" if "es \<noteq> node_elems n"
    proof (rule absent_other)
      fix gs
      show "es \<noteq> node_elems n @ gs"
      proof
        assume es: "es = node_elems n @ gs"
        then have "bytes_of (k + nparams (node_elems n)) gs \<noteq> []" using that by simp
        then show False using False es node_bytes [OF less.prems(1)] by (auto simp: bytes_of_append)
      qed
    qed
    then show ?thesis using remove_walk_mismatch [of "bytes_of k es" n rm] False removal_none [OF less.prems(1)] by metis
  next
    case True
    then obtain rest where rest: "rest \<noteq> []" "bytes_of k es = nd_bytes n @ rest" by blast
    have static: ?thesis if st: "is_static n"
    proof -
      have wf: "static_wf k n" using less.prems(1) st by (simp add: node_wf_static)
      obtain fs where fs: "es = map PChar (nd_bytes n) @ fs" "rest = bytes_of k fs"
        using bytes_of_prefix [OF rest(2) plain_static_bytes [OF st less.prems(2)]] by blast
      have ok: "fs \<noteq> []" "list_all plain_elem fs" "seg_ok False fs" "k + nparams fs \<le> 25" "k < 26"
        using fs rest(1) less.prems(3,5) seg_ok_tail [of False "nd_bytes n" fs] less.prems(4) by auto
      have "removal k (node_elems n @ fs) rm n (remove_walk rm n (bytes_of k (node_elems n @ fs)))"
      proof (rule static_removal [OF wf less.prems(2) ok(1,2,5)])
        fix i assume "child_at n i"
        then have i: "i < length (nd_children n)" by (rule child_at_bound [OF wf])
        show "removal k fs rm (nd_children n ! i) (remove_walk rm (nd_children n ! i) (bytes_of k fs))"
          by (rule ih [OF i static_child_wf [OF wf i] ok(2,3,4)])
      qed
      then show ?thesis using fs(1) elems_static [OF st] by simp
    qed
    show ?thesis
    proof (cases "nd_type n")
      case (Param b)
      then have wf: "param_wf k b n" using less.prems(1) by (simp add: node_wf_param)
      have k: "k < 26" using less.prems(5) by simp
      obtain fs where fs: "es = PParam # fs" "rest = bytes_of (k + 1) fs"
        using param_first [OF _ less.prems(3) k] rest(2) wild_param_bytes [OF wf] by metis
      have "fs \<noteq> []" "list_all plain_elem fs" "seg_ok True fs" "k < 25" "k + 1 + nparams fs \<le> 25" using fs rest(1) less.prems(3-5) by auto
      note ok = this
      have "removal k (PParam # fs) rm n (remove_walk rm n (bytes_of k (PParam # fs)))"
      proof (rule param_removal [OF wf less.prems(2) ok(1-4)])
        fix i assume i: "i < length (nd_children n)"
        have "node_wf (k + 1) (nd_children n ! i)" using wf i by (simp add: param_wf_def)
        then show "removal (k + 1) fs rm (nd_children n ! i) (remove_walk rm (nd_children n ! i) (bytes_of (k + 1) fs))"
          using ih [OF i _ ok(2) seg_ok_mono [OF ok(3)] ok(5)] by blast
      qed
      then show ?thesis using fs(1) by simp
    next
      case CatchAll
      have "absent es rm n" if "es \<noteq> node_elems n"
      proof -
        have "nd_children n = []" using CatchAll less.prems(1) by (simp add: node_wf_catch catch_wf_def)
        then show ?thesis using that unfolding absent_def node_routes_of [of n] routes_of_def by auto
      qed
      then show ?thesis using remove_walk_catch [OF CatchAll less.prems(1)] removal_none [OF less.prems(1)] by simp
    qed (use static in \<open>simp_all add: is_static_def\<close>)
  qed
qed

section \<open>Removing a route\<close>

lemma node_remove_ok:
  assumes wf: "node_wf 0 t" "is_static t" and pt: "plain_tree t" and p: "route_pattern route = Some (r, es, names)" and pe: "list_all plain_elem es"
  shows "\<exists>t' out. node_remove route t = Some (t', out) \<and> node_wf 0 t' \<and> is_static t' \<and> loses es names out t t' \<and>
    (out = None \<and> no_suffix t \<longrightarrow> absent es names t)"
proof -
  note d = route_patternD [OF p]
  have inner: "ur_inner r = bytes_of 0 es" using d(2) fst_ur_view [of r] by (simp add: bytes_of_def)
  show ?thesis
  proof (cases "ur_inner r = nd_bytes t")
    case True
    have elems: "es = node_elems t" using same_bytes_static [OF wf(1) pt pe _ wf(2)] True inner by simp
    have names: "names = []" using d(5) elems elems_static [OF wf(2)] by simp
    have len: "nd_value t \<noteq> None \<longrightarrow> nd_remapping t = []" using wf by (auto simp: node_wf_static static_wf_def)
    let ?t = "if nd_children t = [] then node_default else set_value None t"
    have "node_remove route t = Some (?t, nd_value t)" using d(1) True by (simp add: node_remove_def)
    moreover have "is_static (set_value None t)" using wf(2) by (simp add: is_static_def)
    then have "node_wf 0 ?t \<and> is_static ?t" using set_value_wf [OF wf(1)] by (simp add: node_wf_default)
    moreover have "loses es names (nd_value t) t ?t"
      unfolding loses_def mset_node_routes [of t] mset_node_routes [of ?t] using len elems names
      by (cases "nd_value t") (simp_all add: node_default_def)
    moreover have "absent es names t" if "nd_value t = None" using own_only [OF wf(1)] that elems by simp
    ultimately show ?thesis by (intro exI [of _ ?t] exI [of _ "nd_value t"]) blast
  next
    case False
    have "0 + nparams es \<le> 25" using d(3) by (simp add: pattern_ok_def)
    from remove_walk_ok [OF wf(1) pt pe d(4) this, of names] obtain t' out where
      r: "remove_walk names t (bytes_of 0 es) = Some (t', out)" "remove_result 0 es names t t' out" "out = None \<and> no_suffix t \<and> es \<noteq> node_elems t \<longrightarrow> absent es names t"
      by (auto simp: removal_def)
    have "es \<noteq> node_elems t" using False inner node_bytes [OF wf(1)] by auto
    moreover have "node_remove route t = Some (t', out)" using d(1) False r(1) inner by (simp add: node_remove_def)
    ultimately show ?thesis using r(2,3) wf(2) by (auto simp: remove_result_def is_static_def)
  qed
qed

text \<open>C38. Removing a route that insertion covers, without braces in its static parts, from a well-formed tree without
  braces in its static parts does not panic and leaves a well-formed tree. What it gives back is the value of that very
  route, which is gone while every other one is kept; when it gives nothing back no route has changed and, if no parameter
  of the tree has a suffix, the tree did not have the route. With braces both halves are false
  (\<open>remove_ignores_escapes\<close>).\<close>

theorem node_remove_exact:
  assumes "node_wf 0 t" and "is_static t" and "plain_tree t" and "route_pattern route = Some (r, es, names)" and "list_all plain_elem es"
  shows "\<exists>t' out. node_remove route t = Some (t', out) \<and> node_wf 0 t' \<and> is_static t' \<and>
    (case out of
       Some v \<Rightarrow> mset (node_routes t) = add_mset (es, names, v) (mset (node_routes t'))
     | None \<Rightarrow> mset (node_routes t) = mset (node_routes t') \<and> (no_suffix t \<longrightarrow> (\<forall>v. (es, names, v) \<notin> set (node_routes t))))"
proof -
  obtain t' out where "node_remove route t = Some (t', out)" "node_wf 0 t'" "is_static t'" "loses es names out t t'"
      "out = None \<and> no_suffix t \<longrightarrow> absent es names t"
    using node_remove_ok [OF assms] by blast
  then show ?thesis by (intro exI [of _ t'] exI [of _ out]) (cases out, simp_all add: loses_def absent_def)
qed

theorem node_remove_exact_witness:
  "\<exists>t' es. node_remove ''/users/{name}/posts'' sample_tree = Some (t', Some 3) \<and> node_wf 0 t' \<and>
     mset (node_routes sample_tree) = add_mset (es, [''name''], 3) (mset (node_routes t')) \<and> fill es [''mel''] = Some ''/users/mel/posts''"
proof -
  let ?route = "''/users/{name}/posts''"
  have "case route_pattern ?route of Some (r, es, names) \<Rightarrow> names = [''name''] \<and> fill es [''mel''] = Some ''/users/mel/posts'' \<and> list_all plain_elem es | None \<Rightarrow> False"
    by code_simp
  then obtain r es where p: "route_pattern ?route = Some (r, es, [''name''])" "list_all plain_elem es" "fill es [''mel''] = Some ''/users/mel/posts''"
    by (auto split: option.splits)
  have "plain_tree sample_tree" "map_option snd (node_remove ?route sample_tree) = Some (Some 3)" by code_simp+
  with node_remove_exact [OF sample_tree_ok(1,2) _ p(1,2)] p(3) show ?thesis by fastforce
qed

text \<open>
  With braces the comparison of bytes goes wrong: removing the literal \<^verbatim>\<open>/{*x}\<close>, which is not in the tree, takes the
  catch-all, and the parameter \<^verbatim>\<open>/{a}\<close> cannot be removed next to the literal of the same bytes.
\<close>

lemma remove_ignores_escapes:
  "map_option snd (node_remove ''/{{*x}}'' (insert_all [(''/{*x}'', 1)])) = Some (Some 1)"
  "map_option snd (node_remove ''/{a}'' (insert_all [(''/{a}'', 1), (''/{{a}}'', 2)])) = Some None"
  by code_simp+

end
