(* ===== verification/Spec2Isabelle.thy ===== *)
theory Spec2Isabelle
  imports Ipset Limiter_Store Balancer Path_Matcher Route_Slot Sni_Table Route_Pattern Route_Remove
begin

text \<open>
  A verification library of the \<^verbatim>\<open>ophan\<close> API gateway.

  \<^bold>\<open>The program.\<close> A connection reaches a listener, which chooses a TLS configuration or a host by the server name
  (\<^verbatim>\<open>libs/ophan-router/src/sni.rs\<close>) and refuses addresses by sets of networks (\<^verbatim>\<open>shared/flatkit/src/net\<close>).
  The path of a request is looked up in the compressed tree of routes of its host
  (\<^verbatim>\<open>libs/ophan-router/src/tree.rs\<close>), the slot of the route chooses an entry by method
  (\<^verbatim>\<open>vhost.rs\<close>, \<^verbatim>\<open>method.rs\<close>), path matchers exempt requests from middlewares
  (\<^verbatim>\<open>shared/flatkit/src/matchers\<close>), the limiter admits or rejects it
  (\<^verbatim>\<open>ophan/src/middlewares/limiter\<close>), and the balancer picks the backend it is forwarded to
  (\<^verbatim>\<open>ophan/src/balancer\<close>).

  \<^bold>\<open>Conventions.\<close> A string is its list of bytes. Integers keep their width as words, with saturating operations as
  the code uses them. A \<open>Result\<close> is a sum whose left side is the error, an \<open>Option\<close> is an option, and a panic is the
  value \<open>None\<close> of an outer option, so that a theorem giving \<open>Some\<close> also says that no index, assertion or unwrap fails.
  A mutated object is a record that is passed on. Loops are structural recursions, functions with a measure, or
  \<open>partial_function (option)\<close>, for which returning is proved. Times are arguments.

  \<^bold>\<open>The theories.\<close>
  \<^item> \<open>Prelude\<close>, \<open>Ascii\<close>: words, saturation, lists, positions, binary search, unsigned numbers in text, UTF-8 and ASCII
    case, with the lemma collections the other theories use.
  \<^item> \<open>Ip_Text\<close>, \<open>Ipnet\<close>, \<open>Ipset\<close>: reading and printing addresses (the standard library), networks in CIDR notation
    (\<^verbatim>\<open>net/ipnet.rs\<close>, \<^verbatim>\<open>net/mod.rs\<close>) and the immutable set built from them (\<^verbatim>\<open>net/ipset.rs\<close>). The locales
    \<open>cidr_net\<close> and \<open>address_filter\<close> state what a network and a filter promise; both address families interpret the first,
    the set the second. Shown: a set contains exactly the addresses of its networks, its ranges are sorted and separated,
    the first bad entry is the error, overlap and subnet tests against the addresses they stand for, text round trips.
  \<^item> \<open>Host_Addr\<close>, \<open>Balancer\<close>: upstream addresses (\<^verbatim>\<open>net/host.rs\<close>), backends with cached name resolution, the
    strategies, selection and active health checks (\<^verbatim>\<open>ophan/src/balancer/\<close>). Name resolution and the probes' sockets are
    arguments. Shown: selection returns a healthy backend whenever one exists and counts it, fairness of the rotation,
    stickiness of the address hash, health changes only after a streak, the last good address survives a failed lookup.
  \<^item> \<open>Limiter_Config\<close>, \<open>Token_Bucket\<close>, \<open>F64\<close>, \<open>Sliding_Window\<close>, \<open>Limiter_Store\<close>: the limiter's policies
    (\<^verbatim>\<open>limiter/config.rs\<close>), its two algorithms (\<^verbatim>\<open>limiter/algorithm/\<close>) and the store of limiters by client
    (\<^verbatim>\<open>limiter/store.rs\<close>). The compare-and-swap loop of the bucket is a step relation of several threads; the
    floating-point estimate of the window is modelled in IEEE double precision. The locale \<open>evictable_limiter\<close> says when a
    limiter may be forgotten, and both algorithms interpret it. Shown: admissions in any interval are bounded under every
    interleaving, the loop is linearizable, the retry time is exact, eviction cannot be observed, memory is bounded.
  \<^item> \<open>Byte_Mask\<close>, \<open>Glob_Pattern\<close>, \<open>Path_Matcher\<close>: byte sets as four words (locale \<open>byte_set\<close>), the tokens of glob
    patterns, and the trie of patterns in an arena with its backtracking matcher (\<^verbatim>\<open>matchers/path.rs\<close>). Shown: the
    matcher always returns and accepts exactly the paths of the reference meaning of the patterns (with the treatment of
    double stars that the code has), and the class bitmaps agree with the byte sets.
  \<^item> \<open>Http_Method\<close>, \<open>Route_Slot\<close>, \<open>Sni_Table\<close>, \<open>Route_Pattern\<close>: method sets (locale \<open>method_algebra\<close>), the entries of a
    route, server names with wildcards, and the normalization of host and path patterns. Shown: a slot serves a method by
    its explicit entry if there is one, the most specific server name wins, a normalized pattern is well-formed.
  \<^item> \<open>Route_Params\<close>, \<open>Route_Escape\<close>, \<open>Route_Tree\<close>: captured parameters (a small array that spills, locale
    \<open>param_store\<close>), escaped braces, and the tree with insertion, removal, conflicts, iteration and search
    (\<^verbatim>\<open>libs/ophan-router/src/{params,escape,tree,error}.rs\<close>).
  \<^item> \<open>Route_Meaning\<close>, \<open>Route_Search\<close>, \<open>Route_Insert\<close>, \<open>Route_Walk\<close>, \<open>Route_Remove\<close>: the routes a tree stands for, its
    invariant, and the three operations against them. Shown: what a search finds is a stored route with the segments of
    the path as parameters; a path of a stored route is found (in trees without suffixes after parameters); an insertion
    adds exactly its route or fails and changes none; a removal takes exactly its route (in trees without literal braces).

  \<^bold>\<open>Fuel and bounds.\<close> No definition of the model takes fuel. The searches and matchers that loop are partial functions,
  and their theorems state that they return. The bounds that appear as hypotheses are those of the machine integers: lengths
  below the width of an index, counters that have not wrapped.

  \<^bold>\<open>Not modelled.\<close> The configuration language, because its parser walks syntax trees whose shape a grammar generates at
  build time; the proxy callbacks, the listener, the HTTP client, TLS and the codecs, which are asynchronous code around
  third-party objects; authentication and the web application firewall, whose work is done by cryptography and regular
  expression libraries; the packet filter, which runs in the kernel; static files, caches, process control, metrics,
  logging and the command line, which are input and output; the vendored proxy library.
\<close>

end
